(* ===== verification/Prelude.thy ===== *)
theory Prelude
  imports Main "HOL-Library.Word" "HOL-Library.Monad_Syntax"
begin

text \<open>
  Shared vocabulary of the development: the machine integers of the C sources, byte
  memories with little-endian 64-bit access, C strings as readers, and the generic
  lemmas on lists, options and words that several components use.

  Conventions.  A C function that always returns is a HOL function.  A C function that
  may loop for ever, or whose behaviour is undefined for some inputs (an access outside
  an array, a dereference of a pointer to nothing, a shift by the width of the type),
  returns an option, and \<open>None\<close> stands for exactly these outcomes; error codes that the
  code returns are ordinary values.
\<close>

unbundle bit_operations_syntax

type_synonym u8 = "8 word"
type_synonym u16 = "16 word"
type_synonym u32 = "32 word"
type_synonym u64 = "64 word"
type_synonym bytes = "u64 \<Rightarrow> u8"
type_synonym cptr = "nat \<Rightarrow> u8"

named_theorems mem_simps \<open>reads after writes of the byte memory\<close>
named_theorems inv_elims \<open>consequences of component invariants\<close>

subsection \<open>Options and lists\<close>

lemma bind_SomeE [elim!]:
  assumes "Option.bind x f = Some y"
  obtains z where "x = Some z" and "f z = Some y"
  using assms by (auto simp: bind_eq_Some_conv)

lemma set_list_update_distinct:
  assumes "distinct xs" and "i < length xs"
  shows "set (xs[i := y]) = insert y (set xs - {xs ! i})"
  using assms by (rule set_update_distinct)

lemma set_remove1_distinct: "distinct xs \<Longrightarrow> set (remove1 x xs) = set xs - {x}"
  by (rule set_remove1_eq)

text \<open>A loop over a list of indices whose body may be undefined.\<close>

fun for_each :: "('i \<Rightarrow> 's \<Rightarrow> 's option) \<Rightarrow> 'i list \<Rightarrow> 's \<Rightarrow> 's option" where
  "for_each f [] s = Some s"
| "for_each f (i # xs) s = Option.bind (f i s) (for_each f xs)"

lemma for_each_append:
  "for_each f (xs @ ys) s = Option.bind (for_each f xs s) (for_each f ys)"
  by (induction xs arbitrary: s) (simp_all split: Option.bind_split)

text \<open>An invariant of such a loop, indexed by the iterations already done.\<close>

lemma for_each_invariant:
  assumes "\<And>i s. i < n \<Longrightarrow> I i s \<Longrightarrow> \<exists>s'. f i s = Some s' \<and> I (Suc i) s'" and "I 0 s"
  shows "\<exists>s'. for_each f [0..<n] s = Some s' \<and> I n s'"
  using assms
proof (induction n)
  case (Suc n)
  then obtain s1 where "for_each f [0..<n] s = Some s1" "I n s1" by fastforce
  moreover obtain s2 where "f n s1 = Some s2" "I (Suc n) s2" using Suc.prems(1) [of n s1] calculation(2) by blast
  ultimately show ?case by (simp add: for_each_append)
qed simp

subsection \<open>Static pools\<close>

text \<open>\<open>for (i = 0; i < n; i++) if (!used[i])\<close>: the first free node of a pool.\<close>

definition free_slot :: "bool list \<Rightarrow> nat option" where
  "free_slot used = List.find (\<lambda>i. \<not> used ! i) [0..<length used]"

lemma free_slot_some: "free_slot used = Some i \<Longrightarrow> i < length used \<and> \<not> used ! i"
  unfolding free_slot_def find_Some_iff by auto

lemma free_slot_none: "free_slot used = None \<longleftrightarrow> (\<forall>i < length used. used ! i)"
  unfolding free_slot_def find_None_iff by auto

subsection \<open>Chains of indices\<close>

fun pchain :: "(nat \<Rightarrow> nat option) \<Rightarrow> nat option \<Rightarrow> nat list \<Rightarrow> bool" where
  "pchain nx h [] \<longleftrightarrow> h = None"
| "pchain nx h (x # xs) \<longleftrightarrow> h = Some x \<and> pchain nx (nx x) xs"

lemma pchain_cong: "(\<And>x. x \<in> set xs \<Longrightarrow> nx' x = nx x) \<Longrightarrow> pchain nx' h xs = pchain nx h xs"
  by (induction xs arbitrary: h) simp_all

lemma pchain_upd: "n \<notin> set xs \<Longrightarrow> pchain (nx(n := v)) h xs = pchain nx h xs"
  by (rule pchain_cong) auto

text \<open>Linking a fresh node behind the last node of a prefix.\<close>

lemma pchain_insert:
  assumes "pchain nx h (xs @ ys)" and "xs \<noteq> []" and "distinct (xs @ ys)" and "n \<notin> set (xs @ ys)"
  shows "nx (last xs) = (case ys of [] \<Rightarrow> None | y # _ \<Rightarrow> Some y)"
    "pchain (nx(n := nx (last xs), last xs := Some n)) h (xs @ n # ys)"
proof -
  have "nx (last xs) = (case ys of [] \<Rightarrow> None | y # _ \<Rightarrow> Some y) \<and>
      pchain (nx(n := nx (last xs), last xs := Some n)) h (xs @ n # ys)"
    using assms
  proof (induction xs arbitrary: h)
    case (Cons x xs)
    show ?case
    proof (cases "xs = []")
      case True
      have "pchain (nx(n := nx x, x := Some n)) (nx x) ys = pchain nx (nx x) ys"
        using Cons.prems True by (intro pchain_cong) auto
      moreover have "nx x = (case ys of [] \<Rightarrow> None | y # _ \<Rightarrow> Some y)"
        using Cons.prems(1) True by (cases ys) auto
      ultimately show ?thesis
        using Cons.prems True by (auto simp del: fun_upd_apply simp: fun_upd_same fun_upd_other)
    next
      case False
      then have "last xs \<noteq> x" using Cons.prems(3) by (metis distinct.simps(2) append_Cons Un_iff last_in_set set_append)
      then show ?thesis using Cons.IH [of "nx x"] Cons.prems False
        by (auto simp del: fun_upd_apply simp: fun_upd_same fun_upd_other)
    qed
  qed simp
  then show "nx (last xs) = (case ys of [] \<Rightarrow> None | y # _ \<Rightarrow> Some y)"
    "pchain (nx(n := nx (last xs), last xs := Some n)) h (xs @ n # ys)" by blast+
qed

text \<open>Linking a fresh node in front of the chain or behind the last node of a prefix.\<close>

lemma pchain_insert_at:
  assumes "pchain nx h (xs @ ys)" and "distinct (xs @ ys)" and "n \<notin> set (xs @ ys)"
    and nx': "nx' = (if xs = [] then nx(n := h) else nx(n := nx (last xs), last xs := Some n))"
  shows "pchain nx' (if xs = [] then Some n else h) (xs @ n # ys)"
proof (cases "xs = []")
  case True
  then have "pchain nx' h ys = pchain nx h ys" unfolding nx' using assms(3) by (simp add: pchain_upd)
  then show ?thesis using True assms(1) by (simp add: nx')
next
  case False
  then show ?thesis using pchain_insert(2) [OF assms(1) False assms(2,3)] by (simp add: nx')
qed

text \<open>Insertion behind the longest prefix that satisfies a predicate, and when it keeps a list
  sorted.\<close>

definition insert_at :: "('a \<Rightarrow> bool) \<Rightarrow> 'a \<Rightarrow> 'a list \<Rightarrow> 'a list" where
  "insert_at P n q = takeWhile P q @ n # dropWhile P q"

lemma sorted_insert_at:
  fixes pr :: "'a \<Rightarrow> 'k::linorder"
  assumes "sorted (map pr q)" and "\<And>x. x \<in> set q \<Longrightarrow> pr' x = pr x"
    and "\<And>x. x \<in> set q \<Longrightarrow> P x \<Longrightarrow> pr x \<le> pr' n" and "\<And>x. x \<in> set q \<Longrightarrow> \<not> P x \<Longrightarrow> pr' n \<le> pr x"
  shows "sorted (map pr' (insert_at P n q))"
proof -
  have eq: "map pr' (takeWhile P q) = map pr (takeWhile P q)" "map pr' (dropWhile P q) = map pr (dropWhile P q)"
    using assms(2) by (auto dest: set_takeWhileD set_dropWhileD)
  have "\<forall>x \<in> set (dropWhile P q). pr' n \<le> pr x"
  proof (cases "dropWhile P q")
    case (Cons y ys)
    have "y \<in> set q" using Cons by (metis list.set_intros(1) set_dropWhileD)
    then have "pr' n \<le> pr y" using hd_dropWhile [of P q] Cons assms(4) by simp
    moreover have "sorted (map pr (y # ys))"
      using assms(1) Cons by (metis map_append sorted_append takeWhile_dropWhile_id)
    ultimately show ?thesis using Cons by fastforce
  qed (simp del: dropWhile_eq_Nil_conv)
  moreover have "\<forall>x \<in> set (takeWhile P q). pr x \<le> pr' n"
    using assms(3) by (auto dest: set_takeWhileD)
  moreover have "sorted (map pr (takeWhile P q))" "sorted (map pr (dropWhile P q))"
    using assms(1) by (metis map_append sorted_append takeWhile_dropWhile_id)+
  ultimately show ?thesis
    unfolding insert_at_def by (auto simp: eq sorted_append intro: order_trans)
qed

lemma insert_at_split:
  "q = takeWhile P q @ dropWhile P q" "\<forall>x \<in> set (takeWhile P q). P x"
  "dropWhile P q = [] \<or> \<not> P (hd (dropWhile P q))"
  using hd_dropWhile [of P q] by (auto dest: set_takeWhileD)

subsection \<open>Words\<close>

lemma unat_of_nat64: "n < 2 ^ 64 \<Longrightarrow> unat (of_nat n :: u64) = n"
  by (simp add: unsigned_of_nat take_bit_nat_eq_self)

lemma of_nat_inj64: "m < 2 ^ 64 \<Longrightarrow> n < 2 ^ 64 \<Longrightarrow> (of_nat m :: u64) = of_nat n \<longleftrightarrow> m = n"
  by (metis unat_of_nat64)

lemma unat_lt64 [simp]: "unat (x :: u64) < 18446744073709551616"
  using unsigned_less [of x] by simp

lemma word_diff_less_iff:
  fixes a x :: u64
  shows "x - a < b \<longleftrightarrow> unat (x - a) < unat b"
  by (rule word_less_nat_alt)

subsection \<open>Little-endian 64-bit access to a byte memory\<close>

definition aligned8 :: "u64 \<Rightarrow> bool" where
  "aligned8 a \<longleftrightarrow> 8 dvd unat a"

definition load64 :: "bytes \<Rightarrow> u64 \<Rightarrow> u64" where
  "load64 m a =
     ucast (m a) OR push_bit 8 (ucast (m (a + 1))) OR push_bit 16 (ucast (m (a + 2)))
     OR push_bit 24 (ucast (m (a + 3))) OR push_bit 32 (ucast (m (a + 4)))
     OR push_bit 40 (ucast (m (a + 5))) OR push_bit 48 (ucast (m (a + 6)))
     OR push_bit 56 (ucast (m (a + 7)))"

definition store64 :: "u64 \<Rightarrow> u64 \<Rightarrow> bytes \<Rightarrow> bytes" where
  "store64 a v m = (\<lambda>x. if x - a < 8 then ucast (drop_bit (8 * unat (x - a)) v) else m x)"

lemma load64_cong:
  assumes "\<And>i. i < 8 \<Longrightarrow> m (a + i) = m' (a + i)"
  shows "load64 m a = load64 m' a"
  using assms [of 0] assms [of 1] assms [of 2] assms [of 3] assms [of 4] assms [of 5]
    assms [of 6] assms [of 7]
  by (simp add: load64_def)

lemma load64_store64_same [mem_simps]: "load64 (store64 a v m) a = v"
proof (rule bit_word_eqI)
  fix n :: nat
  assume "n < LENGTH(64)"
  then have n: "n div 8 < 8" by simp
  define k r where "k = n div 8" and "r = n mod 8"
  then have "n = 8 * k + r" and "r < 8" and "k < 8" using n by auto
  moreover have "k = 0 \<or> k = 1 \<or> k = 2 \<or> k = 3 \<or> k = 4 \<or> k = 5 \<or> k = 6 \<or> k = 7"
    using \<open>k < 8\<close> by linarith
  ultimately show "bit (load64 (store64 a v m) a) n = bit v n"
    by (elim disjE) (simp_all add: load64_def store64_def bit_simps)
qed

lemma aligned8_window:
  assumes "aligned8 a" and "aligned8 b" and "i < 8" and "(b + i) - a < 8"
  shows "a = b"
proof -
  have "int 8 dvd uint b - uint a"
    using assms(1,2) unfolding aligned8_def
    by (intro dvd_diff) (simp_all only: uint_nat int_dvd_int_iff)
  then have "int 8 dvd (uint b - uint a) mod 2 ^ 64"
    by (simp add: dvd_mod)
  then have "int 8 dvd uint (b - a)" by (simp add: uint_word_ariths)
  then have "8 dvd unat (b - a)" by (simp only: uint_nat int_dvd_int_iff)
  then obtain k where k: "unat (b - a) = 8 * k" by (auto elim: dvdE)
  have "8 * k + 8 \<le> 2 ^ 64" using unat_lt64 [of "b - a"] k by simp
  moreover have "unat i < 8" using assms(3) by (simp add: word_less_nat_alt)
  ultimately have "unat ((b - a) + i) = 8 * k + unat i"
    using k by (simp add: unat_word_ariths)
  moreover have "unat ((b - a) + i) < 8"
    using assms(4) by (simp add: word_less_nat_alt diff_add_eq)
  ultimately have "k = 0" by simp
  with k have "b - a = 0" by (simp add: unat_eq_zero)
  then show ?thesis by simp
qed

lemma load64_store64_other [mem_simps]:
  assumes "aligned8 a" and "aligned8 b" and "a \<noteq> b"
  shows "load64 (store64 a v m) b = load64 m b"
proof (rule load64_cong)
  fix i :: u64
  assume "i < 8"
  with assms aligned8_window [of a b i] have "\<not> (b + i) - a < 8" by blast
  then show "store64 a v m (b + i) = m (b + i)" by (simp add: store64_def)
qed

end
