(* ===== verification/Machine.thy ===== *)
theory Machine
  imports Prelude
begin

text \<open>
  The hart as the kernel sees it: the supervisor CSRs that the sources read and write,
  the thread pointer, the byte memory at kernel virtual addresses, and the two streams of
  the console: the characters put into the transmit ring and those that the receive ring
  delivers (the rings themselves are the theory Uart).

  The interrupt-enable bit is bit 1 of \<open>sstatus\<close>.  \<open>disable_and_save_sstatus\<close> and
  \<open>restore_sstatus\<close> of src/lab7/src/utils.c bracket every critical section of the kernel,
  so each operation of the model threads \<open>sstatus\<close> through them as the code does.
  Fences (\<open>sfence.vma\<close>, \<open>fence.i\<close>) change no state of the model.
\<close>

record machine =
  sstatus :: u64
  sie :: u64
  satp :: u64
  stval :: u64
  tp :: u64
  mtime :: u64
  timer_cmp :: u64
  mem :: bytes
  console :: "u8 list"
  input :: "u8 list"

definition SIE :: u64 where "SIE = push_bit 1 1"

definition irq_enable :: "'a machine_scheme \<Rightarrow> 'a machine_scheme" where
  "irq_enable s = s\<lparr>sstatus := sstatus s OR SIE\<rparr>"

definition irq_disable :: "'a machine_scheme \<Rightarrow> 'a machine_scheme" where
  "irq_disable s = s\<lparr>sstatus := sstatus s AND NOT SIE\<rparr>"

definition restore_sstatus :: "u64 \<Rightarrow> 'a machine_scheme \<Rightarrow> 'a machine_scheme" where
  "restore_sstatus v s = (if v AND SIE \<noteq> 0 then s\<lparr>sstatus := sstatus s OR SIE\<rparr> else s)"

definition disable_and_save_sstatus :: "'a machine_scheme \<Rightarrow> u64 \<times> 'a machine_scheme" where
  "disable_and_save_sstatus s = (sstatus s, s\<lparr>sstatus := sstatus s AND NOT SIE\<rparr>)"

text \<open>Text that the other components write through \<open>uart_putc\<close>, \<open>uart_puts\<close> and
  \<open>uart_printf\<close>: appended to the console stream; \<open>uart_putc\<close> puts a carriage return before
  each newline.\<close>

definition char_u8 :: "char \<Rightarrow> u8" where
  "char_u8 c = of_nat (of_char c)"

definition putc_bytes :: "u8 \<Rightarrow> u8 list" where
  "putc_bytes c = (if c = 10 then [13, c] else [c])"

definition put_bytes :: "u8 list \<Rightarrow> 'a machine_scheme \<Rightarrow> 'a machine_scheme" where
  "put_bytes bs s = s\<lparr>console := console s @ concat (map putc_bytes bs)\<rparr>"

definition put_text :: "string \<Rightarrow> 'a machine_scheme \<Rightarrow> 'a machine_scheme" where
  "put_text t s = put_bytes (map char_u8 t) s"

definition sbi_set_timer :: "u64 \<Rightarrow> 'a machine_scheme \<Rightarrow> 'a machine_scheme" where
  "sbi_set_timer t s = s\<lparr>timer_cmp := t\<rparr>"

definition get_ticks :: "'a machine_scheme \<Rightarrow> u64" where
  "get_ticks s = mtime s"

definition enable_timer_interrupt :: "'a machine_scheme \<Rightarrow> 'a machine_scheme" where
  "enable_timer_interrupt s = s\<lparr>sie := sie s OR push_bit 5 1\<rparr>"

definition disable_timer_interrupt :: "'a machine_scheme \<Rightarrow> 'a machine_scheme" where
  "disable_timer_interrupt s = s\<lparr>sie := sie s AND NOT (push_bit 5 1)\<rparr>"

definition enable_external_interrupt :: "'a machine_scheme \<Rightarrow> 'a machine_scheme" where
  "enable_external_interrupt s = s\<lparr>sie := sie s OR push_bit 9 1\<rparr>"

subsection \<open>The critical-section bracket\<close>

lemma and_push_bit_1:
  fixes x :: u64
  shows "x AND push_bit n 1 = 0 \<longleftrightarrow> \<not> (n < 64 \<and> bit x n)"
proof -
  have "bit (x AND push_bit n 1) k \<longleftrightarrow> k = n \<and> k < 64 \<and> bit x k" for k
    by (auto simp: bit_simps)
  then show ?thesis by (metis bit_eq_iff bit_0_eq bot_apply bot_bool_def)
qed

lemma save_then_restore:
  "disable_and_save_sstatus s = (v, s') \<Longrightarrow> restore_sstatus v s' = s"
proof -
  assume "disable_and_save_sstatus s = (v, s')"
  then have v: "v = sstatus s" and s': "s' = s\<lparr>sstatus := sstatus s AND NOT SIE\<rparr>"
    unfolding disable_and_save_sstatus_def by blast+
  have set: "(x AND NOT SIE) OR SIE = x" if "x AND SIE \<noteq> 0" for x
  proof (rule bit_word_eqI)
    fix n :: nat
    assume "n < LENGTH(64)"
    from that have "bit x 1" unfolding SIE_def and_push_bit_1 by simp
    then show "bit (x AND NOT SIE OR SIE) n = bit x n"
      using \<open>n < LENGTH(64)\<close> by (auto simp: SIE_def bit_simps)
  qed
  have clear: "x AND NOT SIE = x" if "x AND SIE = 0" for x
  proof (rule bit_word_eqI)
    fix n :: nat
    assume "n < LENGTH(64)"
    from that have "\<not> bit x 1" unfolding SIE_def and_push_bit_1 by simp
    then show "bit (x AND NOT SIE) n = bit x n"
      using \<open>n < LENGTH(64)\<close> by (auto simp: SIE_def bit_simps)
  qed
  show ?thesis
    using v s' set [of "sstatus s"] clear [of "sstatus s"] by (simp add: restore_sstatus_def)
qed

lemma restore_after_save [simp]:
  "restore_sstatus (sstatus s) (s\<lparr>sstatus := sstatus s AND NOT SIE\<rparr>) = s"
  using save_then_restore [of s "sstatus s"] by (simp add: disable_and_save_sstatus_def)

lemma restore_bracket:
  assumes "X = Y\<lparr>sstatus := v AND NOT SIE\<rparr>" and "sstatus Y = v"
  shows "restore_sstatus v X = Y"
  using restore_after_save [of Y] assms by simp

lemma sstatus_restore [simp]:
  "sstatus s = v AND NOT SIE \<Longrightarrow> sstatus (restore_sstatus v s) = v"
  using restore_after_save [of "s\<lparr>sstatus := v\<rparr>"] by (metis (no_types, lifting) machine.select_convs(1)
    machine.surjective machine.update_convs(1))

lemma restore_sstatus_other:
  "mem (restore_sstatus v s) = mem s" "console (restore_sstatus v s) = console s"
  "tp (restore_sstatus v s) = tp s" "satp (restore_sstatus v s) = satp s"
  "machine.more (restore_sstatus v s) = machine.more s"
  by (simp_all add: restore_sstatus_def)

end
