(* ===== verification/Utils.thy ===== *)
theory Utils
  imports Machine
begin

text \<open>
  src/lab7/src/utils.c: conversions, alignment, and the byte and string loops.

  A \<open>const char *\<close> is a reader (type \<open>cptr\<close>): the byte at each offset from the pointer.
  \<open>at m p\<close> reads the memory at an address, \<open>lit s\<close> is a string constant with its
  terminating NUL.  Loops that stop only at a NUL byte are partial functions, so that a
  string without an end is \<open>None\<close>.  On RISC-V plain \<open>char\<close> is unsigned.
\<close>

definition at :: "bytes \<Rightarrow> u64 \<Rightarrow> cptr" where
  "at m p = (\<lambda>i. m (p + of_nat i))"

definition lit :: "string \<Rightarrow> cptr" where
  "lit s = (\<lambda>i. if i < length s then char_u8 (s ! i) else 0)"

definition adv :: "nat \<Rightarrow> cptr \<Rightarrow> cptr" where
  "adv n s = (\<lambda>i. s (n + i))"

subsection \<open>The functions of utils.c\<close>

text \<open>\<open>hextoi\<close>: the loop \<open>while (n-- > 0)\<close> over the digits; \<open>int\<close> arithmetic at 32 bits.
  The test \<open>*s >= 0\<close> of the second branch always holds for an unsigned \<open>char\<close>.\<close>

fun hextoi_loop :: "cptr \<Rightarrow> nat \<Rightarrow> u32 \<Rightarrow> u32" where
  "hextoi_loop s 0 r = r"
| "hextoi_loop s (Suc n) r =
     (let r = push_bit 4 r;
          c = s 0
      in if char_u8 (CHR ''A'') \<le> c
         then hextoi_loop (adv 1 s) n (r + (ucast c - ucast (char_u8 (CHR ''A'')) + 10))
         else hextoi_loop (adv 1 s) n (r + (ucast c - ucast (char_u8 (CHR ''0'')))))"

definition hextoi :: "cptr \<Rightarrow> nat \<Rightarrow> u32" where
  "hextoi s n = hextoi_loop s n 0"

text \<open>\<open>align\<close>: \<open>byte\<close> is an \<open>int\<close>, so \<open>~(byte - 1)\<close> is sign-extended to 64 bits.\<close>

definition align :: "u64 \<Rightarrow> u32 \<Rightarrow> u64" where
  "align n byte = (n + scast byte - 1) AND scast (NOT (byte - 1))"

fun memcmp :: "cptr \<Rightarrow> cptr \<Rightarrow> nat \<Rightarrow> int" where
  "memcmp a b 0 = 0"
| "memcmp a b (Suc n) =
     (if a 0 \<noteq> b 0 then uint (a 0) - uint (b 0) else memcmp (adv 1 a) (adv 1 b) n)"

fun memzero :: "u64 \<Rightarrow> nat \<Rightarrow> bytes \<Rightarrow> bytes" where
  "memzero p 0 m = m"
| "memzero p (Suc n) m = memzero (p + 1) n (m(p := 0))"

fun memset :: "u64 \<Rightarrow> u32 \<Rightarrow> nat \<Rightarrow> bytes \<Rightarrow> bytes" where
  "memset p c 0 m = m"
| "memset p c (Suc n) m = memset (p + 1) c n (m(p := ucast c))"

fun memcpy :: "u64 \<Rightarrow> u64 \<Rightarrow> nat \<Rightarrow> bytes \<Rightarrow> bytes" where
  "memcpy d s 0 m = m"
| "memcpy d s (Suc n) m = memcpy (d + 1) (s + 1) n (m(d := m s))"

partial_function (option) strcmp_loop :: "cptr \<Rightarrow> cptr \<Rightarrow> nat \<Rightarrow> int option" where
  "strcmp_loop s1 s2 i =
     (if s1 i \<noteq> 0 \<and> s1 i = s2 i then strcmp_loop s1 s2 (Suc i)
      else Some (uint (s1 i) - uint (s2 i)))"

definition strcmp :: "cptr \<Rightarrow> cptr \<Rightarrow> int option" where
  "strcmp s1 s2 = strcmp_loop s1 s2 0"

fun strncmp :: "cptr \<Rightarrow> cptr \<Rightarrow> nat \<Rightarrow> int" where
  "strncmp s1 s2 0 = 0"
| "strncmp s1 s2 (Suc n) =
     (if s1 0 \<noteq> 0 \<and> s1 0 = s2 0 then strncmp (adv 1 s1) (adv 1 s2) n
      else uint (s1 0) - uint (s2 0))"

partial_function (option) strlen_loop :: "cptr \<Rightarrow> nat \<Rightarrow> nat option" where
  "strlen_loop s len = (if s len \<noteq> 0 then strlen_loop s (Suc len) else Some len)"

definition strlen :: "cptr \<Rightarrow> nat option" where
  "strlen s = strlen_loop s 0"

text \<open>\<open>strchr\<close>: the offset of the hit, or \<open>Some None\<close> for the NULL that the code returns.\<close>

partial_function (option) strchr_loop :: "cptr \<Rightarrow> u8 \<Rightarrow> nat \<Rightarrow> nat option option" where
  "strchr_loop s c i =
     (if s i \<noteq> 0 then (if s i = c then Some (Some i) else strchr_loop s c (Suc i))
      else Some None)"

definition strchr :: "cptr \<Rightarrow> u8 \<Rightarrow> nat option option" where
  "strchr s c = strchr_loop s c 0"

definition fdt32_to_cpu :: "cptr \<Rightarrow> u32" where
  "fdt32_to_cpu b =
     push_bit 24 (ucast (b 0)) OR push_bit 16 (ucast (b 1)) OR push_bit 8 (ucast (b 2))
     OR ucast (b 3)"

definition fdt64_to_cpu :: "cptr \<Rightarrow> u64" where
  "fdt64_to_cpu b =
     push_bit 56 (ucast (b 0)) OR push_bit 48 (ucast (b 1)) OR push_bit 40 (ucast (b 2))
     OR push_bit 32 (ucast (b 3)) OR push_bit 24 (ucast (b 4)) OR push_bit 16 (ucast (b 5))
     OR push_bit 8 (ucast (b 6)) OR ucast (b 7)"

text \<open>\<open>atoi\<close>: \<open>int\<close> arithmetic at 32 bits.\<close>

partial_function (option) atoi_loop :: "cptr \<Rightarrow> nat \<Rightarrow> u32 \<Rightarrow> u32 option" where
  "atoi_loop s i ret =
     (if s i \<noteq> 0 then atoi_loop s (Suc i) (ret * 10 + (ucast (s i) - ucast (char_u8 (CHR ''0''))))
      else Some ret)"

definition atoi :: "cptr \<Rightarrow> u32 option" where
  "atoi s = atoi_loop s 0 0"

text \<open>\<open>strncpy\<close> into a buffer of at least \<open>n\<close> bytes: the first loop copies up to the NUL,
  the second pads with NULs; the buffer is a list of bytes.\<close>

fun strncpy_loop :: "cptr \<Rightarrow> nat \<Rightarrow> nat \<Rightarrow> u8 list \<Rightarrow> u8 list" where
  "strncpy_loop src i 0 dest = dest"
| "strncpy_loop src i (Suc k) dest =
     (if src i \<noteq> 0 then strncpy_loop src (Suc i) k (dest[i := src i])
      else strncpy_loop (\<lambda>_. 0) (Suc i) k (dest[i := 0]))"

definition strncpy :: "u8 list \<Rightarrow> cptr \<Rightarrow> nat \<Rightarrow> u8 list" where
  "strncpy dest src n = strncpy_loop src 0 n dest"

subsection \<open>C strings as byte lists\<close>

text \<open>\<open>cstr s xs\<close>: the reader \<open>s\<close> holds the NUL-terminated string \<open>xs\<close>.\<close>

definition cstr :: "cptr \<Rightarrow> u8 list \<Rightarrow> bool" where
  "cstr s xs \<longleftrightarrow> (\<forall>i < length xs. s i = xs ! i) \<and> 0 \<notin> set xs \<and> s (length xs) = 0"

lemma cstrD: "cstr s xs \<Longrightarrow> i < length xs \<Longrightarrow> s i = xs ! i \<and> s i \<noteq> 0"
  by (auto simp: cstr_def in_set_conv_nth)

lemma cstr_end: "cstr s xs \<Longrightarrow> s (length xs) = 0"
  by (simp add: cstr_def)

lemma cstr_Cons_adv: "cstr s (x # xs) \<Longrightarrow> cstr (adv 1 s) xs"
  by (auto simp: cstr_def adv_def)

lemma cstr_adv: "cstr s xs \<Longrightarrow> n \<le> length xs \<Longrightarrow> cstr (adv n s) (drop n xs)"
  by (auto simp: cstr_def adv_def dest: in_set_dropD)

lemma cstr_unique: "cstr s xs \<Longrightarrow> cstr s ys \<Longrightarrow> xs = ys"
proof (rule nth_equalityI)
  assume x: "cstr s xs" and y: "cstr s ys"
  show l: "length xs = length ys"
    using cstrD [OF x, of "length ys"] cstrD [OF y, of "length xs"] cstr_end [OF x] cstr_end [OF y]
    by (meson linorder_neqE_nat)
  show "xs ! i = ys ! i" if "i < length xs" for i
    using that l cstrD [OF x, of i] cstrD [OF y, of i] by simp
qed

lemma char_u8_inj: "char_u8 a = char_u8 b \<longleftrightarrow> a = b"
proof -
  have "unat (char_u8 c) = of_char c" for c
    by (simp add: char_u8_def unsigned_of_nat take_bit_nat_eq_self)
  then show ?thesis by (metis of_char_eq_iff)
qed

lemma char_u8_eq_0: "char_u8 c = 0 \<longleftrightarrow> of_char c = (0::nat)"
proof -
  have "unat (char_u8 c) = of_char c"
    by (simp add: char_u8_def unsigned_of_nat take_bit_nat_eq_self)
  then show ?thesis by (metis unat_eq_zero)
qed

lemma cstr_lit:
  assumes "\<And>c. c \<in> set s \<Longrightarrow> of_char c \<noteq> (0::nat)"
  shows "cstr (lit s) (map char_u8 s)"
proof -
  have "0 \<notin> set (map char_u8 s)" using assms by (auto simp: char_u8_eq_0 [symmetric])
  then show ?thesis by (simp add: cstr_def lit_def)
qed

lemma uint_diff_0 [simp]: "uint a - uint b = 0 \<longleftrightarrow> a = b"
  by (auto simp: word_uint_eq_iff)

lemma uint_eq_uint [simp]: "uint a = uint b \<longleftrightarrow> a = b"
  by (simp add: word_uint_eq_iff)

lemma strlen_loop_cstr:
  "cstr s xs \<Longrightarrow> i \<le> length xs \<Longrightarrow> strlen_loop s i = Some (length xs)"
proof (induction "length xs - i" arbitrary: i)
  case 0
  then have "s i = 0" using cstr_end [of s xs] by simp
  then show ?case using 0 by (subst strlen_loop.simps) simp
next
  case (Suc k)
  then have "i < length xs" by simp
  with Suc.prems(1) have "s i \<noteq> 0" using cstrD by blast
  moreover have "strlen_loop s (Suc i) = Some (length xs)"
    using Suc by (intro Suc.hyps(1)) simp_all
  ultimately show ?case by (subst strlen_loop.simps) simp
qed

lemma strlen_cstr: "cstr s xs \<Longrightarrow> strlen s = Some (length xs)"
  by (simp add: strlen_def strlen_loop_cstr)

lemma strcmp_loop_cstr:
  assumes "cstr s xs" and "cstr t ys" and "i \<le> length xs" and "i \<le> length ys"
  shows "\<exists>r. strcmp_loop s t i = Some r \<and> (r = 0 \<longleftrightarrow> drop i xs = drop i ys)"
  using assms
proof (induction "length xs - i" arbitrary: i)
  case 0
  then have i: "i = length xs" by simp
  have t: "t i = 0 \<longleftrightarrow> i = length ys"
    using 0 cstrD [of t ys i] cstr_end [of t ys] by fastforce
  have "strcmp_loop s t i = Some (uint (s i) - uint (t i))"
    using 0 i by (subst strcmp_loop.simps) (simp add: cstr_end)
  moreover have "s i = 0" using 0 i by (simp add: cstr_end)
  moreover have "drop i xs = drop i ys \<longleftrightarrow> i = length ys" using i 0 by auto
  ultimately show ?case using t by (metis uint_diff_0)
next
  case (Suc k)
  then have i: "i < length xs" by simp
  have si: "s i = xs ! i" "s i \<noteq> 0" using cstrD [OF Suc.prems(1) i] by auto
  show ?case
  proof (cases "s i = t i")
    case True
    then have "i < length ys"
      using si Suc.prems cstr_end [of t ys] by (metis le_neq_implies_less)
    moreover have "t i = ys ! i" using cstrD Suc.prems(2) calculation by blast
    moreover have "\<exists>r. strcmp_loop s t (Suc i) = Some r \<and>
        (r = 0 \<longleftrightarrow> drop (Suc i) xs = drop (Suc i) ys)"
      using Suc calculation by (intro Suc.hyps(1)) simp_all
    ultimately show ?thesis
      using True si i by (auto simp: strcmp_loop.simps [of s t i] Cons_nth_drop_Suc [symmetric])
  next
    case False
    have "drop i xs \<noteq> drop i ys"
    proof
      assume eq: "drop i xs = drop i ys"
      then have "i < length ys" using i Suc.prems(4)
        by (metis drop_eq_Nil le_neq_implies_less not_le order_refl)
      with eq i have "xs ! i = ys ! i" by (metis Cons_nth_drop_Suc list.inject)
      then show False using False si cstrD [OF Suc.prems(2) \<open>i < length ys\<close>] by simp
    qed
    with False show ?thesis by (auto simp: strcmp_loop.simps [of s t i])
  qed
qed

lemma strcmp_cstr:
  assumes "cstr s xs" and "cstr t ys"
  shows "\<exists>r. strcmp s t = Some r \<and> (r = 0 \<longleftrightarrow> xs = ys)"
  using strcmp_loop_cstr [OF assms, of 0] by (simp add: strcmp_def)

lemma strcmp_eq_0: "cstr s xs \<Longrightarrow> cstr t ys \<Longrightarrow> strcmp s t = Some 0 \<longleftrightarrow> xs = ys"
  using strcmp_cstr by fastforce

lemma strchr_loop_cstr:
  "cstr s xs \<Longrightarrow> c \<noteq> 0 \<Longrightarrow> i \<le> length xs \<Longrightarrow>
   strchr_loop s c i = Some (if c \<in> set (drop i xs)
     then Some (i + length (takeWhile (\<lambda>x. x \<noteq> c) (drop i xs))) else None)"
proof (induction "length xs - i" arbitrary: i)
  case 0
  then have "s i = 0" using cstr_end [of s xs] by simp
  then show ?case using 0 by (subst strchr_loop.simps) simp
next
  case (Suc k)
  then have i: "i < length xs" by simp
  then have "s i = xs ! i" "s i \<noteq> 0" using cstrD [OF Suc.prems(1) i] by auto
  moreover have "strchr_loop s c (Suc i) = Some (if c \<in> set (drop (Suc i) xs)
      then Some (Suc i + length (takeWhile (\<lambda>x. x \<noteq> c) (drop (Suc i) xs))) else None)"
    using Suc by (intro Suc.hyps(1)) simp_all
  ultimately show ?case
    using Cons_nth_drop_Suc [OF i, symmetric] by (subst strchr_loop.simps) simp
qed

lemma strchr_cstr:
  "cstr s xs \<Longrightarrow> c \<noteq> 0 \<Longrightarrow>
   strchr s c = Some (if c \<in> set xs then Some (length (takeWhile (\<lambda>x. x \<noteq> c) xs)) else None)"
  by (simp add: strchr_def strchr_loop_cstr)

lemma memcmp_eq_0: "memcmp a b n = 0 \<longleftrightarrow> (\<forall>i < n. a i = b i)"
proof (induction n arbitrary: a b)
  case (Suc n)
  have "(\<forall>i < Suc n. a i = b i) \<longleftrightarrow> a 0 = b 0 \<and> (\<forall>i < n. adv 1 a i = adv 1 b i)"
    by (auto simp: adv_def less_Suc_eq_0_disj)
  with Suc show ?case by (auto simp:)
qed simp

lemma strncmp_cstr_right:
  "cstr b ys \<Longrightarrow> n \<le> length ys \<Longrightarrow> strncmp a b n = 0 \<longleftrightarrow> (\<forall>i < n. a i = ys ! i)"
proof (induction n arbitrary: a b ys)
  case (Suc n)
  then obtain y ys' where ys: "ys = y # ys'" by (cases ys) auto
  have b0: "b 0 = y" "y \<noteq> 0" using cstrD [OF Suc.prems(1), of 0] ys by auto
  have "strncmp (adv 1 a) (adv 1 b) n = 0 \<longleftrightarrow> (\<forall>i < n. adv 1 a i = ys' ! i)"
    using Suc.prems ys by (intro Suc.IH cstr_Cons_adv [of b y]) auto
  then show ?case using b0 ys by (auto simp: less_Suc_eq_0_disj adv_def)
qed simp

subsection \<open>Memory loops as range updates\<close>

lemma range_step:
  fixes x p :: u64
  assumes "n < 2 ^ 64"
  shows "unat (x - p) < Suc n \<longleftrightarrow> x = p \<or> unat (x - (p + 1)) < n \<and> x \<noteq> p"
proof (cases "x = p")
  case False
  then have "x - p \<noteq> 0" by simp
  then have "unat (x - p - 1) = unat (x - p) - 1"
    by (metis unat_minus_one)
  moreover have "0 < unat (x - p)" using \<open>x - p \<noteq> 0\<close> by (simp add: unat_gt_0)
  ultimately show ?thesis using False by (auto simp: diff_diff_add)
qed simp

lemma memzero_eq:
  "n \<le> 2 ^ 64 \<Longrightarrow> memzero p n m = (\<lambda>x. if unat (x - p) < n then 0 else m x)"
proof (induction n arbitrary: p m)
  case (Suc n)
  then show ?case by (auto simp: range_step fun_eq_iff)
qed simp

lemma memset_eq:
  "n \<le> 2 ^ 64 \<Longrightarrow> memset p c n m = (\<lambda>x. if unat (x - p) < n then ucast c else m x)"
proof (induction n arbitrary: p m)
  case (Suc n)
  then show ?case by (auto simp: range_step fun_eq_iff)
qed simp

lemma memcpy_outside:
  "n \<le> 2 ^ 64 \<Longrightarrow> \<not> unat (x - d) < n \<Longrightarrow> memcpy d s n m x = m x"
proof (induction n arbitrary: d s m)
  case (Suc n)
  then have "x \<noteq> d" "\<not> unat (x - (d + 1)) < n" by (auto simp: range_step)
  with Suc show ?case by simp
qed simp

lemma memcpy_eq:
  "n \<le> 2 ^ 64 \<Longrightarrow> (\<And>i j. i < n \<Longrightarrow> j < n \<Longrightarrow> d + of_nat i \<noteq> s + of_nat j) \<Longrightarrow>
   memcpy d s n m = (\<lambda>x. if unat (x - d) < n then m (s + (x - d)) else m x)"
proof (induction n arbitrary: d s m)
  case (Suc n)
  have disj: "d + 1 + of_nat i \<noteq> s + 1 + of_nat j" if "i < n" "j < n" for i j
    using Suc.prems(2) [of "Suc i" "Suc j"] that by (simp add: algebra_simps)
  have keep: "d \<noteq> s + 1 + of_nat j" if "j < n" for j
    using Suc.prems(2) [of 0 "Suc j"] that by (simp add: algebra_simps)
  have IH: "memcpy (d + 1) (s + 1) n (m(d := m s)) =
      (\<lambda>x. if unat (x - (d + 1)) < n then (m(d := m s)) (s + 1 + (x - (d + 1)))
           else (m(d := m s)) x)"
    using Suc.prems disj by (intro Suc.IH) auto
  have in_src: "s + 1 + (x - (d + 1)) \<noteq> d" if "unat (x - (d + 1)) < n" for x
    using keep [OF that] by (simp add: algebra_simps)
  have "memcpy d s (Suc n) m x = (if unat (x - d) < Suc n then m (s + (x - d)) else m x)" for x
  proof -
    have r: "unat (x - d) < Suc n \<longleftrightarrow> x = d \<or> unat (x - (d + 1)) < n \<and> x \<noteq> d"
      using Suc.prems(1) by (intro range_step) simp
    have a: "s + 1 + (x - (d + 1)) = s + (x - d)" by simp
    show ?thesis
      using in_src [of x] unfolding memcpy.simps IH r a by auto
  qed
  then show ?case by blast
qed simp

subsection \<open>Numbers in archives and device trees\<close>

text \<open>Upper-case hexadecimal digits, as the newc format writes them.\<close>

definition hex_digit :: "nat \<Rightarrow> u8" where
  "hex_digit d = (if d < 10 then of_nat (48 + d) else of_nat (55 + d))"

definition hex8 :: "u32 \<Rightarrow> u8 list" where
  "hex8 v = map (\<lambda>i. hex_digit (unat (drop_bit (4 * (7 - i)) v) mod 16)) [0..<8]"

lemma hextoi_digit:
  assumes "d < 16" and "s 0 = hex_digit d"
  shows "hextoi_loop s (Suc n) r = hextoi_loop (adv 1 s) n (16 * r + of_nat d)"
proof -
  have "d = 0 \<or> d = 1 \<or> d = 2 \<or> d = 3 \<or> d = 4 \<or> d = 5 \<or> d = 6 \<or> d = 7 \<or> d = 8 \<or> d = 9 \<or>
      d = 10 \<or> d = 11 \<or> d = 12 \<or> d = 13 \<or> d = 14 \<or> d = 15"
    using assms(1) by (auto simp: numeral_eq_Suc less_Suc_eq)
  then show ?thesis
    by (elim disjE)
      (simp_all add: assms(2) hex_digit_def char_u8_def push_bit_eq_mult mult.commute)
qed

lemma hextoi_loop_digits:
  "(\<And>i. i < length ds \<Longrightarrow> s i = hex_digit (ds ! i) \<and> ds ! i < 16) \<Longrightarrow>
   hextoi_loop s (length ds) r = foldl (\<lambda>r d. 16 * r + of_nat d) r ds"
proof (induction ds arbitrary: s r)
  case (Cons d ds)
  have "hextoi_loop s (length (d # ds)) r = hextoi_loop (adv 1 s) (length ds) (16 * r + of_nat d)"
    using Cons.prems [of 0] hextoi_digit by simp
  also have "\<dots> = foldl (\<lambda>r d. 16 * r + of_nat d) (16 * r + of_nat d) ds"
    using Cons.prems [of "Suc i" for i] by (intro Cons.IH) (simp add: adv_def)
  finally show ?case by simp
qed simp

lemma hex8_value:
  fixes v :: u32
  shows "foldl (\<lambda>r d. 16 * r + of_nat d) 0
    (map (\<lambda>i. unat (drop_bit (4 * (7 - i)) v) mod 16) [0..<8]) = v"
proof -
  have d: "of_nat (unat (drop_bit k v) mod 16) = (drop_bit k v) AND 15" for k
  proof -
    have "(drop_bit k v) AND 15 = take_bit 4 (drop_bit k v)"
      by (simp add: take_bit_eq_mask mask_eq_exp_minus_1)
    also have "\<dots> = of_nat (take_bit 4 (unat (drop_bit k v)))"
      by (simp add: of_nat_take_bit)
    finally show ?thesis by (simp add: take_bit_eq_mod)
  qed
  have step: "16 * (drop_bit (k + 4) v) + (drop_bit k v AND 15) = drop_bit k v" for k
  proof -
    have "16 * drop_bit (k + 4) v = push_bit 4 (drop_bit 4 (drop_bit k v))"
      by (simp add: push_bit_eq_mult drop_bit_drop_bit ac_simps)
    moreover have "drop_bit k v AND 15 = take_bit 4 (drop_bit k v)"
      by (simp add: take_bit_eq_mask mask_eq_exp_minus_1)
    ultimately show ?thesis by (simp only: bits_ident)
  qed
  have top: "drop_bit 28 v AND 15 = drop_bit 28 v"
  proof -
    have "drop_bit 28 v AND 15 = take_bit 4 (drop_bit 28 v)"
      by (simp add: take_bit_eq_mask mask_eq_exp_minus_1)
    also have "\<dots> = drop_bit 28 v"
      by (rule bit_word_eqI) (auto simp: bit_simps dest: bit_imp_le_length)
    finally show ?thesis .
  qed
  show ?thesis
    using step [of 24] step [of 20] step [of 16] step [of 12] step [of 8] step [of 4] step [of 0]
    by (simp add: upt_rec d d [of 0, simplified] top)
qed

lemma hextoi_hex8:
  assumes "\<And>i. i < 8 \<Longrightarrow> s i = hex8 v ! i"
  shows "hextoi s 8 = v"
proof -
  let ?ds = "map (\<lambda>i. unat (drop_bit (4 * (7 - i)) v) mod 16) [0..<8]"
  have "hextoi_loop s (length ?ds) 0 = foldl (\<lambda>r d. 16 * r + of_nat d) 0 ?ds"
    using assms by (intro hextoi_loop_digits) (simp add: hex8_def)
  then show ?thesis by (simp add: hextoi_def hex8_value del: upt_rec_numeral)
qed

lemma fdt32_to_cpu_be:
  fixes v :: u32
  assumes "b 0 = ucast (drop_bit 24 v)" "b 1 = ucast (drop_bit 16 v)"
    and "b 2 = ucast (drop_bit 8 v)" "b 3 = ucast v"
  shows "fdt32_to_cpu b = v"
proof (rule bit_word_eqI)
  fix n :: nat
  assume "n < LENGTH(32)"
  define k r where "k = n div 8" and "r = n mod 8"
  then have "n = 8 * k + r" and "r < 8" and "k < 4" using \<open>n < LENGTH(32)\<close> by auto
  moreover have "k = 0 \<or> k = 1 \<or> k = 2 \<or> k = 3" using \<open>k < 4\<close> by linarith
  ultimately show "bit (fdt32_to_cpu b) n = bit v n"
    by (elim disjE)
      (simp_all add: fdt32_to_cpu_def assms assms(2) [unfolded One_nat_def] bit_simps)
qed

subsection \<open>Alignment\<close>

lemma and_not_mask: "x AND NOT (mask k) = push_bit k (drop_bit k (x :: 'a::len word))"
  by (rule bit_word_eqI) (auto simp: bit_simps)

lemma unat_and_not_mask:
  fixes x :: "'a::len word"
  shows "unat (x AND NOT (mask k)) = unat x div 2 ^ k * 2 ^ k"
proof -
  have "unat x div 2 ^ k * 2 ^ k < 2 ^ LENGTH('a)"
    by (rule le_less_trans [OF div_times_less_eq_dividend]) (rule unsigned_less)
  moreover have "unat (push_bit k (drop_bit k x)) = take_bit LENGTH('a) (unat x div 2 ^ k * 2 ^ k)"
    unfolding unsigned_push_bit_eq unsigned_drop_bit_eq
    by (simp add: push_bit_eq_mult drop_bit_eq_div take_bit_nat_eq_self)
  ultimately show ?thesis unfolding and_not_mask by (simp add: take_bit_nat_eq_self)
qed

lemma align_eq:
  assumes "k < 31"
  shows "align n (2 ^ k) = (n + 2 ^ k - 1) AND NOT (mask k)"
proof -
  have "(scast (2 ^ k :: u32) :: u64) = 2 ^ k"
    using assms by (intro bit_word_eqI) (auto simp: bit_simps)
  moreover have "(scast (NOT (2 ^ k - 1 :: u32)) :: u64) = NOT (mask k)"
    using assms by (intro bit_word_eqI) (auto simp: bit_simps mask_eq_exp_minus_1 [symmetric])
  ultimately show ?thesis by (simp add: align_def)
qed

lemma align_pow2:
  assumes "k < 31" and "unat n + 2 ^ k \<le> 2 ^ 64"
  shows "unat (align n (2 ^ k)) = (unat n + 2 ^ k - 1) div 2 ^ k * 2 ^ k"
proof -
  have "(2::nat) ^ k < 2 ^ 64" using assms(1) by (intro power_strict_increasing) auto
  then have p: "unat (2 ^ k :: u64) = 2 ^ k"
    using unat_of_nat64 [of "2 ^ k"] by (simp only: of_nat_power of_nat_numeral)
  have "unat (n + (2 ^ k - 1)) = unat n + (2 ^ k - 1)"
  proof -
    have "(2 ^ k - 1 :: u64) = of_nat (2 ^ k - 1)" by (simp add: of_nat_diff)
    moreover have "(2::nat) ^ k - 1 < 2 ^ 64" using \<open>(2::nat) ^ k < 2 ^ 64\<close> by simp
    ultimately have u: "unat (2 ^ k - 1 :: u64) = 2 ^ k - 1" by (simp only: unat_of_nat64)
    have "unat n + (2 ^ k - 1) < 2 ^ 64" using assms(2) by (simp add: Suc_le_eq [symmetric])
    then show ?thesis by (simp only: unat_word_ariths u len_num1 len_bit0) simp
  qed
  then have "unat (n + 2 ^ k - 1) = unat n + 2 ^ k - 1"
    by (simp add: add_diff_eq)
  then show ?thesis using assms(1) by (simp add: align_eq unat_and_not_mask)
qed

lemma align4: "unat n + 4 \<le> 2 ^ 64 \<Longrightarrow> unat (align n 4) = (unat n + 3) div 4 * 4"
  using align_pow2 [of 2 n] by simp

lemma align_page: "unat n + 4096 \<le> 2 ^ 64 \<Longrightarrow>
    unat (align n 4096) = (unat n + 4095) div 4096 * 4096"
  using align_pow2 [of 12 n] by simp


subsection \<open>Bytes at an address\<close>

definition holds :: "bytes \<Rightarrow> u64 \<Rightarrow> u8 list \<Rightarrow> bool" where
  "holds m p bs \<longleftrightarrow> (\<forall>i < length bs. m (p + of_nat i) = bs ! i)"

lemma holds_append: "holds m p (xs @ ys) \<longleftrightarrow> holds m p xs \<and> holds m (p + of_nat (length xs)) ys"
proof (intro iffI conjI)
  assume h: "holds m p (xs @ ys)"
  have e: "m (p + of_nat i) = (xs @ ys) ! i" if "i < length xs + length ys" for i
    using h that by (simp add: holds_def)
  show "holds m p xs" unfolding holds_def using e by (simp add: nth_append)
  show "holds m (p + of_nat (length xs)) ys" unfolding holds_def
  proof (intro allI impI)
    fix i assume "i < length ys"
    then show "m (p + of_nat (length xs) + of_nat i) = ys ! i"
      using e [of "length xs + i"] by (simp add: add.assoc)
  qed
next
  assume "holds m p xs \<and> holds m (p + of_nat (length xs)) ys"
  then have x: "\<And>i. i < length xs \<Longrightarrow> m (p + of_nat i) = xs ! i"
    and y: "\<And>i. i < length ys \<Longrightarrow> m (p + of_nat (length xs) + of_nat i) = ys ! i"
    by (auto simp: holds_def)
  show "holds m p (xs @ ys)" unfolding holds_def
  proof (intro allI impI)
    fix i assume i: "i < length (xs @ ys)"
    show "m (p + of_nat i) = (xs @ ys) ! i"
    proof (cases "i < length xs")
      case False
      then have "m (p + of_nat (length xs) + of_nat (i - length xs)) = ys ! (i - length xs)"
        using y [of "i - length xs"] i by simp
      moreover have "p + of_nat (length xs) + of_nat (i - length xs) = p + of_nat i"
        using False by (simp add: of_nat_diff)
      ultimately show ?thesis using False by (simp add: nth_append)
    qed (simp add: x nth_append)
  qed
qed

lemma cstr_holds: "holds m p (xs @ [0]) \<Longrightarrow> 0 \<notin> set xs \<Longrightarrow> cstr (at m p) xs"
  by (auto simp: holds_append holds_def cstr_def at_def nth_append)

text \<open>A memory that holds the given bytes from address 0 on, and string constants as bytes.\<close>

definition mem_of :: "u8 list \<Rightarrow> bytes" where
  "mem_of bs = (\<lambda>a. if unat a < length bs then bs ! unat a else 0)"

lemma mem_of_holds:
  assumes "bs = pre @ xs @ post" and "length bs < 2 ^ 64"
  shows "holds (mem_of bs) (of_nat (length pre)) xs"
  unfolding holds_def
proof (intro allI impI)
  fix i assume i: "i < length xs"
  have "unat (of_nat (length pre) + of_nat i :: u64) = length pre + i"
    using assms i unat_of_nat64 [of "length pre + i"] by simp
  then show "mem_of bs (of_nat (length pre) + of_nat i) = xs ! i"
    using assms(1) i by (simp add: mem_of_def nth_append)
qed

definition str8 :: "string \<Rightarrow> u8 list" where
  "str8 s = map char_u8 s"

lemma char_u8_nz: "char_u8 c = 0 \<longleftrightarrow> c = CHR 0x00"
proof -
  have "char_u8 (CHR 0x00) = 0" by (simp add: char_u8_def)
  then show ?thesis using char_u8_inj [of c "CHR 0x00"] by simp
qed

lemma lit_str8: "CHR 0x00 \<notin> set s \<Longrightarrow> cstr (lit s) (str8 s)"
  using cstr_lit [of s] char_u8_eq_0 char_u8_nz unfolding str8_def by metis

lemma str8_nz: "0 \<in> set (str8 s) \<longleftrightarrow> CHR 0x00 \<in> set s"
  by (force simp: str8_def char_u8_nz image_iff)

subsection \<open>Properties\<close>

text \<open>C23: \<open>strcmp\<close> of two NUL-terminated strings returns, and it is 0 exactly for equal
  strings; \<open>strlen\<close> is the length.\<close>

theorem strcmp_correct:
  assumes "cstr s xs" and "cstr t ys"
  shows "\<exists>r. strcmp s t = Some r \<and> (r = 0 \<longleftrightarrow> xs = ys) \<and> strlen s = Some (length xs)"
  using strcmp_cstr [OF assms] strlen_cstr [OF assms(1)] by auto

lemma strcmp_correct_witness:
  "\<exists>r. strcmp (lit ''ab'') (lit ''ac'') = Some r \<and> r \<noteq> 0"
proof -
  have "cstr (lit ''ab'') (map char_u8 ''ab'')" "cstr (lit ''ac'') (map char_u8 ''ac'')"
    by (rule cstr_lit; auto)+
  then show ?thesis using strcmp_correct [of "lit ''ab''" _ "lit ''ac''"] by (fastforce simp: char_u8_inj)
qed

text \<open>\<open>memcpy\<close> between ranges that do not overlap copies the n bytes in order and writes
  nothing else.\<close>

theorem memcpy_correct:
  assumes "n \<le> 2 ^ 64" and "\<And>i j. i < n \<Longrightarrow> j < n \<Longrightarrow> d + of_nat i \<noteq> s + of_nat j"
  shows "memcpy d s n m = (\<lambda>x. if unat (x - d) < n then m (s + (x - d)) else m x)"
  by (rule memcpy_eq [OF assms])

lemma memcpy_correct_witness:
  "memcpy 0 16 2 (\<lambda>a. ucast a) = (\<lambda>x. if unat (x - 0) < 2 then ucast (16 + (x - 0)) else ucast x)"
  by (rule memcpy_correct) (auto simp: less_2_cases_iff)

text \<open>C24: The hexadecimal fields of a newc header round-trip: \<open>hextoi\<close> of the eight digits of
  a 32-bit number is the number.\<close>

theorem hextoi_roundtrip:
  assumes "\<And>i. i < 8 \<Longrightarrow> s i = hex8 v ! i"
  shows "hextoi s 8 = v"
  by (rule hextoi_hex8 [OF assms])

lemma hextoi_roundtrip_witness: "hextoi (\<lambda>i. hex8 4660 ! i) 8 = 4660"
  by (rule hextoi_roundtrip) simp

end
