(* ===== verification/Linked_List.thy ===== *)
theory Linked_List
  imports Prelude
begin

text \<open>
  src/lab7/inc/list.h: the circular doubly linked list that is embedded in \<open>struct frame\<close>
  and in free chunks.  The model keeps the two pointer fields of every \<open>struct list_head\<close>
  as functions of its address and performs the assignments of the source in their order.

  The lemmas relate the pointer structure to a HOL list (\<open>dlist\<close>): insertion at either
  end, deletion and the emptiness test are the list operations, and a ring disjoint from
  the nodes that an operation touches is unchanged.  The interface that the allocators
  rely on is the locale \<open>intrusive_list\<close>; the theories Buddy and Slab keep each free list
  as the HOL list it represents.
\<close>

record links =
  lnext :: "u64 \<Rightarrow> u64"
  lprev :: "u64 \<Rightarrow> u64"

definition list_init :: "u64 \<Rightarrow> links \<Rightarrow> links" where
  "list_init list l = l\<lparr>lnext := (lnext l)(list := list), lprev := (lprev l)(list := list)\<rparr>"

definition list_add_between :: "u64 \<Rightarrow> u64 \<Rightarrow> u64 \<Rightarrow> links \<Rightarrow> links" where
  "list_add_between new_node prv nxt l =
     (let l1 = l\<lparr>lprev := (lprev l)(nxt := new_node)\<rparr>;
          l2 = l1\<lparr>lnext := (lnext l1)(new_node := nxt)\<rparr>;
          l3 = l2\<lparr>lprev := (lprev l2)(new_node := prv)\<rparr>
      in l3\<lparr>lnext := (lnext l3)(prv := new_node)\<rparr>)"

definition list_add :: "u64 \<Rightarrow> u64 \<Rightarrow> links \<Rightarrow> links" where
  "list_add new_node head l = list_add_between new_node head (lnext l head) l"

definition list_add_tail :: "u64 \<Rightarrow> u64 \<Rightarrow> links \<Rightarrow> links" where
  "list_add_tail new_node head l = list_add_between new_node (lprev l head) head l"

definition list_del :: "u64 \<Rightarrow> links \<Rightarrow> links" where
  "list_del entry l =
     (let l1 = l\<lparr>lprev := (lprev l)(lnext l entry := lprev l entry)\<rparr>;
          l2 = l1\<lparr>lnext := (lnext l1)(lprev l1 entry := lnext l1 entry)\<rparr>;
          l3 = l2\<lparr>lnext := (lnext l2)(entry := 0)\<rparr>
      in l3\<lparr>lprev := (lprev l3)(entry := 0)\<rparr>)"

definition list_empty :: "u64 \<Rightarrow> links \<Rightarrow> bool" where
  "list_empty head l \<longleftrightarrow> lnext l head = head"

text \<open>\<open>container_of\<close>: from the embedded node back to the structure around it.\<close>

definition container_of :: "u64 \<Rightarrow> u64 \<Rightarrow> u64" where
  "container_of ptr offset = ptr - offset"

subsection \<open>The represented list\<close>

fun chain :: "links \<Rightarrow> u64 \<Rightarrow> u64 list \<Rightarrow> u64 \<Rightarrow> bool" where
  "chain l a [] b \<longleftrightarrow> lnext l a = b \<and> lprev l b = a"
| "chain l a (x # xs) b \<longleftrightarrow> lnext l a = x \<and> lprev l x = a \<and> chain l x xs b"

definition dlist :: "links \<Rightarrow> u64 \<Rightarrow> u64 list \<Rightarrow> bool" where
  "dlist l h xs \<longleftrightarrow> distinct (h # xs) \<and> chain l h xs h"

lemma chain_append: "chain l a (xs @ y # ys) b \<longleftrightarrow> chain l a xs y \<and> chain l y ys b"
  by (induction xs arbitrary: a) auto

lemma chain_first: "chain l a xs b \<Longrightarrow> lnext l a = hd (xs @ [b])"
  by (cases xs) auto

lemma chain_last: "chain l a xs b \<Longrightarrow> lprev l b = last (a # xs)"
  by (induction xs arbitrary: a) auto

lemma chain_frame:
  "chain l a xs b \<Longrightarrow> (\<And>x. x \<in> insert a (set xs) \<Longrightarrow> lnext l' x = lnext l x) \<Longrightarrow>
   (\<And>x. x \<in> insert b (set xs) \<Longrightarrow> lprev l' x = lprev l x) \<Longrightarrow> chain l' a xs b"
  by (induction xs arbitrary: a) auto

lemma dlist_init: "dlist (list_init h l) h []"
  by (simp add: dlist_def list_init_def)

lemma dlist_empty: "dlist l h xs \<Longrightarrow> list_empty h l \<longleftrightarrow> xs = []"
  by (cases xs) (auto simp: dlist_def list_empty_def)

lemma dlist_next: "dlist l h (x # xs) \<Longrightarrow> lnext l h = x"
  by (simp add: dlist_def)

lemma list_add_between_sel [simp]:
  "lnext (list_add_between n p q l) = (lnext l)(n := q, p := n)"
  "lprev (list_add_between n p q l) = (lprev l)(q := n, n := p)"
  by (simp_all add: list_add_between_def Let_def)

lemma chain_insert:
  assumes "chain l a (xs @ ys) b" and "distinct (xs @ ys)" and "a \<notin> set (xs @ ys)"
    and "b \<notin> set (xs @ ys)" and "n \<notin> set (xs @ ys)" and "n \<noteq> a" and "n \<noteq> b"
    and "p = last (a # xs)" and "q = hd (ys @ [b])"
  shows "chain (list_add_between n p q l) a (xs @ n # ys) b"
proof -
  let ?l = "list_add_between n p q l"
  have p: "p = a \<and> xs = [] \<or> (\<exists>xs'. xs = xs' @ [p])"
    using assms(8) by (cases xs rule: rev_cases) auto
  have q: "q = b \<and> ys = [] \<or> (\<exists>ys'. ys = q # ys')"
    using assms(9) by (cases ys) auto
  have q': "q \<notin> set xs" using assms by (cases ys) auto
  have p': "p \<notin> set ys" using assms by (cases xs rule: rev_cases) auto
  show ?thesis
  proof -
    have "chain ?l a xs n"
    proof (cases xs rule: rev_cases)
      case Nil
      then show ?thesis using p assms(6) by auto
    next
      case (snoc xs' z)
      then have "p = z" using p by auto
      have "chain l a xs' z" using assms(1) snoc by (simp add: chain_append)
      then have "chain ?l a xs' z"
        by (rule chain_frame) (use assms(2-7) snoc \<open>p = z\<close> q' in auto)
      then show ?thesis using snoc \<open>p = z\<close> assms(5) by (simp add: chain_append)
    qed
    moreover have "chain ?l n ys b"
    proof (cases ys)
      case Nil
      then show ?thesis using q p assms by auto
    next
      case (Cons z ys')
      then have "q = z" using q by auto
      have "chain l z ys' b" using assms(1) Cons by (simp add: chain_append)
      then have "chain ?l z ys' b"
        by (rule chain_frame) (use assms(2-7) Cons \<open>q = z\<close> p' in auto)
      then show ?thesis using Cons \<open>q = z\<close> assms p by auto
    qed
    ultimately show ?thesis by (simp add: chain_append)
  qed
qed

lemma dlist_add:
  assumes "dlist l h xs" and "n \<notin> set (h # xs)"
  shows "dlist (list_add n h l) h (n # xs)"
  using assms chain_insert [of l h "[]" xs h n h "lnext l h"] chain_first [of l h xs h]
  by (auto simp: dlist_def list_add_def)

lemma dlist_add_tail:
  assumes "dlist l h xs" and "n \<notin> set (h # xs)"
  shows "dlist (list_add_tail n h l) h (xs @ [n])"
  using assms chain_insert [of l h xs "[]" h n "lprev l h" h] chain_last [of l h xs h]
  by (auto simp: dlist_def list_add_tail_def)

lemma dlist_del:
  assumes "dlist l h (xs @ n # ys)"
  shows "dlist (list_del n l) h (xs @ ys)"
proof -
  from assms have c: "chain l h xs n" "chain l n ys h" and d: "distinct (h # xs @ n # ys)"
    by (simp_all add: dlist_def chain_append)
  let ?p = "last (h # xs)" and ?q = "hd (ys @ [h])" and ?l = "list_del n l"
  have p: "lprev l n = ?p" using chain_last [OF c(1)] .
  have q: "lnext l n = ?q" using chain_first [OF c(2)] .
  have pn: "?p \<noteq> n" using d by (cases xs rule: rev_cases) auto
  have qn: "?q \<noteq> n" using d by (cases ys) auto
  have nxt: "lnext ?l = (lnext l)(?p := ?q, n := 0)" and prv: "lprev ?l = (lprev l)(?q := ?p, n := 0)"
    using p q pn qn by (simp_all add: list_del_def Let_def)
  show ?thesis
  proof (cases ys)
    case Nil
    then have q: "?q = h" by simp
    show ?thesis
    proof (cases xs rule: rev_cases)
      case Nil
      then show ?thesis using d q \<open>ys = []\<close> by (simp add: dlist_def nxt prv)
    next
      case (snoc xs' z)
      then have "chain l h xs' z" using c(1) by (simp add: chain_append)
      then have "chain ?l h xs' z"
        by (rule chain_frame) (use d snoc q in \<open>auto simp: nxt prv\<close>)
      then show ?thesis using d snoc q Nil by (auto simp: dlist_def chain_append nxt prv)
    qed
  next
    case (Cons z ys')
    then have q: "?q = z" by simp
    have "chain l z ys' h" using c(2) Cons by simp
    then have z: "chain ?l z ys' h"
      by (rule chain_frame) (use d Cons q in \<open>cases xs rule: rev_cases; auto simp: nxt prv\<close>)+
    have "chain ?l h xs z"
    proof (cases xs rule: rev_cases)
      case Nil
      then show ?thesis using d q Cons by (auto simp: nxt prv)
    next
      case (snoc xs' w)
      then have "chain l h xs' w" using c(1) by (simp add: chain_append)
      then have "chain ?l h xs' w"
        by (rule chain_frame) (use d snoc q Cons in \<open>auto simp: nxt prv\<close>)
      then show ?thesis using d snoc q Cons by (auto simp: chain_append nxt prv)
    qed
    then show ?thesis using z d Cons by (simp add: dlist_def chain_append)
  qed
qed

text \<open>A ring that shares no node with the operation keeps its contents.\<close>

lemma dlist_frame:
  assumes "dlist l g zs" and "\<And>x. x \<in> set (g # zs) \<Longrightarrow> lnext l' x = lnext l x \<and> lprev l' x = lprev l x"
  shows "dlist l' g zs"
  using assms chain_frame [of l g zs g l'] by (auto simp: dlist_def)

lemma dlist_add_other:
  assumes "dlist l h xs" and "dlist l g zs" and "set (h # xs) \<inter> set (g # zs) = {}"
    and "n \<notin> set (g # zs)"
  shows "dlist (list_add n h l) g zs"
proof (rule dlist_frame [OF assms(2)])
  fix x assume "x \<in> set (g # zs)"
  moreover have "lnext l h \<in> set (h # xs)"
    using assms(1) chain_first [of l h xs h] by (cases xs) (auto simp: dlist_def)
  ultimately have "x \<noteq> n" "x \<noteq> h" "x \<noteq> lnext l h" using assms(3,4) by auto
  then show "lnext (list_add n h l) x = lnext l x \<and> lprev (list_add n h l) x = lprev l x"
    by (simp add: list_add_def list_add_between_def Let_def)
qed

subsection \<open>The interface used by the allocators\<close>

text \<open>
  \<open>abs s xs\<close>: the structure \<open>s\<close> represents the list \<open>xs\<close>; \<open>elem\<close> restricts the nodes that
  may be inserted.  The client lemmas below are the two idioms of memory.c: taking the
  first node of a non-empty list, and appending a run of nodes.
\<close>

locale intrusive_list =
  fixes add :: "'n \<Rightarrow> 's \<Rightarrow> 's"
    and add_tail :: "'n \<Rightarrow> 's \<Rightarrow> 's"
    and del :: "'n \<Rightarrow> 's \<Rightarrow> 's"
    and first :: "'s \<Rightarrow> 'n"
    and is_empty :: "'s \<Rightarrow> bool"
    and abs :: "'s \<Rightarrow> 'n list \<Rightarrow> bool"
    and elem :: "'n \<Rightarrow> bool"
  assumes abs_distinct: "abs s xs \<Longrightarrow> distinct xs \<and> list_all elem xs"
    and abs_add: "abs s xs \<Longrightarrow> elem n \<Longrightarrow> n \<notin> set xs \<Longrightarrow> abs (add n s) (n # xs)"
    and abs_add_tail: "abs s xs \<Longrightarrow> elem n \<Longrightarrow> n \<notin> set xs \<Longrightarrow> abs (add_tail n s) (xs @ [n])"
    and abs_del: "abs s xs \<Longrightarrow> n \<in> set xs \<Longrightarrow> abs (del n s) (remove1 n xs)"
    and abs_empty: "abs s xs \<Longrightarrow> is_empty s \<longleftrightarrow> xs = []"
    and abs_first: "abs s xs \<Longrightarrow> xs \<noteq> [] \<Longrightarrow> first s = hd xs"
begin

lemma pop:
  assumes "abs s xs" and "\<not> is_empty s"
  shows "first s = hd xs \<and> abs (del (first s) s) (tl xs)"
proof -
  from assms have ne: "xs \<noteq> []" by (simp add: abs_empty)
  then have f: "first s = hd xs" using assms(1) by (simp add: abs_first)
  have "abs (del (hd xs) s) (remove1 (hd xs) xs)"
    using assms(1) ne by (intro abs_del) simp_all
  moreover have "remove1 (hd xs) xs = tl xs" using ne by (cases xs) auto
  ultimately show ?thesis by (simp add: f)
qed

lemma refill:
  "abs s xs \<Longrightarrow> list_all elem ns \<Longrightarrow> distinct (xs @ ns) \<Longrightarrow> abs (fold add_tail ns s) (xs @ ns)"
proof (induction ns arbitrary: s xs)
  case (Cons n ns)
  then have "abs (add_tail n s) (xs @ [n])" by (intro abs_add_tail) auto
  with Cons.prems Cons.IH [of "add_tail n s" "xs @ [n]"] show ?case by simp
qed simp

lemma push_pop: "abs s xs \<Longrightarrow> elem n \<Longrightarrow> n \<notin> set xs \<Longrightarrow>
    first (add n s) = n \<and> abs (del n (add n s)) xs"
  using abs_add [of s xs n] abs_first [of "add n s" "n # xs"] abs_del [of "add n s" "n # xs" n]
  by simp

end

interpretation list_h: intrusive_list
  "\<lambda>n. list_add n h" "\<lambda>n. list_add_tail n h" list_del "\<lambda>l. lnext l h" "list_empty h"
  "\<lambda>l xs. dlist l h xs" "\<lambda>n. n \<noteq> h" for h
proof (unfold_locales, goal_cases)
  case (1 s xs)
  then show ?case by (auto simp: dlist_def list_all_iff)
next
  case (2 s xs n)
  then show ?case by (intro dlist_add) auto
next
  case (3 s xs n)
  then show ?case by (intro dlist_add_tail) auto
next
  case (4 s xs n)
  then obtain ys zs where xs: "xs = ys @ n # zs" and "n \<notin> set ys" by (metis split_list_first)
  then have "remove1 n xs = ys @ zs" by (simp add: remove1_append)
  with 4 xs dlist_del show ?case by metis
next
  case (5 s xs)
  then show ?case by (rule dlist_empty)
next
  case (6 s xs)
  then show ?case by (cases xs) (auto simp: dlist_next)
qed


subsection \<open>Properties\<close>

text \<open>C22: On a ring that represents the list xs, \<open>list_add\<close> of a fresh node pushes it at the
  front, \<open>list_add_tail\<close> appends it at the end, and \<open>list_del\<close> of the node undoes either.\<close>

theorem list_h_add_del:
  assumes "dlist l h xs" and "n \<notin> set (h # xs)"
  shows "dlist (list_add n h l) h (n # xs) \<and> dlist (list_add_tail n h l) h (xs @ [n]) \<and>
    dlist (list_del n (list_add n h l)) h xs \<and> dlist (list_del n (list_add_tail n h l)) h xs"
  using dlist_add [OF assms] dlist_add_tail [OF assms]
    dlist_del [of "list_add n h l" h "[]" n xs] dlist_del [of "list_add_tail n h l" h xs n "[]"]
  by simp

lemma list_h_add_del_witness:
  "dlist (list_add 32 16 (list_init 16 \<lparr>lnext = (\<lambda>_. 0), lprev = (\<lambda>_. 0)\<rparr>)) 16 [32] \<and>
   dlist (list_del 32 (list_add_tail 32 16 (list_init 16 \<lparr>lnext = (\<lambda>_. 0), lprev = (\<lambda>_. 0)\<rparr>))) 16 []"
  using list_h_add_del [OF dlist_init, of 32 16] by simp

text \<open>The idiom of the allocators: filling an empty ring with the chunks ns by
  \<open>list_add_tail\<close> and then taking the first node yields the first chunk and leaves the rest
  in order.\<close>

theorem list_h_refill_pop:
  fixes l :: links
  assumes "distinct (h # n # ns)"
  defines "l' \<equiv> fold (\<lambda>k. list_add_tail k h) (n # ns) (list_init h l)"
  shows "lnext l' h = n \<and> dlist (list_del (lnext l' h) l') h ns"
proof -
  have f: "dlist l' h ([] @ n # ns)"
    unfolding l'_def using assms(1) by (intro list_h.refill dlist_init) (auto simp: list_all_iff)
  then show ?thesis
    using list_h.pop [OF f] list_h.abs_empty [OF f] by auto
qed

lemma list_h_refill_pop_witness:
  "dlist (list_del 32 (fold (\<lambda>k. list_add_tail k 16) [32, 48]
     (list_init 16 \<lparr>lnext = (\<lambda>_. 0), lprev = (\<lambda>_. 0)\<rparr>))) 16 [48]"
  using list_h_refill_pop [of 16 32 "[48]" "\<lparr>lnext = (\<lambda>_. 0), lprev = (\<lambda>_. 0)\<rparr>"] by auto

end
