(* ===== verification/Buddy.thy ===== *)
theory Buddy
  imports Prelude
begin

text \<open>
  The buddy system of src/lab7/src/memory.c: \<open>buddy_init\<close>, \<open>buddy_alloc\<close>, \<open>buddy_free\<close>.

  State: the frame array (order and status of every page frame), the free lists of the
  orders 0 to 10 with their sizes, the base address and the number of pages.  A free list
  is the list of the indices of the frames whose \<open>list_node\<close> it links (theory Linked_List);
  a pointer to a frame is its index (\<open>container_of\<close> and the subtraction of the array).

  The invariant \<open>buddy_inv\<close> says that the frames that are not marked as interior
  (\<open>FRAME_BUDDY\<close>) are the heads of aligned blocks that partition the memory, and that
  the free list of order i holds exactly the heads of the free blocks of that order.
\<close>

definition MAX_ORDER :: nat where "MAX_ORDER = 10"
definition FRAME_FREE :: int where "FRAME_FREE = 0"
definition FRAME_ALLOC :: int where "FRAME_ALLOC = -1"
definition FRAME_BUDDY :: int where "FRAME_BUDDY = -2"
definition FRAME_RESERVED :: int where "FRAME_RESERVED = -3"

lemmas frame_status_defs [simp] =
  FRAME_FREE_def FRAME_ALLOC_def FRAME_BUDDY_def FRAME_RESERVED_def

record frame =
  f_order :: int
  f_status :: int

record buddy_allocator =
  frame_array :: "frame list"
  freelists :: "nat list list"
  freelists_size :: "int list"
  base_addr :: u64
  total_pages :: nat

subsection \<open>The operations\<close>

definition buddy_init :: "u64 \<Rightarrow> nat \<Rightarrow> buddy_allocator" where
  "buddy_init base n =
     \<lparr>frame_array = replicate n \<lparr>f_order = 0, f_status = FRAME_ALLOC\<rparr>,
      freelists = replicate (MAX_ORDER + 1) [],
      freelists_size = replicate (MAX_ORDER + 1) 0,
      base_addr = base,
      total_pages = n\<rparr>"

text \<open>Mark a frame free at an order and put it at the front of the free list.\<close>

definition put_free :: "nat \<Rightarrow> nat \<Rightarrow> buddy_allocator \<Rightarrow> buddy_allocator" where
  "put_free idx ord b =
     b\<lparr>frame_array := (frame_array b)[idx := \<lparr>f_order = int ord, f_status = FRAME_FREE\<rparr>],
       freelists := (freelists b)[ord := idx # freelists b ! ord],
       freelists_size := (freelists_size b)[ord := freelists_size b ! ord + 1]\<rparr>"

text \<open>Take a frame out of the free list of an order.\<close>

definition take_free :: "nat \<Rightarrow> nat \<Rightarrow> buddy_allocator \<Rightarrow> buddy_allocator" where
  "take_free idx ord b =
     b\<lparr>freelists := (freelists b)[ord := remove1 idx (freelists b ! ord)],
       freelists_size := (freelists_size b)[ord := freelists_size b ! ord - 1]\<rparr>"

definition set_frame :: "nat \<Rightarrow> int \<Rightarrow> int \<Rightarrow> buddy_allocator \<Rightarrow> buddy_allocator" where
  "set_frame idx ord st b =
     b\<lparr>frame_array := (frame_array b)[idx := \<lparr>f_order = ord, f_status = st\<rparr>]\<rparr>"

text \<open>The search \<open>for (i = order; i <= MAX_ORDER; i++)\<close> for a non-empty free list.\<close>

function buddy_find :: "nat list list \<Rightarrow> nat \<Rightarrow> nat option" where
  "buddy_find fl i =
     (if i \<le> MAX_ORDER then (if fl ! i \<noteq> [] then Some i else buddy_find fl (Suc i)) else None)"
  by pat_completeness auto
termination by (relation "measure (\<lambda>(fl, i). Suc MAX_ORDER - i)") auto

declare buddy_find.simps [simp del]

text \<open>The loop \<open>while (i != order)\<close> that halves the block and frees the upper halves.\<close>

fun buddy_split :: "nat \<Rightarrow> nat \<Rightarrow> nat \<Rightarrow> buddy_allocator \<Rightarrow> buddy_allocator option" where
  "buddy_split ord idx i b =
     (if i = ord then Some b
      else (case i of
              0 \<Rightarrow> None
            | Suc j \<Rightarrow>
                (if idx + 2 ^ j < length (frame_array b)
                 then buddy_split ord idx j (put_free (idx + 2 ^ j) j b) else None)))"

declare buddy_split.simps [simp del]

definition page_addr :: "buddy_allocator \<Rightarrow> nat \<Rightarrow> u64" where
  "page_addr b idx = base_addr b + of_nat idx * 4096"

definition buddy_alloc :: "nat \<Rightarrow> buddy_allocator \<Rightarrow> (u64 \<times> buddy_allocator) option" where
  "buddy_alloc ord b =
     (case buddy_find (freelists b) ord of
        None \<Rightarrow> Some (0, b)
      | Some i \<Rightarrow>
          (let idx = hd (freelists b ! i)
           in do {
             b1 \<leftarrow> buddy_split ord idx i (take_free idx i b);
             Some (page_addr b idx, set_frame idx (int ord) FRAME_ALLOC b1)
           }))"

text \<open>\<open>int idx = (ptr - base_addr) / PAGE_SIZE\<close>, then \<open>frame_array[idx]\<close>.\<close>

definition frame_index :: "u64 \<Rightarrow> buddy_allocator \<Rightarrow> nat option" where
  "frame_index ptr b =
     (let idx = sint (ucast ((ptr - base_addr b) div 4096) :: u32)
      in if 0 \<le> idx \<and> nat idx < length (frame_array b) then Some (nat idx) else None)"

text \<open>The merge loop; the result is the index and order of the merged block.\<close>

function buddy_merge ::
    "nat \<Rightarrow> nat \<Rightarrow> buddy_allocator \<Rightarrow> (nat \<times> nat \<times> buddy_allocator)" where
  "buddy_merge idx ord b =
     (if ord < MAX_ORDER then
        (let buddy_idx = idx XOR 2 ^ ord
         in if total_pages b \<le> buddy_idx then (idx, ord, b)
            else if f_status (frame_array b ! buddy_idx) = FRAME_FREE \<and>
                    f_order (frame_array b ! buddy_idx) = int ord
            then buddy_merge (if buddy_idx < idx then buddy_idx else idx) (Suc ord)
                   (set_frame buddy_idx (-1) FRAME_BUDDY (take_free buddy_idx ord b))
            else (idx, ord, b))
      else (idx, ord, b))"
  by pat_completeness auto
termination by (relation "measure (\<lambda>(idx, ord, b). MAX_ORDER - ord)") auto

declare buddy_merge.simps [simp del]

definition buddy_free :: "u64 \<Rightarrow> buddy_allocator \<Rightarrow> buddy_allocator option" where
  "buddy_free ptr b = do {
     idx \<leftarrow> frame_index ptr b;
     let ord = f_order (frame_array b ! idx);
     let b1 = set_frame idx (-1) FRAME_BUDDY b;
     if ord < 0 \<or> int MAX_ORDER < ord then None
     else (case buddy_merge idx (nat ord) b1 of (idx', ord', b2) \<Rightarrow> Some (put_free idx' ord' b2))
   }"

subsection \<open>Blocks and the invariant\<close>

definition block :: "nat \<Rightarrow> nat \<Rightarrow> nat set" where
  "block x ord = {x ..< x + 2 ^ ord}"

definition blk :: "frame list \<Rightarrow> nat \<Rightarrow> nat set" where
  "blk fs x = block x (nat (f_order (fs ! x)))"

definition heads :: "frame list \<Rightarrow> nat set \<Rightarrow> nat set" where
  "heads fs H = {x. x < length fs \<and> x \<notin> H \<and> f_status (fs ! x) \<noteq> FRAME_BUDDY}"

definition fits :: "nat \<Rightarrow> nat \<Rightarrow> nat \<Rightarrow> bool" where
  "fits n x ord \<longleftrightarrow> ord \<le> MAX_ORDER \<and> 2 ^ ord dvd x \<and> x + 2 ^ ord \<le> n"

text \<open>\<open>parts fs H\<close>: outside the set H, the blocks of the heads partition the frames.\<close>

definition parts :: "frame list \<Rightarrow> nat set \<Rightarrow> bool" where
  "parts fs H \<longleftrightarrow>
     (\<forall>x \<in> heads fs H. 0 \<le> f_order (fs ! x) \<and> fits (length fs) x (nat (f_order (fs ! x))) \<and>
        blk fs x \<inter> H = {}) \<and>
     (\<forall>x \<in> heads fs H. \<forall>y \<in> heads fs H. x \<noteq> y \<longrightarrow> blk fs x \<inter> blk fs y = {}) \<and>
     (\<forall>p < length fs. p \<notin> H \<longrightarrow> (\<exists>x \<in> heads fs H. p \<in> blk fs x))"

definition free_at :: "frame list \<Rightarrow> nat set \<Rightarrow> nat \<Rightarrow> nat set" where
  "free_at fs H ord = {x \<in> heads fs H. f_status (fs ! x) = FRAME_FREE \<and> f_order (fs ! x) = int ord}"

definition lists_ok :: "buddy_allocator \<Rightarrow> nat set \<Rightarrow> bool" where
  "lists_ok b H \<longleftrightarrow>
     length (freelists b) = MAX_ORDER + 1 \<and> length (freelists_size b) = MAX_ORDER + 1 \<and>
     (\<forall>i \<le> MAX_ORDER. distinct (freelists b ! i) \<and>
        freelists_size b ! i = int (length (freelists b ! i)) \<and>
        set (freelists b ! i) = free_at (frame_array b) H i)"

definition region_ok :: "buddy_allocator \<Rightarrow> bool" where
  "region_ok b \<longleftrightarrow> length (frame_array b) = total_pages b \<and> total_pages b < 2 ^ 31 \<and>
     0 < unat (base_addr b) \<and> 4096 dvd unat (base_addr b) \<and>
     unat (base_addr b) + total_pages b * 4096 \<le> 2 ^ 64"

definition buddy_inv :: "buddy_allocator \<Rightarrow> bool" where
  "buddy_inv b \<longleftrightarrow> region_ok b \<and> parts (frame_array b) {} \<and> lists_ok b {}"

text \<open>The state inside the loops: one block (idx, ord) is held and its other frames are
  interior.\<close>

definition hole_inv :: "nat \<Rightarrow> nat \<Rightarrow> buddy_allocator \<Rightarrow> bool" where
  "hole_inv idx ord b \<longleftrightarrow>
     region_ok b \<and> parts (frame_array b) (block idx ord) \<and> lists_ok b (block idx ord) \<and>
     fits (total_pages b) idx ord \<and>
     (\<forall>p \<in> block idx ord. p \<noteq> idx \<longrightarrow> f_status (frame_array b ! p) = FRAME_BUDDY)"

text \<open>The abstract state: the blocks in use with their order and status (allocated, cut into
  chunks of that size, or reserved).\<close>

type_synonym used = "nat \<times> nat \<times> int"

definition in_use :: "frame list \<Rightarrow> nat set \<Rightarrow> used set" where
  "in_use fs H = {(x, nat (f_order (fs ! x)), f_status (fs ! x)) | x.
     x \<in> heads fs H \<and> f_status (fs ! x) \<noteq> FRAME_FREE}"

abbreviation used_blocks :: "buddy_allocator \<Rightarrow> used set" where
  "used_blocks b \<equiv> in_use (frame_array b) {}"

subsection \<open>Opening and closing a hole in the partition\<close>

lemma block_self [simp]: "x \<in> block x ord"
  by (simp add: block_def)

lemma blk_self [simp]: "x \<in> blk fs x"
  by (simp add: blk_def)

lemma heads_subset: "H \<subseteq> H' \<Longrightarrow> heads fs H' \<subseteq> heads fs H"
  by (auto simp: heads_def)

lemma fits_less: "fits n x ord \<Longrightarrow> x < n"
proof -
  assume "fits n x ord"
  then have "x + 2 ^ ord \<le> n" by (simp add: fits_def)
  moreover have "(0::nat) < 2 ^ ord" by simp
  ultimately show ?thesis by linarith
qed

lemma parts_head:
  assumes "parts fs H" and "x \<in> heads fs H"
  shows "0 \<le> f_order (fs ! x)" "fits (length fs) x (nat (f_order (fs ! x)))" "blk fs x \<inter> H = {}"
  using assms by (simp_all add: parts_def)

lemma parts_disjoint:
  "parts fs H \<Longrightarrow> x \<in> heads fs H \<Longrightarrow> y \<in> heads fs H \<Longrightarrow> x \<noteq> y \<Longrightarrow> blk fs x \<inter> blk fs y = {}"
  by (simp add: parts_def)

lemma parts_cover: "parts fs H \<Longrightarrow> p < length fs \<Longrightarrow> p \<notin> H \<Longrightarrow> \<exists>x \<in> heads fs H. p \<in> blk fs x"
  by (simp add: parts_def)

text \<open>Frames inside the hole may be overwritten.\<close>

lemma nth_upd_hole: "i \<in> H \<Longrightarrow> x \<notin> H \<Longrightarrow> fs[i := f] ! x = fs ! x"
  by (metis nth_list_update_neq)

lemma heads_upd_hole: "i \<in> H \<Longrightarrow> heads (fs[i := f]) H = heads fs H"
  by (auto simp: heads_def nth_upd_hole)

lemma blk_upd_other: "i \<noteq> x \<Longrightarrow> blk (fs[i := f]) x = blk fs x"
  by (simp add: blk_def)

lemma parts_upd_hole: "i \<in> H \<Longrightarrow> parts (fs[i := f]) H \<longleftrightarrow> parts fs H"
proof -
  assume i: "i \<in> H"
  have h: "heads (fs[i := f]) H = heads fs H" by (rule heads_upd_hole [OF i])
  have "fs[i := f] ! x = fs ! x \<and> blk (fs[i := f]) x = blk fs x" if "x \<in> heads fs H" for x
    using that i by (simp add: heads_def blk_def nth_upd_hole)
  then show ?thesis by (simp add: parts_def h cong: ball_cong bex_cong)
qed

lemma free_at_upd_hole: "i \<in> H \<Longrightarrow> free_at (fs[i := f]) H ord = free_at fs H ord"
  by (auto simp: free_at_def heads_def nth_upd_hole)

lemma in_use_upd_hole: "i \<in> H \<Longrightarrow> in_use (fs[i := f]) H = in_use fs H"
  by (auto simp: in_use_def heads_def nth_upd_hole)

text \<open>A head leaves the partition: its block joins the hole, its other frames are interior.\<close>

lemma head_interior:
  assumes "parts fs H" and "x \<in> heads fs H" and "p \<in> blk fs x" and "p \<noteq> x"
  shows "f_status (fs ! p) = FRAME_BUDDY"
proof (rule ccontr)
  assume "f_status (fs ! p) \<noteq> FRAME_BUDDY"
  moreover have "p < length fs"
    using parts_head(2) [OF assms(1,2)] assms(3) by (auto simp: fits_def blk_def block_def)
  moreover have "p \<notin> H" using parts_head(3) [OF assms(1,2)] assms(3) by auto
  ultimately have "p \<in> heads fs H" by (simp add: heads_def)
  then have "blk fs p \<inter> blk fs x = {}" using parts_disjoint assms by blast
  moreover have "p \<in> blk fs p" by simp
  ultimately show False using assms(3) by blast
qed

lemma heads_open:
  assumes "parts fs H" and "x \<in> heads fs H"
  shows "heads fs (H \<union> blk fs x) = heads fs H - {x}"
  using head_interior [OF assms] by (auto simp: heads_def)

lemma parts_open:
  assumes p: "parts fs H" and x: "x \<in> heads fs H"
  shows "parts fs (H \<union> blk fs x)"
proof -
  have h: "heads fs (H \<union> blk fs x) = heads fs H - {x}" by (rule heads_open [OF assms])
  have "blk fs y \<inter> (H \<union> blk fs x) = {}" if "y \<in> heads fs H - {x}" for y
    using parts_head(3) [OF p] parts_disjoint [OF p _ x] that by blast
  moreover have "\<exists>y \<in> heads fs H - {x}. q \<in> blk fs y"
    if "q < length fs" "q \<notin> H \<union> blk fs x" for q
    using parts_cover [OF p that(1)] that(2) by auto
  ultimately show ?thesis
    unfolding parts_def h using parts_head [OF p] parts_disjoint [OF p] by (metis DiffE)
qed

text \<open>A block of the hole becomes a block of the partition.\<close>

lemma heads_close:
  assumes "k < length fs" and "f_status f \<noteq> FRAME_BUDDY" and "k \<notin> H"
    and "\<And>q. q \<in> block k ord \<Longrightarrow> q \<noteq> k \<Longrightarrow> f_status (fs ! q) = FRAME_BUDDY"
  shows "heads (fs[k := f]) H = insert k (heads fs (H \<union> block k ord))"
  using assms by (auto simp: heads_def nth_list_update)

lemma parts_close:
  assumes p: "parts fs (H \<union> block k ord)" and k: "fits (length fs) k ord"
    and d: "block k ord \<inter> H = {}" and st: "f_status f \<noteq> FRAME_BUDDY" and o: "f_order f = int ord"
    and intr: "\<And>q. q \<in> block k ord \<Longrightarrow> q \<noteq> k \<Longrightarrow> f_status (fs ! q) = FRAME_BUDDY"
  shows "parts (fs[k := f]) H"
proof -
  let ?H = "H \<union> block k ord" and ?fs = "fs[k := f]"
  have kl: "k < length fs"
    using k by (rule fits_less)
  have kH: "k \<notin> H" using d block_self by blast
  have h: "heads ?fs H = insert k (heads fs ?H)" by (rule heads_close [OF kl st kH intr])
  have bk: "blk ?fs k = block k ord" using kl o by (simp add: blk_def)
  have kn: "y \<noteq> k" if "y \<in> heads fs ?H" for y using that by (auto simp: heads_def)
  have bo: "blk ?fs y = blk fs y \<and> ?fs ! y = fs ! y" if "y \<in> heads fs ?H" for y
    using kn [OF that] by (auto simp: blk_def)
  have bd: "blk fs y \<inter> ?H = {}" if "y \<in> heads fs ?H" for y using parts_head(3) [OF p that] .
  have 1: "0 \<le> f_order (?fs ! x) \<and> fits (length ?fs) x (nat (f_order (?fs ! x))) \<and>
      blk ?fs x \<inter> H = {}" if "x \<in> heads ?fs H" for x
  proof (cases "x = k")
    case True
    then show ?thesis using k d o kl bk by simp
  next
    case False
    then have x: "x \<in> heads fs ?H" using that h by simp
    have "blk fs x \<inter> H = {}" using bd [OF x] by blast
    then show ?thesis using parts_head(1,2) [OF p x] bo [OF x] by simp
  qed
  have 2: "blk ?fs x \<inter> blk ?fs y = {}" if xy: "x \<in> heads ?fs H" "y \<in> heads ?fs H" "x \<noteq> y" for x y
  proof -
    consider "x = k" "y \<in> heads fs ?H" | "y = k" "x \<in> heads fs ?H" | "x \<in> heads fs ?H" "y \<in> heads fs ?H"
      using xy unfolding h by blast
    then show ?thesis
    proof cases
      case 1
      then show ?thesis using bk bo [of y] bd [of y] by blast
    next
      case 2
      then show ?thesis using bk bo [of x] bd [of x] by blast
    next
      case 3
      then show ?thesis using bo [of x] bo [of y] parts_disjoint [OF p 3 xy(3)] by simp
    qed
  qed
  have 3: "\<exists>x \<in> heads ?fs H. q \<in> blk ?fs x" if q: "q < length ?fs" "q \<notin> H" for q
  proof (cases "q \<in> block k ord")
    case True
    then show ?thesis unfolding h bk [symmetric] by blast
  next
    case False
    then obtain x where "x \<in> heads fs ?H" "q \<in> blk fs x"
      using parts_cover [OF p, of q] q by auto
    then show ?thesis using bo [of x] unfolding h by blast
  qed
  show ?thesis
    unfolding parts_def
    by (intro conjI ballI allI impI) (use 1 2 3 in \<open>blast+\<close>)
qed

lemma free_at_open:
  "parts fs H \<Longrightarrow> x \<in> heads fs H \<Longrightarrow> free_at fs (H \<union> blk fs x) i = free_at fs H i - {x}"
  by (auto simp: free_at_def heads_open)

lemma in_use_open:
  "parts fs H \<Longrightarrow> x \<in> heads fs H \<Longrightarrow>
   in_use fs (H \<union> blk fs x) = in_use fs H - {(x, nat (f_order (fs ! x)), f_status (fs ! x))}"
  by (auto simp: in_use_def heads_open)

lemma free_at_close:
  assumes "k < length fs" and "f_status f \<noteq> FRAME_BUDDY" and "k \<notin> H"
    and "\<And>q. q \<in> block k ord \<Longrightarrow> q \<noteq> k \<Longrightarrow> f_status (fs ! q) = FRAME_BUDDY"
  shows "free_at (fs[k := f]) H i =
    (if f_status f = FRAME_FREE \<and> f_order f = int i then {k} else {}) \<union> free_at fs (H \<union> block k ord) i"
proof -
  have h: "heads (fs[k := f]) H = insert k (heads fs (H \<union> block k ord))"
    by (rule heads_close [OF assms])
  have n: "k \<notin> heads fs (H \<union> block k ord)" by (simp add: heads_def)
  show ?thesis
  proof (rule set_eqI)
    fix x
    show "x \<in> free_at (fs[k := f]) H i \<longleftrightarrow> x \<in> (if f_status f = FRAME_FREE \<and> f_order f = int i
        then {k} else {}) \<union> free_at fs (H \<union> block k ord) i"
      using n assms(1) by (cases "x = k") (simp_all add: free_at_def h)
  qed
qed

lemma in_use_close:
  assumes "k < length fs" and "f_status f \<noteq> FRAME_BUDDY" and "k \<notin> H"
    and "\<And>q. q \<in> block k ord \<Longrightarrow> q \<noteq> k \<Longrightarrow> f_status (fs ! q) = FRAME_BUDDY"
  shows "in_use (fs[k := f]) H =
    (if f_status f = FRAME_FREE then {} else {(k, nat (f_order f), f_status f)}) \<union> in_use fs (H \<union> block k ord)"
proof -
  have h: "heads (fs[k := f]) H = insert k (heads fs (H \<union> block k ord))"
    by (rule heads_close [OF assms])
  have n: "k \<notin> heads fs (H \<union> block k ord)" by (simp add: heads_def)
  have u: "(x, r, st) \<in> in_use gs G \<longleftrightarrow> x \<in> heads gs G \<and> f_status (gs ! x) \<noteq> FRAME_FREE \<and>
      r = nat (f_order (gs ! x)) \<and> st = f_status (gs ! x)" for gs G x r st
    by (auto simp: in_use_def)
  show ?thesis
  proof (rule set_eqI)
    fix z :: used
    obtain x r st where z: "z = (x, r, st)" by (metis prod_cases3)
    show "z \<in> in_use (fs[k := f]) H \<longleftrightarrow> z \<in> (if f_status f = FRAME_FREE then {}
        else {(k, nat (f_order f), f_status f)}) \<union> in_use fs (H \<union> block k ord)"
      using n assms(1) unfolding z by (cases "x = k") (simp_all add: u h)
  qed
qed

subsection \<open>The steps of the operations on the invariant\<close>

lemma operation_sel [simp]:
  "frame_array (put_free k ord b) = (frame_array b)[k := \<lparr>f_order = int ord, f_status = FRAME_FREE\<rparr>]"
  "frame_array (take_free k ord b) = frame_array b"
  "frame_array (set_frame k r st b) = (frame_array b)[k := \<lparr>f_order = r, f_status = st\<rparr>]"
  "total_pages (put_free k ord b) = total_pages b" "base_addr (put_free k ord b) = base_addr b"
  "total_pages (take_free k ord b) = total_pages b" "base_addr (take_free k ord b) = base_addr b"
  "total_pages (set_frame k r st b) = total_pages b" "base_addr (set_frame k r st b) = base_addr b"
  "freelists (set_frame k r st b) = freelists b"
  "freelists_size (set_frame k r st b) = freelists_size b"
  by (simp_all add: put_free_def take_free_def set_frame_def)

lemma region_ok_ops [simp]:
  "region_ok (put_free k ord b) = region_ok b" "region_ok (take_free k ord b) = region_ok b"
  "region_ok (set_frame k r st b) = region_ok b"
  by (simp_all add: region_ok_def)

lemma lists_okD:
  assumes "lists_ok b H" and "i \<le> MAX_ORDER"
  shows "distinct (freelists b ! i)" "freelists_size b ! i = int (length (freelists b ! i))"
    "set (freelists b ! i) = free_at (frame_array b) H i" "i < length (freelists b)"
    "i < length (freelists_size b)"
  using assms by (auto simp: lists_ok_def)

lemma lists_ok_set_frame: "k \<in> H \<Longrightarrow> lists_ok (set_frame k r st b) H = lists_ok b H"
  by (simp add: lists_ok_def free_at_upd_hole)

lemma lists_ok_put_free:
  assumes l: "lists_ok b (H \<union> block k ord)" and o: "ord \<le> MAX_ORDER" and k: "k < length (frame_array b)"
    and kH: "k \<notin> H" and i: "\<And>q. q \<in> block k ord \<Longrightarrow> q \<noteq> k \<Longrightarrow> f_status (frame_array b ! q) = FRAME_BUDDY"
  shows "lists_ok (put_free k ord b) H"
proof -
  have fa: "free_at (frame_array (put_free k ord b)) H j =
      (if j = ord then {k} else {}) \<union> free_at (frame_array b) (H \<union> block k ord) j" for j
    using free_at_close [where ord = ord and i = j, OF k _ kH i,
        of "\<lparr>f_order = int ord, f_status = FRAME_FREE\<rparr>"] by auto
  have "k \<notin> free_at (frame_array b) (H \<union> block k ord) ord"
    by (simp add: free_at_def heads_def)
  then show ?thesis
    using l o lists_okD [OF l] unfolding lists_ok_def fa
    by (auto simp: put_free_def nth_list_update)
qed

lemma lists_ok_take_free:
  assumes l: "lists_ok b H" and o: "ord \<le> MAX_ORDER" and p: "parts (frame_array b) H"
    and x: "x \<in> free_at (frame_array b) H ord"
  shows "lists_ok (take_free x ord b) (H \<union> blk (frame_array b) x)"
proof -
  have xh: "x \<in> heads (frame_array b) H" using x by (simp add: free_at_def)
  have fa: "free_at (frame_array b) (H \<union> blk (frame_array b) x) j = free_at (frame_array b) H j - {x}" for j
    by (rule free_at_open [OF p xh])
  have other: "x \<notin> free_at (frame_array b) H j" if "j \<noteq> ord" for j
    using x that by (auto simp: free_at_def)
  let ?b = "take_free x ord b"
  have "distinct (freelists ?b ! i) \<and> freelists_size ?b ! i = int (length (freelists ?b ! i)) \<and>
      set (freelists ?b ! i) = free_at (frame_array b) H i - {x}" if "i \<le> MAX_ORDER" for i
  proof (cases "i = ord")
    case True
    have xl: "x \<in> set (freelists b ! ord)" using lists_okD(3) [OF l o] x by simp
    then have "0 < length (freelists b ! ord)" by (rule length_pos_if_in_set)
    then have "int (length (freelists b ! ord) - Suc 0) = int (length (freelists b ! ord)) - 1"
      by linarith
    then show ?thesis
      using True xl lists_okD [OF l o]
      by (simp add: take_free_def length_remove1 of_nat_diff)
  next
    case False
    then show ?thesis
      using lists_okD [OF l that] other [OF False] by (simp add: take_free_def)
  qed
  then show ?thesis using l unfolding lists_ok_def by (simp add: fa take_free_def)
qed

lemma block_halves:
  "block x (Suc j) = block x j \<union> block (x + 2 ^ j) j" "block (x + 2 ^ j) j \<inter> block x j = {}"
  by (auto simp: block_def)

lemma fits_halves:
  "fits n x (Suc j) \<Longrightarrow> fits n x j \<and> fits n (x + 2 ^ j) j"
proof -
  assume f: "fits n x (Suc j)"
  then have "2 ^ j dvd x" using power_le_dvd [of 2 "Suc j" x j] by (simp add: fits_def)
  then show ?thesis using f by (simp add: fits_def)
qed

lemma hole_split:
  assumes "hole_inv idx (Suc j) b"
  shows "hole_inv idx j (put_free (idx + 2 ^ j) j b) \<and>
    in_use (frame_array (put_free (idx + 2 ^ j) j b)) (block idx j) =
      in_use (frame_array b) (block idx (Suc j))"
proof -
  let ?k = "idx + 2 ^ j" and ?f = "\<lparr>f_order = int j, f_status = FRAME_FREE\<rparr>"
  have r: "region_ok b" and p: "parts (frame_array b) (block idx j \<union> block ?k j)"
    and l: "lists_ok b (block idx j \<union> block ?k j)" and f: "fits (length (frame_array b)) idx (Suc j)"
    and i: "\<And>q. q \<in> block idx (Suc j) \<Longrightarrow> q \<noteq> idx \<Longrightarrow> f_status (frame_array b ! q) = FRAME_BUDDY"
    using assms by (simp_all add: hole_inv_def block_halves region_ok_def)
  have fk: "fits (length (frame_array b)) ?k j" and fi: "fits (length (frame_array b)) idx j"
    using fits_halves [OF f] by auto
  have kl: "?k < length (frame_array b)" using fk by (rule fits_less)
  have kn: "?k \<notin> block idx j" by (simp add: block_def)
  have ii: "f_status (frame_array b ! q) = FRAME_BUDDY" if "q \<in> block ?k j" "q \<noteq> ?k" for q
    using i [of q] that by (auto simp: block_halves block_def)
  have o: "j \<le> MAX_ORDER" using f by (simp add: fits_def)
  have "parts ((frame_array b)[?k := ?f]) (block idx j)"
    by (rule parts_close [OF p fk block_halves(2)]) (simp_all add: ii [unfolded FRAME_BUDDY_def])
  moreover have "lists_ok (put_free ?k j b) (block idx j)"
    by (rule lists_ok_put_free [OF l o kl kn ii])
  moreover have "\<forall>q \<in> block idx j. q \<noteq> idx \<longrightarrow>
      f_status (frame_array (put_free ?k j b) ! q) = FRAME_BUDDY"
  proof (intro ballI impI)
    fix q assume q: "q \<in> block idx j" "q \<noteq> idx"
    then have "q \<noteq> ?k" using kn by blast
    then show "f_status (frame_array (put_free ?k j b) ! q) = FRAME_BUDDY"
      using i [of q] q by (simp add: block_halves(1))
  qed
  moreover have "in_use ((frame_array b)[?k := ?f]) (block idx j) =
      in_use (frame_array b) (block idx (Suc j))"
    using in_use_close [OF kl _ kn ii, of ?f] by (simp add: block_halves(1))
  ultimately show ?thesis using r fi by (simp add: hole_inv_def region_ok_def)
qed

lemma hole_close_free:
  assumes "hole_inv idx ord b"
  shows "buddy_inv (put_free idx ord b) \<and>
    used_blocks (put_free idx ord b) = in_use (frame_array b) (block idx ord)"
proof -
  let ?f = "\<lparr>f_order = int ord, f_status = FRAME_FREE\<rparr>"
  have r: "region_ok b" and p: "parts (frame_array b) ({} \<union> block idx ord)"
    and l: "lists_ok b ({} \<union> block idx ord)" and f: "fits (length (frame_array b)) idx ord"
    and i: "\<And>q. q \<in> block idx ord \<Longrightarrow> q \<noteq> idx \<Longrightarrow> f_status (frame_array b ! q) = FRAME_BUDDY"
    using assms by (simp_all add: hole_inv_def region_ok_def)
  have kl: "idx < length (frame_array b)" using f by (rule fits_less)
  have "parts ((frame_array b)[idx := ?f]) {}"
    by (rule parts_close [OF p f]) (simp_all add: i [unfolded FRAME_BUDDY_def])
  moreover have "lists_ok (put_free idx ord b) {}"
    by (rule lists_ok_put_free [OF l _ kl _ i]) (use f in \<open>simp_all add: fits_def\<close>)
  moreover have "in_use ((frame_array b)[idx := ?f]) {} = in_use (frame_array b) (block idx ord)"
    using in_use_close [OF kl _ _ i, of ?f "{}"] by simp
  ultimately show ?thesis using r by (simp add: buddy_inv_def)
qed

lemma hole_close_used:
  assumes "hole_inv idx ord b" and "st \<noteq> FRAME_FREE" and "st \<noteq> FRAME_BUDDY"
  shows "buddy_inv (set_frame idx (int ord) st b) \<and>
    used_blocks (set_frame idx (int ord) st b) =
      insert (idx, ord, st) (in_use (frame_array b) (block idx ord))"
proof -
  let ?f = "\<lparr>f_order = int ord, f_status = st\<rparr>"
  have r: "region_ok b" and p: "parts (frame_array b) ({} \<union> block idx ord)"
    and l: "lists_ok b (block idx ord)" and f: "fits (length (frame_array b)) idx ord"
    and i: "\<And>q. q \<in> block idx ord \<Longrightarrow> q \<noteq> idx \<Longrightarrow> f_status (frame_array b ! q) = FRAME_BUDDY"
    using assms by (simp_all add: hole_inv_def region_ok_def)
  have kl: "idx < length (frame_array b)" using f by (rule fits_less)
  have "parts ((frame_array b)[idx := ?f]) {}"
    by (rule parts_close [OF p f]) (use assms in \<open>simp_all add: i [unfolded FRAME_BUDDY_def]\<close>)
  moreover have "lists_ok (set_frame idx (int ord) st b) {}"
  proof -
    have "free_at ((frame_array b)[idx := ?f]) {} j = free_at (frame_array b) (block idx ord) j" for j
      using free_at_close [where ord = ord and i = j, OF kl _ _ i, of ?f "{}"] assms(2,3) by simp
    then show ?thesis using l by (simp add: lists_ok_def)
  qed
  moreover have "in_use ((frame_array b)[idx := ?f]) {} =
      insert (idx, ord, st) (in_use (frame_array b) (block idx ord))"
    using in_use_close [OF kl _ _ i, of ?f "{}"] assms(2,3) by simp
  ultimately show ?thesis using r by (simp add: buddy_inv_def)
qed

lemma hole_open_free:
  assumes b: "buddy_inv b" and o: "ord \<le> MAX_ORDER" and x: "x \<in> set (freelists b ! ord)"
  shows "hole_inv x ord (take_free x ord b) \<and> in_use (frame_array b) (block x ord) = used_blocks b"
proof -
  let ?fs = "frame_array b"
  have p: "parts ?fs {}" and l: "lists_ok b {}" and r: "region_ok b"
    using b by (simp_all add: buddy_inv_def)
  have xf: "x \<in> free_at ?fs {} ord" using lists_okD(3) [OF l o] x by simp
  then have xh: "x \<in> heads ?fs {}" and ox: "f_order (?fs ! x) = int ord"
    and sx: "f_status (?fs ! x) = FRAME_FREE" by (simp_all add: free_at_def)
  have bx: "blk ?fs x = block x ord" by (simp add: blk_def ox)
  have "parts ?fs (block x ord)" using parts_open [OF p xh] by (simp add: bx)
  moreover have "lists_ok (take_free x ord b) (block x ord)"
    using lists_ok_take_free [OF l o p xf] by (simp add: bx)
  moreover have "fits (total_pages b) x ord"
    using parts_head(2) [OF p xh] ox r by (simp add: region_ok_def)
  moreover have "f_status (?fs ! q) = FRAME_BUDDY" if "q \<in> block x ord" "q \<noteq> x" for q
    using head_interior [OF p xh, of q] that bx by simp
  moreover have "(x, nat (f_order (?fs ! x)), f_status (?fs ! x)) \<notin> used_blocks b"
    using sx by (auto simp: in_use_def)
  then have "in_use ?fs (block x ord) = used_blocks b"
    using in_use_open [OF p xh] by (simp add: bx)
  ultimately show ?thesis using r by (simp add: hole_inv_def)
qed

lemma hole_open_used:
  assumes b: "buddy_inv b" and x: "(x, ord, st) \<in> used_blocks b"
  shows "hole_inv x ord (set_frame x (-1) FRAME_BUDDY b) \<and>
    f_order (frame_array b ! x) = int ord \<and> ord \<le> MAX_ORDER \<and>
    in_use (frame_array (set_frame x (-1) FRAME_BUDDY b)) (block x ord) = used_blocks b - {(x, ord, st)}"
proof -
  let ?fs = "frame_array b"
  have p: "parts ?fs {}" and l: "lists_ok b {}" and r: "region_ok b"
    using b by (simp_all add: buddy_inv_def)
  have xh: "x \<in> heads ?fs {}" and sx: "f_status (?fs ! x) \<noteq> FRAME_FREE"
    and o: "ord = nat (f_order (?fs ! x))" and st: "st = f_status (?fs ! x)"
    using x by (auto simp: in_use_def)
  have ox: "f_order (?fs ! x) = int ord" using parts_head(1) [OF p xh] o by simp
  have f: "fits (length ?fs) x ord" using parts_head(2) [OF p xh] o by simp
  have bx: "blk ?fs x = block x ord" by (simp add: blk_def ox)
  have pp: "parts ?fs (block x ord)" using parts_open [OF p xh] by (simp add: bx)
  have "lists_ok b (block x ord)"
  proof -
    have "free_at ?fs (block x ord) i = free_at ?fs {} i" for i
      using free_at_open [OF p xh, of i] sx by (auto simp: bx free_at_def)
    then show ?thesis using l by (simp add: lists_ok_def)
  qed
  then have "lists_ok (set_frame x (-1) FRAME_BUDDY b) (block x ord)"
    by (simp add: lists_ok_set_frame)
  moreover have "f_status (frame_array (set_frame x (-1) FRAME_BUDDY b) ! q) = FRAME_BUDDY"
    if "q \<in> block x ord" "q \<noteq> x" for q
    using head_interior [OF p xh, of q] that bx by simp
  moreover have "in_use ?fs (block x ord) = used_blocks b - {(x, ord, st)}"
    using in_use_open [OF p xh] by (simp add: bx o st)
  ultimately show ?thesis
    using r f pp ox by (auto simp: hole_inv_def region_ok_def parts_upd_hole in_use_upd_hole fits_def)
qed

text \<open>The buddy of an aligned block, and the block the two make together.\<close>

lemma buddy_xor:
  fixes x :: nat
  assumes "2 ^ ord dvd x"
  obtains (upper) "x XOR 2 ^ ord = x + 2 ^ ord" "2 ^ Suc ord dvd x"
  | (lower) "x = (x XOR 2 ^ ord) + 2 ^ ord" "2 ^ Suc ord dvd x XOR 2 ^ ord"
proof -
  obtain k where k: "x = 2 ^ ord * k" using assms by (elim dvdE)
  have up: "2 ^ ord * (2 * j) XOR 2 ^ ord = 2 ^ ord * (2 * j) + 2 ^ ord" for j :: nat
  proof -
    have "\<not> bit (2 ^ ord * (2 * j)) ord" by (simp add: bit_iff_odd)
    then show ?thesis
      using flip_bit_eq_xor [of ord "2 ^ ord * (2 * j)"]
      by (simp add: push_bit_eq_mult flip_bit_eq_if set_bit_eq)
  qed
  show ?thesis
  proof (cases "even k")
    case True
    then obtain j where "k = 2 * j" by (elim evenE)
    then show ?thesis using up [of j] k by (intro upper) simp_all
  next
    case False
    then obtain j where j: "k = 2 * j + 1" by (elim oddE)
    then have x: "x = 2 ^ ord * (2 * j) XOR 2 ^ ord"
      using up [of j] k by (simp add: algebra_simps)
    then have "x XOR 2 ^ ord = 2 ^ ord * (2 * j)" by (simp add: xor.assoc)
    then show ?thesis using j k by (intro lower) (simp_all add: algebra_simps)
  qed
qed

lemma buddy_merged:
  assumes f: "fits n x ord" and n: "x XOR 2 ^ ord < n" and k: "fits n (x XOR 2 ^ ord) ord"
    and o: "ord < MAX_ORDER"
  defines "y \<equiv> min x (x XOR 2 ^ ord)"
  shows "block x ord \<union> block (x XOR 2 ^ ord) ord = block y (Suc ord)" "fits n y (Suc ord)"
proof -
  have d: "2 ^ ord dvd x" using f by (simp add: fits_def)
  show "block x ord \<union> block (x XOR 2 ^ ord) ord = block y (Suc ord)"
    using d by (cases rule: buddy_xor) (auto simp: y_def block_def)
  show "fits n y (Suc ord)"
    using d f k o by (cases rule: buddy_xor) (auto simp: y_def fits_def)
qed

lemma hole_merge:
  assumes h: "hole_inv idx ord b" and si: "f_status (frame_array b ! idx) = FRAME_BUDDY"
    and o: "ord < MAX_ORDER" and k: "k = idx XOR 2 ^ ord" "k < total_pages b"
    and sk: "f_status (frame_array b ! k) = FRAME_FREE" "f_order (frame_array b ! k) = int ord"
  defines "b' \<equiv> set_frame k (-1) FRAME_BUDDY (take_free k ord b)" and "y \<equiv> min idx k"
  shows "hole_inv y (Suc ord) b'" "f_status (frame_array b' ! y) = FRAME_BUDDY"
    "in_use (frame_array b') (block y (Suc ord)) = in_use (frame_array b) (block idx ord)"
proof -
  let ?fs = "frame_array b" and ?H = "block idx ord"
  have r: "region_ok b" and p: "parts ?fs ?H" and l: "lists_ok b ?H"
    and f: "fits (length ?fs) idx ord"
    and i: "\<And>q. q \<in> ?H \<Longrightarrow> q \<noteq> idx \<Longrightarrow> f_status (?fs ! q) = FRAME_BUDDY"
    using h by (simp_all add: hole_inv_def region_ok_def)
  have kl: "k < length ?fs" using k(2) r by (simp add: region_ok_def)
  have kH: "k \<notin> ?H" using i [of k] si sk by (cases "k = idx") auto
  have kh: "k \<in> heads ?fs ?H" using kl kH sk by (simp add: heads_def)
  have kf: "k \<in> free_at ?fs ?H ord" using kh sk by (simp add: free_at_def)
  have bk: "blk ?fs k = block k ord" by (simp add: blk_def sk)
  have fk: "fits (length ?fs) k ord" using parts_head(2) [OF p kh] sk by simp
  have un: "?H \<union> block k ord = block y (Suc ord)" and fy: "fits (length ?fs) y (Suc ord)"
    unfolding y_def
    by (rule buddy_merged [OF f _ _ o, folded k(1), OF kl fk])+
  have ku: "k \<in> block y (Suc ord)" unfolding un [symmetric] by simp
  have pm: "parts ?fs (block y (Suc ord))" using parts_open [OF p kh] by (simp add: bk un)
  have "lists_ok (take_free k ord b) (block y (Suc ord))"
    using lists_ok_take_free [OF l _ _ kf] p o by (simp add: bk un)
  then have lm: "lists_ok b' (block y (Suc ord))"
    using ku by (simp add: b'_def lists_ok_set_frame)
  have st: "f_status (frame_array b' ! q) = FRAME_BUDDY" if q: "q \<in> block y (Suc ord)" for q
  proof (cases "q = k")
    case True
    then show ?thesis using kl by (simp add: b'_def)
  next
    case False
    then have e: "frame_array b' ! q = ?fs ! q" by (simp add: b'_def)
    consider "q = idx" | "q \<in> ?H" "q \<noteq> idx" | "q \<in> blk ?fs k"
      using q unfolding un [symmetric] bk by blast
    then show ?thesis
      using e i [of q] si head_interior [OF p kh, of q] False by cases simp_all
  qed
  show "f_status (frame_array b' ! y) = FRAME_BUDDY" using st [of y] by simp
  show "hole_inv y (Suc ord) b'"
    unfolding hole_inv_def
  proof (intro conjI ballI impI)
    show "region_ok b'" using r by (simp add: b'_def)
    show "parts (frame_array b') (block y (Suc ord))" using pm ku by (simp add: b'_def parts_upd_hole)
    show "fits (total_pages b') y (Suc ord)" using fy r by (simp add: b'_def region_ok_def)
  qed (use lm st in auto)
  have "(k, nat (f_order (?fs ! k)), f_status (?fs ! k)) \<notin> in_use ?fs ?H" using sk by (auto simp: in_use_def)
  then have "in_use ?fs (block y (Suc ord)) = in_use ?fs ?H"
    using in_use_open [OF p kh] by (simp add: bk un)
  then show "in_use (frame_array b') (block y (Suc ord)) = in_use ?fs ?H"
    using ku by (simp add: b'_def in_use_upd_hole)
qed

subsection \<open>Correctness of the operations\<close>

lemma buddy_find_Some:
  "buddy_find fl i = Some j \<Longrightarrow> i \<le> j \<and> j \<le> MAX_ORDER \<and> fl ! j \<noteq> [] \<and> (\<forall>k. i \<le> k \<longrightarrow> k < j \<longrightarrow> fl ! k = [])"
proof (induction fl i rule: buddy_find.induct)
  case (1 fl i)
  show ?case
  proof (cases "i \<le> MAX_ORDER \<and> fl ! i = []")
    case True
    then have "buddy_find fl i = buddy_find fl (Suc i)" by (subst buddy_find.simps) simp
    then have "Suc i \<le> j \<and> j \<le> MAX_ORDER \<and> fl ! j \<noteq> [] \<and> (\<forall>k. Suc i \<le> k \<longrightarrow> k < j \<longrightarrow> fl ! k = [])"
      using 1 True by simp
    then show ?thesis using True by (metis Suc_leD Suc_leI le_neq_implies_less)
  next
    case False
    then have "buddy_find fl i = (if i \<le> MAX_ORDER then Some i else None)"
      by (subst buddy_find.simps) auto
    then show ?thesis using 1(2) False by (auto split: if_splits)
  qed
qed

lemma buddy_find_None: "buddy_find fl i = None \<longleftrightarrow> (\<forall>k. i \<le> k \<longrightarrow> k \<le> MAX_ORDER \<longrightarrow> fl ! k = [])"
proof (induction fl i rule: buddy_find.induct)
  case (1 fl i)
  show ?case
  proof (cases "i \<le> MAX_ORDER \<and> fl ! i = []")
    case True
    then have "buddy_find fl i = buddy_find fl (Suc i)" by (subst buddy_find.simps) simp
    moreover have "(\<forall>k. i \<le> k \<longrightarrow> k \<le> MAX_ORDER \<longrightarrow> fl ! k = []) \<longleftrightarrow>
        (\<forall>k. Suc i \<le> k \<longrightarrow> k \<le> MAX_ORDER \<longrightarrow> fl ! k = [])"
      using True by (metis Suc_le_eq le_eq_less_or_eq)
    ultimately show ?thesis using 1 True by simp
  next
    case False
    then show ?thesis by (subst buddy_find.simps) auto
  qed
qed

lemma buddy_split_inv:
  assumes "hole_inv idx i b" and "ord \<le> i"
  shows "\<exists>b'. buddy_split ord idx i b = Some b' \<and> hole_inv idx ord b' \<and>
    in_use (frame_array b') (block idx ord) = in_use (frame_array b) (block idx i) \<and>
    base_addr b' = base_addr b"
  using assms
proof (induction i arbitrary: b)
  case 0
  then show ?case by (subst buddy_split.simps) simp
next
  case (Suc j)
  show ?case
  proof (cases "ord = Suc j")
    case True
    then show ?thesis using Suc.prems by (subst buddy_split.simps) simp
  next
    case False
    then have "ord \<le> j" using Suc.prems(2) by simp
    have "idx + 2 ^ j < length (frame_array b)"
      using Suc.prems(1) fits_halves [of "total_pages b" idx j] fits_less
      by (auto simp: hole_inv_def region_ok_def)
    then show ?thesis
      using Suc.IH [of "put_free (idx + 2 ^ j) j b"] hole_split [OF Suc.prems(1)] False \<open>ord \<le> j\<close>
      by (subst buddy_split.simps) simp
  qed
qed

lemma buddy_split_total:
  "buddy_split ord idx i b = Some b' \<Longrightarrow> total_pages b' = total_pages b"
proof (induction i arbitrary: b)
  case 0
  then show ?case by (subst (asm) buddy_split.simps) (simp split: if_splits)
next
  case (Suc j)
  from Suc.prems show ?case
    by (subst (asm) buddy_split.simps) (auto split: if_splits dest: Suc.IH)
qed

lemma frame_index_addr:
  assumes "region_ok b" and "idx < total_pages b"
  shows "frame_index (page_addr b idx) b = Some idx"
proof -
  have "idx < 2 ^ 31" using assms by (simp add: region_ok_def)
  then have "unat (of_nat idx * 4096 :: u64) = idx * 4096"
    by (simp add: unat_word_ariths unsigned_of_nat take_bit_nat_eq_self)
  then have "unat ((of_nat idx * 4096 :: u64) div 4096) = idx"
    by (simp add: unat_div)
  then have q: "(of_nat idx * 4096 :: u64) div 4096 = of_nat idx"
    by (metis of_nat_unat ucast_id)
  have "sint (ucast (of_nat idx :: u64) :: u32) = int idx"
    using \<open>idx < 2 ^ 31\<close>
    by (simp add: unsigned_of_nat take_bit_nat_eq_self signed_of_nat signed_take_bit_int_eq_self)
  then show ?thesis
    using assms by (simp add: frame_index_def page_addr_def q region_ok_def Let_def)
qed

lemma page_addr_props:
  assumes "region_ok b" and "idx < total_pages b"
  shows "unat (page_addr b idx) = unat (base_addr b) + idx * 4096" "page_addr b idx \<noteq> 0"
proof -
  have b: "unat (base_addr b) + total_pages b * 4096 \<le> 2 ^ 64" "0 < unat (base_addr b)"
    "idx < 2 ^ 31"
    using assms by (simp_all add: region_ok_def)
  have "unat (of_nat idx * 4096 :: u64) = idx * 4096"
    using b(3) by (simp add: unat_word_ariths unsigned_of_nat take_bit_nat_eq_self)
  moreover have "unat (base_addr b) + idx * 4096 < 2 ^ 64" using b(1) assms(2) by linarith
  ultimately show u: "unat (page_addr b idx) = unat (base_addr b) + idx * 4096"
    by (simp add: page_addr_def unat_word_ariths)
  then show "page_addr b idx \<noteq> 0" using b(2) by (metis add_gr_0 less_numeral_extra(3) unat_0)
qed

lemma used_blockD:
  assumes "buddy_inv b" and "(x, ord, st) \<in> used_blocks b"
  shows "x < total_pages b" "fits (total_pages b) x ord" "f_order (frame_array b ! x) = int ord"
    "f_status (frame_array b ! x) = st" "st \<noteq> FRAME_FREE" "st \<noteq> FRAME_BUDDY"
proof -
  have p: "parts (frame_array b) {}" and l: "length (frame_array b) = total_pages b"
    using assms(1) by (simp_all add: buddy_inv_def region_ok_def)
  have x: "x \<in> heads (frame_array b) {}" and o: "ord = nat (f_order (frame_array b ! x))"
    and s: "f_status (frame_array b ! x) \<noteq> FRAME_FREE" "f_status (frame_array b ! x) = st"
    using assms(2) by (auto simp: in_use_def)
  show "fits (total_pages b) x ord" "f_order (frame_array b ! x) = int ord"
    using parts_head [OF p x] o l by simp_all
  show "x < total_pages b" using x l by (simp add: heads_def)
  show "f_status (frame_array b ! x) = st" "st \<noteq> FRAME_FREE" using s by auto
  show "st \<noteq> FRAME_BUDDY" using x s by (auto simp: heads_def)
qed

lemma used_blocks_unique:
  "(x, i, st) \<in> used_blocks b \<Longrightarrow> (x, j, st') \<in> used_blocks b \<Longrightarrow> i = j \<and> st = st'"
  by (auto simp: in_use_def)

lemma used_blocks_disjoint:
  assumes b: "buddy_inv b" and x: "(x, i, st) \<in> used_blocks b" and y: "(y, j, st') \<in> used_blocks b"
    and n: "x \<noteq> y"
  shows "block x i \<inter> block y j = {}"
proof -
  have o: "f_order (frame_array b ! x) = int i" "f_order (frame_array b ! y) = int j"
    using used_blockD(3) [OF b] x y by auto
  have "x \<in> heads (frame_array b) {}" "y \<in> heads (frame_array b) {}"
    using x y by (auto simp: in_use_def)
  then have "blk (frame_array b) x \<inter> blk (frame_array b) y = {}"
    using b parts_disjoint n unfolding buddy_inv_def by blast
  then show ?thesis by (simp add: blk_def o)
qed

definition has_room :: "buddy_allocator \<Rightarrow> nat \<Rightarrow> bool" where
  "has_room b ord \<longleftrightarrow> buddy_find (freelists b) ord \<noteq> None"

lemma buddy_alloc_full: "\<not> has_room b ord \<Longrightarrow> buddy_alloc ord b = Some (0, b)"
  by (simp add: buddy_alloc_def has_room_def)

lemma buddy_alloc_room:
  assumes b: "buddy_inv b" and r: "has_room b ord"
  shows "\<exists>idx b'. buddy_alloc ord b = Some (page_addr b idx, b') \<and> buddy_inv b' \<and>
    used_blocks b' = insert (idx, ord, FRAME_ALLOC) (used_blocks b) \<and> fits (total_pages b) idx ord \<and>
    (\<forall>y j st. (y, j, st) \<in> used_blocks b \<longrightarrow> y \<noteq> idx \<and> block idx ord \<inter> block y j = {}) \<and>
    f_status (frame_array b' ! idx) = FRAME_ALLOC \<and>
    base_addr b' = base_addr b \<and> total_pages b' = total_pages b"
proof -
  obtain i where i: "buddy_find (freelists b) ord = Some i" using r by (auto simp: has_room_def)
  define idx where "idx = hd (freelists b ! i)"
  have il: "ord \<le> i" "i \<le> MAX_ORDER" and x: "idx \<in> set (freelists b ! i)"
    using buddy_find_Some [OF i] by (auto simp: idx_def)
  have h: "hole_inv idx i (take_free idx i b)"
    and u: "in_use (frame_array b) (block idx i) = used_blocks b"
    using hole_open_free [OF b il(2) x] by auto
  obtain b1 where b1: "buddy_split ord idx i (take_free idx i b) = Some b1" "hole_inv idx ord b1"
    "in_use (frame_array b1) (block idx ord) = used_blocks b" "base_addr b1 = base_addr b"
    using buddy_split_inv [OF h il(1)] u by auto
  define b' where "b' = set_frame idx (int ord) FRAME_ALLOC b1"
  have inv: "buddy_inv b'" "used_blocks b' = insert (idx, ord, FRAME_ALLOC) (used_blocks b)"
    using hole_close_used [OF b1(2), of FRAME_ALLOC] b1(3) by (simp_all add: b'_def)
  have t: "total_pages b1 = total_pages b"
    using b1(1) by (auto dest: buddy_split_total)
  have f: "fits (total_pages b) idx ord" using b1(2) t by (simp add: hole_inv_def)
  have "y \<noteq> idx \<and> block idx ord \<inter> block y j = {}" if "(y, j, st) \<in> used_blocks b" for y j st
  proof -
    have "(y, j, st) \<in> in_use (frame_array b) (block idx i)" using that u by simp
    then have "y \<notin> block idx i" by (auto simp: in_use_def heads_def)
    then have "y \<noteq> idx" by auto
    then show ?thesis using used_blocks_disjoint [OF inv(1)] that inv(2) by blast
  qed
  moreover have "f_status (frame_array b' ! idx) = FRAME_ALLOC"
    using f fits_less [OF f] b1(2) t by (simp add: b'_def hole_inv_def region_ok_def)
  moreover have "buddy_alloc ord b = Some (page_addr b idx, b')"
    using i b1(1) by (simp add: buddy_alloc_def idx_def b'_def Let_def)
  moreover have "base_addr b' = base_addr b" "total_pages b' = total_pages b"
    using b1(4) t by (simp_all add: b'_def)
  ultimately show ?thesis
    using inv f by (intro exI [of _ idx] exI [of _ b'] conjI allI impI) simp_all
qed

lemma buddy_merge_inv:
  "hole_inv idx ord b \<Longrightarrow> f_status (frame_array b ! idx) = FRAME_BUDDY \<Longrightarrow>
   buddy_merge idx ord b = (i, r, b') \<Longrightarrow>
   hole_inv i r b' \<and> in_use (frame_array b') (block i r) = in_use (frame_array b) (block idx ord) \<and>
   base_addr b' = base_addr b \<and> total_pages b' = total_pages b"
proof (induction idx ord b rule: buddy_merge.induct)
  case (1 idx ord b)
  let ?k = "idx XOR 2 ^ ord"
  show ?case
  proof (cases "ord < MAX_ORDER \<and> ?k < total_pages b \<and>
      f_status (frame_array b ! ?k) = FRAME_FREE \<and> f_order (frame_array b ! ?k) = int ord")
    case True
    let ?b = "set_frame ?k (-1) FRAME_BUDDY (take_free ?k ord b)"
    have m: "min idx ?k = (if ?k < idx then ?k else idx)" by (simp add: min_def)
    have "buddy_merge idx ord b = buddy_merge (min idx ?k) (Suc ord) ?b"
      using True unfolding m by (subst buddy_merge.simps) (simp add: Let_def)
    moreover note hm = hole_merge [OF 1(2,3) _ refl, folded m]
    ultimately show ?thesis
      using 1(1) [OF _ refl] 1(4) True hm unfolding m by (simp add: not_le)
  next
    case False
    then have "buddy_merge idx ord b = (idx, ord, b)"
      by (subst buddy_merge.simps) (auto simp: Let_def)
    then show ?thesis using 1 by simp
  qed
qed

lemma buddy_free_used:
  assumes b: "buddy_inv b" and x: "(idx, ord, st) \<in> used_blocks b"
  shows "\<exists>b'. buddy_free (page_addr b idx) b = Some b' \<and> buddy_inv b' \<and>
    used_blocks b' = used_blocks b - {(idx, ord, st)} \<and>
    base_addr b' = base_addr b \<and> total_pages b' = total_pages b"
proof -
  let ?b1 = "set_frame idx (-1) FRAME_BUDDY b"
  have r: "region_ok b" using b by (simp add: buddy_inv_def)
  have h: "hole_inv idx ord ?b1" "f_order (frame_array b ! idx) = int ord" "ord \<le> MAX_ORDER"
    "in_use (frame_array ?b1) (block idx ord) = used_blocks b - {(idx, ord, st)}"
    using hole_open_used [OF b x] by auto
  have il: "idx < total_pages b" by (rule used_blockD(1) [OF b x])
  have s: "f_status (frame_array ?b1 ! idx) = FRAME_BUDDY"
    using il r by (simp add: region_ok_def)
  obtain i r b2 where m: "buddy_merge idx ord ?b1 = (i, r, b2)" by (metis prod_cases3)
  have m2: "hole_inv i r b2" "in_use (frame_array b2) (block i r) = used_blocks b - {(idx, ord, st)}"
    "base_addr b2 = base_addr b" "total_pages b2 = total_pages b"
    using buddy_merge_inv [OF h(1) s m] h(4) by auto
  have "buddy_free (page_addr b idx) b = Some (put_free i r b2)"
    using frame_index_addr [OF r il] h(2,3) m by (simp add: buddy_free_def)
  then show ?thesis using hole_close_free [OF m2(1)] m2 by simp
qed

lemma buddy_init_inv:
  assumes "n < 2 ^ 31" and "0 < unat base" and "4096 dvd unat base" and "unat base + n * 4096 \<le> 2 ^ 64"
  shows "buddy_inv (buddy_init base n)" "used_blocks (buddy_init base n) = {(x, 0, FRAME_ALLOC) | x. x < n}"
proof -
  let ?b = "buddy_init base n"
  have h: "heads (frame_array ?b) {} = {..<n}"
    by (auto simp: heads_def buddy_init_def)
  have fr: "frame_array ?b ! x = \<lparr>f_order = 0, f_status = FRAME_ALLOC\<rparr>" if "x < n" for x
    using that by (simp add: buddy_init_def)
  have bl: "blk (frame_array ?b) x = {x}" if "x < n" for x
    using fr [OF that] by (auto simp: blk_def block_def)
  have l: "length (frame_array ?b) = n" by (simp add: buddy_init_def)
  have "parts (frame_array ?b) {}"
    unfolding parts_def h using bl fr by (simp add: fits_def l MAX_ORDER_def Suc_le_eq)
  moreover have "free_at (frame_array ?b) {} i = {}" for i
    unfolding free_at_def h using fr by auto
  then have "lists_ok ?b {}"
    by (simp add: lists_ok_def buddy_init_def MAX_ORDER_def nth_Cons' numeral_eq_Suc)
  moreover have "region_ok ?b" using assms by (simp add: region_ok_def buddy_init_def)
  ultimately show "buddy_inv ?b" by (simp add: buddy_inv_def)
  show "used_blocks ?b = {(x, 0, FRAME_ALLOC) | x. x < n}"
    unfolding in_use_def h using fr by auto
qed


subsection \<open>Properties\<close>

text \<open>A single free page, for the witnesses.\<close>

definition one_page_buddy :: buddy_allocator where
  "one_page_buddy =
     \<lparr>frame_array = [\<lparr>f_order = 0, f_status = FRAME_FREE\<rparr>],
      freelists = [0] # replicate 10 [], freelists_size = 1 # replicate 10 0,
      base_addr = 4096, total_pages = 1\<rparr>"

lemma one_page_used: "used_blocks one_page_buddy = {}"
  by (auto simp: in_use_def heads_def one_page_buddy_def)

lemma one_page_buddy_inv: "buddy_inv one_page_buddy"
proof -
  let ?b = "buddy_init 4096 1"
  have u: "(0, 0, FRAME_ALLOC) \<in> used_blocks ?b" and b: "buddy_inv ?b"
    using buddy_init_inv [of 1 4096] by auto
  have "buddy_free (page_addr ?b 0) ?b = Some one_page_buddy" by code_simp
  then show ?thesis using buddy_free_used [OF b u] by simp
qed

text \<open>C20: While the buddy system has a free block of at least the requested order,
  \<open>buddy_alloc\<close> returns an aligned block of exactly that order inside the managed pages,
  disjoint from every block in use, and keeps the partition of the frames and the free
  lists intact.\<close>

theorem buddy_alloc_block:
  assumes "buddy_inv b" and "has_room b ord"
  shows "\<exists>idx b'. buddy_alloc ord b = Some (page_addr b idx, b') \<and> buddy_inv b' \<and>
    used_blocks b' = insert (idx, ord, FRAME_ALLOC) (used_blocks b) \<and>
    2 ^ ord dvd idx \<and> idx + 2 ^ ord \<le> total_pages b \<and>
    (\<forall>y j st. (y, j, st) \<in> used_blocks b \<longrightarrow> block idx ord \<inter> block y j = {})"
  using buddy_alloc_room [OF assms] unfolding fits_def by blast

lemma one_page_room: "has_room one_page_buddy 0"
  unfolding has_room_def by (subst buddy_find.simps) (simp add: one_page_buddy_def)

lemma buddy_alloc_block_witness:
  "\<exists>idx b'. buddy_alloc 0 one_page_buddy = Some (page_addr one_page_buddy idx, b') \<and> buddy_inv b' \<and>
    idx + 1 \<le> 1"
  using buddy_alloc_block [OF one_page_buddy_inv one_page_room] by (simp add: one_page_buddy_def) blast

text \<open>C17: \<open>buddy_free\<close> of a block in use returns, gives exactly that block back, and keeps the
  invariant through all merges.\<close>

theorem buddy_free_block:
  assumes "buddy_inv b" and "(idx, ord, st) \<in> used_blocks b"
  shows "\<exists>b'. buddy_free (page_addr b idx) b = Some b' \<and> buddy_inv b' \<and>
    used_blocks b' = used_blocks b - {(idx, ord, st)}"
  using buddy_free_used [OF assms] by blast

lemma buddy_free_block_witness:
  "\<exists>b'. buddy_free (page_addr (buddy_init 4096 2) 1) (buddy_init 4096 2) = Some b' \<and> buddy_inv b' \<and>
    used_blocks b' = {(0, 0, FRAME_ALLOC)}"
proof -
  have i: "buddy_inv (buddy_init 4096 2)" "used_blocks (buddy_init 4096 2) = {(x, 0, FRAME_ALLOC) | x. x < 2}"
    using buddy_init_inv [of 2 4096] by auto
  have "used_blocks (buddy_init 4096 2) - {(1, 0, FRAME_ALLOC)} = {(0, 0, FRAME_ALLOC)}"
    unfolding i(2) by (auto simp: less_2_cases_iff)
  moreover have "(1, 0, FRAME_ALLOC) \<in> used_blocks (buddy_init 4096 2)" unfolding i(2) by simp
  ultimately show ?thesis using buddy_free_block [OF i(1), of 1 0 FRAME_ALLOC] by simp
qed

end
