(* ===== verification/Slab.thy ===== *)
theory Slab
  imports Buddy
begin

text \<open>
  The chunk pools of src/lab7/src/memory.c on top of the buddy system: \<open>malloc_init\<close>,
  \<open>allocate\<close> and \<open>free\<close>.

  A request above 2048 bytes is a block of pages; a smaller one is a chunk of the first
  pool that is large enough.  An empty pool takes one page from the buddy system, marks its
  frame with the chunk size and cuts it up.  A pool keeps the addresses of its free chunks
  as the HOL list that its \<open>list_head\<close> ring represents (theory Linked_List); the links that
  the code stores inside free chunks are not part of the byte memory of the model.

  The abstract state is the set \<open>live\<close> of the regions handed out.  The interface
  \<open>allocator\<close> states what a client may rely on, and the model is an instance of it.
\<close>

record chunk_pool =
  chunk_size :: nat
  free_list :: "u64 list"
  freelist_size :: int

record slab =
  page_allocator :: buddy_allocator
  pools :: "chunk_pool list"

subsection \<open>The operations\<close>

text \<open>The static table \<open>pools[]\<close> with its end mark.\<close>

definition chunk_sizes :: "nat list" where
  "chunk_sizes = [16, 32, 64, 128, 256, 512, 1024, 2048]"

definition initial_pools :: "chunk_pool list" where
  "initial_pools =
     map (\<lambda>c. \<lparr>chunk_size = c, free_list = [], freelist_size = 0\<rparr>) (chunk_sizes @ [0])"

fun malloc_init :: "chunk_pool list \<Rightarrow> chunk_pool list" where
  "malloc_init [] = []"
| "malloc_init (p # ps) =
     (if chunk_size p \<noteq> 0 then p\<lparr>free_list := [], freelist_size := 0\<rparr> # malloc_init ps
      else p # ps)"

text \<open>\<open>while ((PAGE_SIZE << order) < size) order++\<close>: a shift by 64 or more is undefined.\<close>

function alloc_order :: "u64 \<Rightarrow> nat \<Rightarrow> nat option" where
  "alloc_order sz ord =
     (if 64 \<le> ord then None
      else if push_bit ord 4096 < sz then alloc_order sz (Suc ord) else Some ord)"
  by pat_completeness auto
termination by (relation "measure (\<lambda>(sz, ord). 64 - ord)") auto

declare alloc_order.simps [simp del]

text \<open>The first pool whose chunks are large enough.\<close>

fun pool_search :: "chunk_pool list \<Rightarrow> nat \<Rightarrow> nat \<Rightarrow> nat option" where
  "pool_search [] n i = None"
| "pool_search (p # ps) n i =
     (if chunk_size p = 0 then None
      else if n \<le> chunk_size p then Some i else pool_search ps n (Suc i))"

text \<open>The pool whose chunks have exactly the size that a frame records.\<close>

fun pool_match :: "chunk_pool list \<Rightarrow> nat \<Rightarrow> nat \<Rightarrow> nat option" where
  "pool_match [] n i = None"
| "pool_match (p # ps) n i =
     (if chunk_size p = 0 then None
      else if chunk_size p = n then Some i else pool_match ps n (Suc i))"

definition page_chunks :: "u64 \<Rightarrow> nat \<Rightarrow> u64 list" where
  "page_chunks page c = map (\<lambda>i. page + of_nat (i * c)) [0..<4096 div c]"

text \<open>Mark the page with the chunk size and append its chunks to the pool.\<close>

definition pool_refill :: "nat \<Rightarrow> u64 \<Rightarrow> nat \<Rightarrow> slab \<Rightarrow> slab" where
  "pool_refill i page idx s =
     (let p = pools s ! i;
          b = page_allocator s;
          f = frame_array b ! idx
      in s\<lparr>page_allocator := b\<lparr>frame_array := (frame_array b)[idx := f\<lparr>f_status := int (chunk_size p)\<rparr>]\<rparr>,
           pools := (pools s)[i := p\<lparr>free_list := free_list p @ page_chunks page (chunk_size p),
             freelist_size := freelist_size p + int (4096 div chunk_size p)\<rparr>]\<rparr>)"

definition pool_pop :: "nat \<Rightarrow> slab \<Rightarrow> u64 \<times> slab" where
  "pool_pop i s =
     (let p = pools s ! i
      in (hd (free_list p),
          s\<lparr>pools := (pools s)[i := p\<lparr>free_list := tl (free_list p), freelist_size := freelist_size p - 1\<rparr>]\<rparr>))"

definition pool_push :: "nat \<Rightarrow> u64 \<Rightarrow> slab \<Rightarrow> slab" where
  "pool_push i ptr s =
     (let p = pools s ! i
      in s\<lparr>pools := (pools s)[i := p\<lparr>free_list := ptr # free_list p, freelist_size := freelist_size p + 1\<rparr>]\<rparr>)"

definition slab_alloc :: "u64 \<Rightarrow> slab \<Rightarrow> (u64 \<times> slab) option" where
  "slab_alloc sz s =
     (if 2048 < sz then do {
        ord \<leftarrow> alloc_order sz 0;
        (p, b) \<leftarrow> buddy_alloc ord (page_allocator s);
        Some (p, s\<lparr>page_allocator := b\<rparr>)
      } else do {
        i \<leftarrow> pool_search (pools s) (unat sz) 0;
        if free_list (pools s ! i) = [] then do {
          (page, b) \<leftarrow> buddy_alloc 0 (page_allocator s);
          let s1 = s\<lparr>page_allocator := b\<rparr>;
          if page = 0 then Some (0, s1)
          else do {
            idx \<leftarrow> frame_index page b;
            Some (pool_pop i (pool_refill i page idx s1))
          }
        } else Some (pool_pop i s)
      })"

text \<open>\<open>free\<close> of a non-NULL pointer; a frame with any other status is silently left alone.\<close>

definition slab_free :: "u64 \<Rightarrow> slab \<Rightarrow> slab option" where
  "slab_free ptr s = do {
     idx \<leftarrow> frame_index ptr (page_allocator s);
     let st = f_status (frame_array (page_allocator s) ! idx);
     if st = FRAME_ALLOC then do {
       b \<leftarrow> buddy_free ptr (page_allocator s);
       Some (s\<lparr>page_allocator := b\<rparr>)
     }
     else if 16 \<le> st then
       (case pool_match (pools s) (nat st) 0 of
          None \<Rightarrow> Some s
        | Some i \<Rightarrow> Some (pool_push i ptr s))
     else Some s
   }"

subsection \<open>Regions and the invariant\<close>

definition chunks :: "buddy_allocator \<Rightarrow> nat \<Rightarrow> nat \<Rightarrow> u64 set" where
  "chunks b x c = set (page_chunks (page_addr b x) c)"

definition all_free :: "slab \<Rightarrow> u64 set" where
  "all_free s = (\<Union>p \<in> set (pools s). set (free_list p))"

definition pool_ok :: "buddy_allocator \<Rightarrow> chunk_pool \<Rightarrow> bool" where
  "pool_ok b p \<longleftrightarrow> distinct (free_list p) \<and> freelist_size p = int (length (free_list p)) \<and>
     (\<forall>a \<in> set (free_list p).
        \<exists>x. (x, 0, int (chunk_size p)) \<in> used_blocks b \<and> a \<in> chunks b x (chunk_size p))"

text \<open>Every block in use is allocated, reserved, or one page cut into chunks.\<close>

definition used_ok :: "buddy_allocator \<Rightarrow> bool" where
  "used_ok b \<longleftrightarrow> (\<forall>x ord st. (x, ord, st) \<in> used_blocks b \<longrightarrow>
     st = FRAME_ALLOC \<or> st = FRAME_RESERVED \<or> ord = 0 \<and> (\<exists>c \<in> set chunk_sizes. st = int c))"

definition slab_inv :: "slab \<Rightarrow> bool" where
  "slab_inv s \<longleftrightarrow>
     buddy_inv (page_allocator s) \<and> used_ok (page_allocator s) \<and>
     map chunk_size (pools s) = chunk_sizes @ [0] \<and>
     (\<forall>p \<in> set (pools s). pool_ok (page_allocator s) p)"

text \<open>The regions in the hands of clients, as pairs of address and size: for each block in
  use, the block itself or the chunks of its page that are not in a pool.\<close>

fun handed_out :: "buddy_allocator \<Rightarrow> u64 set \<Rightarrow> nat \<times> nat \<times> int \<Rightarrow> (u64 \<times> nat) set" where
  "handed_out b F (x, ord, st) =
     (if st = FRAME_ALLOC then {(page_addr b x, 4096 * 2 ^ ord)}
      else if st = FRAME_RESERVED then {}
      else (\<lambda>a. (a, nat st)) ` (chunks b x (nat st) - F))"

definition live_of :: "buddy_allocator \<Rightarrow> u64 set \<Rightarrow> (u64 \<times> nat) set" where
  "live_of b F = (\<Union>t \<in> used_blocks b. handed_out b F t)"

definition live :: "slab \<Rightarrow> (u64 \<times> nat) set" where
  "live s = live_of (page_allocator s) (all_free s)"

definition region :: "u64 \<times> nat \<Rightarrow> nat set" where
  "region r = {unat (fst r) ..< unat (fst r) + snd r}"

text \<open>The bytes of a block, and the bytes that are reserved for the kernel.\<close>

definition span :: "buddy_allocator \<Rightarrow> nat \<Rightarrow> nat \<Rightarrow> nat set" where
  "span b x ord =
     {unat (base_addr b) + 4096 * x ..< unat (base_addr b) + 4096 * (x + 2 ^ ord)}"

definition reserved :: "slab \<Rightarrow> nat set" where
  "reserved s = (\<Union>(x, ord, st) \<in> {t \<in> used_blocks (page_allocator s). snd (snd t) = FRAME_RESERVED}.
     span (page_allocator s) x ord)"

subsection \<open>Addresses of chunks\<close>

lemma chunk_sizesD:
  assumes "c \<in> set chunk_sizes"
  shows "16 \<le> c" "c \<le> 2048" "c dvd 4096" "0 < 4096 div c"
  using assms by (auto simp: chunk_sizes_def)

lemma mem_chunks: "a \<in> chunks b x c \<longleftrightarrow> (\<exists>k < 4096 div c. a = page_addr b x + of_nat (k * c))"
  by (auto simp: chunks_def page_chunks_def)

lemma chunk_offset:
  assumes "c \<in> set chunk_sizes" and "k < 4096 div c"
  shows "k * c + c \<le> (4096::nat)"
proof -
  have "Suc k * c \<le> 4096 div c * c" using assms(2) by (intro mult_le_mono1) simp
  also have "\<dots> = 4096" using chunk_sizesD(3) [OF assms(1)] by simp
  finally show ?thesis by simp
qed

lemma page_offset:
  assumes r: "region_ok b" and x: "x < total_pages b" and k: "k < 4096"
  shows "unat (page_addr b x + of_nat k) = unat (base_addr b) + 4096 * x + k"
    "frame_index (page_addr b x + of_nat k) b = Some x"
proof -
  have le: "unat (base_addr b) + (x * 4096 + k) < 2 ^ 64"
    using r x k unfolding region_ok_def by linarith
  have e: "page_addr b x + of_nat k = base_addr b + of_nat (x * 4096 + k)"
    by (simp add: page_addr_def)
  have u: "unat (of_nat (x * 4096 + k) :: u64) = x * 4096 + k"
    using le by (intro unat_of_nat64) linarith
  show "unat (page_addr b x + of_nat k) = unat (base_addr b) + 4096 * x + k"
    unfolding e using le u by (simp add: unat_word_ariths)
  have q: "(of_nat (x * 4096 + j) :: u64) div 4096 = of_nat x" if "j \<le> k" for j
  proof -
    have "unat (of_nat (x * 4096 + j) :: u64) = x * 4096 + j"
      using le that by (intro unat_of_nat64) linarith
    then have "unat ((of_nat (x * 4096 + j) :: u64) div 4096) = (x * 4096 + j) div 4096"
      by (simp only: unat_div) simp
    also have "\<dots> = x" using k that by simp
    finally show ?thesis by (metis of_nat_unat ucast_id)
  qed
  show "frame_index (page_addr b x + of_nat k) b = Some x"
    using frame_index_addr [OF r x] q [of k] q [of 0] unfolding e
    by (simp add: frame_index_def page_addr_def Let_def split: if_splits)
qed

lemma chunk_addr:
  assumes b: "buddy_inv b" and x: "(x, 0, int c) \<in> used_blocks b" and a: "a \<in> chunks b x c"
    and c: "c \<in> set chunk_sizes"
  shows "frame_index a b = Some x" "region (a, c) \<subseteq> span b x 0" "a \<noteq> 0"
proof -
  have r: "region_ok b" and xl: "x < total_pages b" using b used_blockD(1) [OF b x] by (simp_all add: buddy_inv_def)
  obtain k where k: "k < 4096 div c" "a = page_addr b x + of_nat (k * c)"
    using a by (auto simp: mem_chunks)
  have o: "k * c + c \<le> 4096" "0 < c" using chunk_offset [OF c k(1)] chunk_sizesD [OF c] by auto
  then have "k * c < 4096" by simp
  note po = page_offset [OF r xl this, folded k(2)]
  show "frame_index a b = Some x" by (rule po(2))
  show "region (a, c) \<subseteq> span b x 0" using po(1) o by (auto simp: region_def span_def)
  show "a \<noteq> 0" using po(1) r by (auto simp: region_ok_def)
qed

lemma page_region:
  assumes b: "buddy_inv b" and x: "(x, ord, st) \<in> used_blocks b"
  shows "region (page_addr b x, 4096 * 2 ^ ord) = span b x ord" "page_addr b x \<noteq> 0"
    "frame_index (page_addr b x) b = Some x"
proof -
  have r: "region_ok b" and xl: "x < total_pages b" using b used_blockD(1) [OF b x] by (simp_all add: buddy_inv_def)
  show "region (page_addr b x, 4096 * 2 ^ ord) = span b x ord"
    using page_offset(1) [OF r xl, of 0] by (simp add: region_def span_def algebra_simps)
  show "page_addr b x \<noteq> 0" "frame_index (page_addr b x) b = Some x"
    using page_addr_props(2) [OF r xl] frame_index_addr [OF r xl] by simp_all
qed

lemma span_disjoint:
  assumes "block x i \<inter> block y j = {}"
  shows "span b x i \<inter> span b y j = {}"
proof -
  have x: "x \<in> block x i" and y: "y \<in> block y j" by simp_all
  have "x + 2 ^ i \<le> y \<or> y + 2 ^ j \<le> x"
    using assms x y unfolding block_def by (auto simp: disjoint_iff not_le not_less)
  then show ?thesis by (auto simp: span_def)
qed

lemma chunks_disjoint:
  assumes b: "buddy_inv b" and x: "(x, 0, int c) \<in> used_blocks b" and c: "c \<in> set chunk_sizes"
    and a: "a \<in> chunks b x c" "a' \<in> chunks b x c" "a \<noteq> a'"
  shows "region (a, c) \<inter> region (a', c) = {}"
proof -
  have r: "region_ok b" and xl: "x < total_pages b" using b used_blockD(1) [OF b x] by (simp_all add: buddy_inv_def)
  obtain k k' where k: "k < 4096 div c" "a = page_addr b x + of_nat (k * c)"
    and k': "k' < 4096 div c" "a' = page_addr b x + of_nat (k' * c)"
    using a by (auto simp: mem_chunks)
  have o: "k * c + c \<le> 4096" "k' * c + c \<le> 4096" "0 < c"
    using chunk_offset [OF c k(1)] chunk_offset [OF c k'(1)] chunk_sizesD [OF c] by auto
  have u: "unat a = unat (base_addr b) + 4096 * x + k * c"
    "unat a' = unat (base_addr b) + 4096 * x + k' * c"
    using page_offset(1) [OF r xl, of "k * c"] page_offset(1) [OF r xl, of "k' * c"] o k k' by simp_all
  have "k \<noteq> k'" using k k' a(3) by auto
  then have "Suc k * c \<le> k' * c \<or> Suc k' * c \<le> k * c"
    using mult_le_mono1 [of "Suc k" k' c] mult_le_mono1 [of "Suc k'" k c] by linarith
  then show ?thesis using u by (auto simp: region_def)
qed

lemma chunks_distinct:
  assumes b: "region_ok b" and x: "x < total_pages b" and c: "c \<in> set chunk_sizes"
  shows "distinct (page_chunks (page_addr b x) c)"
proof -
  have "k = k'" if k: "k < 4096 div c" "k' < 4096 div c"
    and e: "page_addr b x + of_nat (k * c) = page_addr b x + of_nat (k' * c)" for k k'
  proof -
    have o: "k * c < 4096" "k' * c < 4096" "0 < c"
      using chunk_offset [OF c k(1)] chunk_offset [OF c k(2)] chunk_sizesD [OF c] by auto
    have "unat (base_addr b) + 4096 * x + k * c = unat (base_addr b) + 4096 * x + k' * c"
      by (simp only: page_offset(1) [OF b x o(1), symmetric] page_offset(1) [OF b x o(2), symmetric] e)
    then show ?thesis using o(3) by simp
  qed
  then show ?thesis by (auto simp: page_chunks_def distinct_map inj_on_def)
qed


subsection \<open>The regions in use are disjoint\<close>

lemma live_ofE:
  assumes "buddy_inv b" and "used_ok b" and "r \<in> live_of b F"
  obtains (page) x ord where "(x, ord, FRAME_ALLOC) \<in> used_blocks b" "r = (page_addr b x, 4096 * 2 ^ ord)"
    "region r = span b x ord"
  | (chunk) x c a where "(x, 0, int c) \<in> used_blocks b" "c \<in> set chunk_sizes" "r = (a, c)"
    "a \<in> chunks b x c" "a \<notin> F" "region r \<subseteq> span b x 0" "frame_index a b = Some x"
proof -
  obtain x ord st where t: "(x, ord, st) \<in> used_blocks b" "r \<in> handed_out b F (x, ord, st)"
    using assms(3) by (auto simp: live_of_def)
  have "st = FRAME_ALLOC \<or> st = FRAME_RESERVED \<or> ord = 0 \<and> (\<exists>c \<in> set chunk_sizes. st = int c)"
    using assms(2) t(1) by (auto simp: used_ok_def)
  then show thesis
  proof (elim disjE conjE bexE)
    assume "st = FRAME_ALLOC"
    then show thesis using t page_region(1) [OF assms(1) t(1)] by (intro page [of x ord]) auto
  next
    assume "st = FRAME_RESERVED"
    then show thesis using t by simp
  next
    fix c assume c: "ord = 0" "c \<in> set chunk_sizes" "st = int c"
    then obtain a where "a \<in> chunks b x c - F" "r = (a, c)" using t(2) by auto
    then show thesis using t(1) c chunk_addr [OF assms(1), of x c a] by (intro chunk [of x c a]) auto
  qed
qed

lemma live_of_disjoint:
  assumes b: "buddy_inv b" "used_ok b" and r: "r \<in> live_of b F" and r': "r' \<in> live_of b F"
    and n: "r \<noteq> r'"
  shows "region r \<inter> region r' = {}"
proof -
  note ds = used_blocks_disjoint [OF b(1)]
  have apart: "region r \<inter> region r' = {}"
    if "(x, i, st) \<in> used_blocks b" "(y, j, st') \<in> used_blocks b" "x \<noteq> y"
      "region r \<subseteq> span b x i" "region r' \<subseteq> span b y j" for x i st y j st'
    using span_disjoint [OF ds [OF that(1-3)], of b] that(4,5) by blast
  from b r show ?thesis
  proof (cases rule: live_ofE)
    case p: (page x i)
    from b r' show ?thesis
    proof (cases rule: live_ofE)
      case q: (page y j)
      have "x \<noteq> y" using p q n used_blocks_unique [of x i _ b j] by auto
      then show ?thesis using apart p q by blast
    next
      case q: (chunk y c a)
      have "x \<noteq> y" using p q used_blocks_unique [of x i FRAME_ALLOC b 0 "int c"] by auto
      then show ?thesis using apart p q by blast
    qed
  next
    case p: (chunk x c a)
    from b r' show ?thesis
    proof (cases rule: live_ofE)
      case q: (page y j)
      have "x \<noteq> y" using p q used_blocks_unique [of x 0 "int c" b j FRAME_ALLOC] by auto
      then show ?thesis using apart p q by blast
    next
      case q: (chunk y c' a')
      show ?thesis
      proof (cases "x = y")
        case True
        then have "c = c'" using used_blocks_unique [OF p(1), of 0 "int c'"] q(1) by auto
        then show ?thesis using chunks_disjoint [OF b(1) p(1,2,4), of a'] p(3) q(3,4) n True by auto
      next
        case False
        then show ?thesis using apart p q by blast
      qed
    qed
  qed
qed

lemma live_of_region:
  assumes b: "buddy_inv b" "used_ok b" and r: "(p, n) \<in> live_of b F"
  shows "p \<noteq> 0" "0 < n" "unat p + n \<le> 2 ^ 64"
proof -
  have sp: "z \<le> 2 ^ 64" if "(x, i, st) \<in> used_blocks b" "z \<le> unat (base_addr b) + 4096 * (x + 2 ^ i)"
    for x i st z
  proof -
    have "x + 2 ^ i \<le> total_pages b" using used_blockD(2) [OF b(1) that(1)] by (simp add: fits_def)
    then have "4096 * (x + 2 ^ i) \<le> 4096 * total_pages b" by (intro mult_le_mono2)
    moreover have "unat (base_addr b) + total_pages b * 4096 \<le> 2 ^ 64"
      using b(1) by (simp add: buddy_inv_def region_ok_def)
    ultimately show ?thesis using that(2) by linarith
  qed
  from b r have "p \<noteq> 0 \<and> 0 < n \<and> unat p + n \<le> 2 ^ 64"
  proof (cases rule: live_ofE)
    case t: (page x i)
    have r: "region_ok b" and xl: "x < total_pages b"
      using b used_blockD(1) [OF b(1) t(1)] by (simp_all add: buddy_inv_def)
    have "unat p = unat (base_addr b) + x * 4096" "p \<noteq> 0" using page_addr_props [OF r xl] t(2) by auto
    moreover have "unat p + n \<le> 2 ^ 64"
      using t(2) calculation by (intro sp [OF t(1)]) (simp add: algebra_simps)
    ultimately show ?thesis using t(2) by auto
  next
    case t: (chunk x c a)
    have n: "0 < n" using t(2,3) chunk_sizesD by fastforce
    have "unat p + n - 1 \<in> region (p, n)" using n by (auto simp: region_def)
    then have "unat p + n - 1 \<in> span b x 0" using t(3,6) by auto
    then have "unat p + n \<le> unat (base_addr b) + 4096 * (x + 2 ^ 0)"
      using n unfolding span_def atLeastLessThan_iff by linarith
    then show ?thesis using n sp [OF t(1)] chunk_addr(3) [OF b(1) t(1,4,2)] t(3) by auto
  qed
  then show "p \<noteq> 0" "0 < n" "unat p + n \<le> 2 ^ 64" by auto
qed


subsection \<open>Taking chunks from and returning them to a pool\<close>

lemma live_of_take:
  assumes b: "buddy_inv b" "used_ok b" and x: "(x, 0, int c) \<in> used_blocks b"
    and a: "a \<in> chunks b x c" and c: "c \<in> set chunk_sizes" and f: "a \<notin> F"
  shows "live_of b F = insert (a, c) (live_of b (insert a F))" "(a, c) \<notin> live_of b (insert a F)"
proof -
  have fi: "frame_index a b = Some x" using chunk_addr [OF b(1) x a c] by simp
  have st: "int c \<noteq> FRAME_ALLOC" "int c \<noteq> FRAME_RESERVED" by simp_all
  have in_h: "(a, c) \<in> handed_out b F (x, 0, int c)" using a f st by auto
  show "live_of b F = insert (a, c) (live_of b (insert a F))"
  proof (intro equalityI subsetI)
    fix r assume r: "r \<in> live_of b F"
    then obtain t where t: "t \<in> used_blocks b" "r \<in> handed_out b F t" by (auto simp: live_of_def)
    from b r have "r = (a, c) \<or> r \<in> handed_out b (insert a F) t"
    proof (cases rule: live_ofE)
      case (chunk y c' a')
      then have "a' = a \<Longrightarrow> c' = c" using fi used_blocks_unique [OF x, of 0 "int c'"] by auto
      then show ?thesis using t(2) chunk(3) by (cases t) (auto split: if_splits)
    next
      case (page y i)
      show ?thesis
      proof (rule disjI2)
        obtain z j st where tt: "t = (z, j, st)" by (cases t)
        have "st = FRAME_ALLOC \<or> 4096 * 2 ^ i = nat st"
          using t(2) page(2) unfolding tt by (auto split: if_splits)
        moreover have "nat st \<le> 2048"
        proof -
          have "st = FRAME_ALLOC \<or> st = FRAME_RESERVED \<or> (\<exists>c \<in> set chunk_sizes. st = int c)"
            using b(2) t(1) unfolding tt used_ok_def by blast
          then show ?thesis using chunk_sizesD(2) by (elim disjE bexE) simp_all
        qed
        then have "4096 * 2 ^ i \<noteq> nat st"
          using one_le_power [of "2::nat" i] by linarith
        ultimately show "r \<in> handed_out b (insert a F) t" using t(2) unfolding tt by auto
      qed
    qed
    then show "r \<in> insert (a, c) (live_of b (insert a F))" using t(1) by (auto simp: live_of_def)
  next
    fix r assume "r \<in> insert (a, c) (live_of b (insert a F))"
    then consider "r = (a, c)" | t where "t \<in> used_blocks b" "r \<in> handed_out b (insert a F) t"
      by (auto simp: live_of_def)
    then show "r \<in> live_of b F"
    proof cases
      case 1
      then show ?thesis using in_h x unfolding live_of_def by blast
    next
      case (2 t)
      then have "r \<in> handed_out b F t" by (cases t) (auto split: if_splits)
      then show ?thesis using 2(1) by (auto simp: live_of_def)
    qed
  qed
  show "(a, c) \<notin> live_of b (insert a F)"
  proof
    assume "(a, c) \<in> live_of b (insert a F)"
    with b show False
    proof (cases rule: live_ofE)
      case (page y i)
      then have "c = 4096 * 2 ^ i" by simp
      then have "4096 \<le> c" by simp
      then show ?thesis using chunk_sizesD(2) [OF c] by simp
    qed simp
  qed
qed

lemma all_free_index: "a \<in> all_free s \<longleftrightarrow> (\<exists>i < length (pools s). a \<in> set (free_list (pools s ! i)))"
proof -
  have "set (pools s) = (!) (pools s) ` {..<length (pools s)}"
    by (auto simp: set_conv_nth)
  then show ?thesis by (simp add: all_free_def Bex_def)
qed

lemma slab_freeD:
  assumes s: "slab_inv s" and i: "i < length (pools s)" and a: "a \<in> set (free_list (pools s ! i))"
  obtains x where "(x, 0, int (chunk_size (pools s ! i))) \<in> used_blocks (page_allocator s)"
    "a \<in> chunks (page_allocator s) x (chunk_size (pools s ! i))"
    "chunk_size (pools s ! i) \<in> set chunk_sizes" "frame_index a (page_allocator s) = Some x"
proof -
  let ?b = "page_allocator s" and ?c = "chunk_size (pools s ! i)"
  have b: "buddy_inv ?b" and p: "pool_ok ?b (pools s ! i)" and m: "map chunk_size (pools s) = chunk_sizes @ [0]"
    using s i by (simp_all add: slab_inv_def)
  from p a obtain x where x: "(x, 0, int ?c) \<in> used_blocks ?b" "a \<in> chunks ?b x ?c"
    by (auto simp: pool_ok_def)
  have "?c \<noteq> 0" using used_blockD(5) [OF b x(1)] by auto
  moreover have "?c \<in> set (chunk_sizes @ [0])" using i unfolding m [symmetric] by simp
  ultimately have c: "?c \<in> set chunk_sizes" by simp
  show thesis using x c chunk_addr(1) [OF b x c] by (intro that)
qed

lemma pools_distinct:
  assumes "slab_inv s" and "i < length (pools s)" and "j < length (pools s)"
    and "chunk_size (pools s ! i) = chunk_size (pools s ! j)"
  shows "i = j"
proof -
  have "map chunk_size (pools s) = chunk_sizes @ [0]" using assms(1) by (simp add: slab_inv_def)
  moreover have "distinct (chunk_sizes @ [0])" by (simp add: chunk_sizes_def)
  ultimately have "distinct (map chunk_size (pools s))" by simp
  then show ?thesis using assms(2-4) by (metis nth_eq_iff_index_eq length_map nth_map)
qed

lemma free_pool_unique:
  assumes "slab_inv s" and i: "i < length (pools s)" "a \<in> set (free_list (pools s ! i))"
    and j: "j < length (pools s)" "a \<in> set (free_list (pools s ! j))"
  shows "i = j"
proof -
  obtain x where x: "(x, 0, int (chunk_size (pools s ! i))) \<in> used_blocks (page_allocator s)"
    "frame_index a (page_allocator s) = Some x" by (rule slab_freeD [OF assms(1) i])
  obtain y where y: "(y, 0, int (chunk_size (pools s ! j))) \<in> used_blocks (page_allocator s)"
    "frame_index a (page_allocator s) = Some y" by (rule slab_freeD [OF assms(1) j])
  have "chunk_size (pools s ! i) = chunk_size (pools s ! j)"
    using x y used_blocks_unique [of x 0 _ "page_allocator s" 0] by fastforce
  then show ?thesis by (rule pools_distinct [OF assms(1) i(1) j(1)])
qed


text \<open>Replacing one pool by another of the same chunk size.\<close>

lemma slab_inv_upd:
  assumes s: "slab_inv s" and i: "i < length (pools s)" and c: "chunk_size p = chunk_size (pools s ! i)"
    and p: "pool_ok (page_allocator s) p"
  shows "slab_inv (s\<lparr>pools := (pools s)[i := p]\<rparr>)"
proof -
  have m: "map chunk_size ((pools s)[i := p]) = map chunk_size (pools s)"
    using i c by (intro nth_equalityI) (simp_all add: nth_list_update)
  have "\<forall>q \<in> set ((pools s)[i := p]). pool_ok (page_allocator s) q"
    using s p set_update_subset_insert [of "pools s" i p] by (auto simp: slab_inv_def)
  then show ?thesis using s m by (simp add: slab_inv_def)
qed

lemma all_free_upd:
  assumes "i < length (pools s)"
  shows "a \<in> all_free (s\<lparr>pools := (pools s)[i := p]\<rparr>) \<longleftrightarrow>
    a \<in> set (free_list p) \<or> (\<exists>j < length (pools s). j \<noteq> i \<and> a \<in> set (free_list (pools s ! j)))"
  using assms by (auto simp: all_free_index nth_list_update)

lemma pool_pop_inv:
  assumes s: "slab_inv s" and i: "i < length (pools s)" and ne: "free_list (pools s ! i) \<noteq> []"
  defines "c \<equiv> chunk_size (pools s ! i)"
  shows "\<exists>a s'. pool_pop i s = (a, s') \<and> slab_inv s' \<and> a \<noteq> 0 \<and> (a, c) \<notin> live s \<and>
    live s' = insert (a, c) (live s) \<and> page_allocator s' = page_allocator s"
proof -
  let ?b = "page_allocator s" and ?p = "pools s ! i"
  define a where "a = hd (free_list ?p)"
  define p' where "p' = ?p\<lparr>free_list := tl (free_list ?p), freelist_size := freelist_size ?p - 1\<rparr>"
  define s' where "s' = s\<lparr>pools := (pools s)[i := p']\<rparr>"
  have fl: "free_list ?p = a # free_list p'" using ne by (simp add: a_def p'_def)
  have ok: "pool_ok ?b ?p" using s i by (simp add: slab_inv_def)
  then have da: "a \<notin> set (free_list p')" using fl by (simp add: pool_ok_def)
  have aa: "a \<in> set (free_list ?p)" using fl by simp
  obtain x where x: "(x, 0, int c) \<in> used_blocks ?b" "a \<in> chunks ?b x c" "c \<in> set chunk_sizes"
    unfolding c_def by (rule slab_freeD [OF s i aa])
  have p': "chunk_size p' = chunk_size ?p" "freelist_size p' = freelist_size ?p - 1"
    by (simp_all add: p'_def)
  have "pool_ok ?b p'" using ok unfolding pool_ok_def p' fl by simp
  then have inv: "slab_inv s'" unfolding s'_def by (intro slab_inv_upd s i) (simp add: p'_def)
  have na: "a \<notin> all_free s'"
  proof -
    have "a \<notin> set (free_list (pools s ! j))" if "j < length (pools s)" "j \<noteq> i" for j
      using free_pool_unique [OF s that(1) _ i aa] that(2) by blast
    then show ?thesis unfolding s'_def all_free_upd [OF i] using da by blast
  qed
  have fs: "all_free s = insert a (all_free s')"
  proof (intro set_eqI)
    fix z
    have "z \<in> all_free s \<longleftrightarrow> z \<in> set (free_list ?p) \<or> (\<exists>j < length (pools s). j \<noteq> i \<and> z \<in> set (free_list (pools s ! j)))"
      using i by (auto simp: all_free_index)
    then show "z \<in> all_free s \<longleftrightarrow> z \<in> insert a (all_free s')"
      unfolding s'_def insert_iff all_free_upd [OF i] fl by auto
  qed
  have b: "buddy_inv ?b" "used_ok ?b" using s by (simp_all add: slab_inv_def)
  have pa: "page_allocator s' = ?b" by (simp add: s'_def)
  note tk = live_of_take [OF b x na]
  have "live s' = insert (a, c) (live s)" "(a, c) \<notin> live s" using tk by (simp_all add: live_def pa fs)
  moreover have "pool_pop i s = (a, s')" by (simp add: pool_pop_def Let_def a_def p'_def s'_def)
  ultimately show ?thesis using inv chunk_addr(3) [OF b(1) x] pa
    by (intro exI [of _ a] exI [of _ s'] conjI) assumption+
qed

lemma pool_push_inv:
  assumes s: "slab_inv s" and i: "i < length (pools s)" and c: "c = chunk_size (pools s ! i)"
    and l: "(a, c) \<in> live s" and x: "(x, 0, int c) \<in> used_blocks (page_allocator s)"
    "a \<in> chunks (page_allocator s) x c" "c \<in> set chunk_sizes" and na: "a \<notin> all_free s"
  shows "slab_inv (pool_push i a s) \<and> live (pool_push i a s) = live s - {(a, c)}"
proof -
  let ?b = "page_allocator s" and ?p = "pools s ! i"
  define p' where "p' = ?p\<lparr>free_list := a # free_list ?p, freelist_size := freelist_size ?p + 1\<rparr>"
  define s' where "s' = s\<lparr>pools := (pools s)[i := p']\<rparr>"
  have e: "pool_push i a s = s'" by (simp add: pool_push_def Let_def p'_def s'_def)
  have ok: "pool_ok ?b ?p" using s i by (simp add: slab_inv_def)
  have "a \<notin> set (free_list ?p)" using na i by (auto simp: all_free_index)
  then have "pool_ok ?b p'" using ok x c by (auto simp: pool_ok_def p'_def)
  then have inv: "slab_inv s'" unfolding s'_def by (intro slab_inv_upd s i) (simp add: p'_def)
  have fs: "all_free s' = insert a (all_free s)"
  proof (intro set_eqI)
    fix z
    have "z \<in> all_free s \<longleftrightarrow> z \<in> set (free_list ?p) \<or> (\<exists>j < length (pools s). j \<noteq> i \<and> z \<in> set (free_list (pools s ! j)))"
      using i by (auto simp: all_free_index)
    then show "z \<in> all_free s' \<longleftrightarrow> z \<in> insert a (all_free s)"
      unfolding s'_def all_free_upd [OF i] by (auto simp: p'_def)
  qed
  have b: "buddy_inv ?b" "used_ok ?b" using s by (simp_all add: slab_inv_def)
  have pa: "page_allocator s' = ?b" by (simp add: s'_def)
  show ?thesis
    using live_of_take [OF b x na] inv unfolding e live_def pa fs by simp
qed


subsection \<open>A page becomes a page of chunks\<close>

lemma set_status_inv:
  assumes b: "buddy_inv b" and x: "(x, ord, st) \<in> used_blocks b"
    and st: "st' \<noteq> FRAME_FREE" "st' \<noteq> FRAME_BUDDY"
  defines "b' \<equiv> b\<lparr>frame_array := (frame_array b)[x := (frame_array b ! x)\<lparr>f_status := st'\<rparr>]\<rparr>"
  shows "buddy_inv b' \<and> used_blocks b' = insert (x, ord, st') (used_blocks b - {(x, ord, st)})"
proof -
  note h = hole_open_used [OF b x]
  have "frame_array b ! x = \<lparr>f_order = int ord, f_status = f_status (frame_array b ! x)\<rparr>" using h by simp
  then have "(frame_array b ! x)\<lparr>f_status := st'\<rparr> = \<lparr>f_order = int ord, f_status = st'\<rparr>"
    by (metis frame.update_convs(2))
  then have e: "b' = set_frame x (int ord) st' (set_frame x (-1) FRAME_BUDDY b)"
    by (simp add: b'_def set_frame_def)
  show ?thesis
    using hole_close_used [OF h [THEN conjunct1] st] h unfolding e by simp
qed

lemma page_chunks_cong:
  assumes "base_addr b' = base_addr b"
  shows "page_addr b' = page_addr b" "chunks b' = chunks b"
proof -
  show "page_addr b' = page_addr b" by (intro ext) (simp add: page_addr_def assms)
  then show "chunks b' = chunks b" by (intro ext) (simp add: chunks_def)
qed

lemma handed_out_cong:
  assumes "base_addr b' = base_addr b"
  shows "handed_out b' F t = handed_out b F t"
  by (cases t) (simp add: page_chunks_cong [OF assms])

lemma live_of_refill:
  assumes b: "buddy_inv b" "used_ok b" and b': "buddy_inv b'" "base_addr b' = base_addr b"
    "used_blocks b' = insert (x, 0, int c) (used_blocks b)" and c: "c \<in> set chunk_sizes"
    and x: "(x, 0, st) \<notin> used_blocks b" "\<And>j st. (x, j, st) \<notin> used_blocks b"
  shows "live_of b' (F \<union> chunks b x c) = live_of b F" "used_ok b'"
proof -
  show "used_ok b'" using b(2) c unfolding used_ok_def b'(3) by blast
  have h: "handed_out b' (F \<union> chunks b x c) t = handed_out b F t" if t: "t \<in> used_blocks b" for t
  proof -
    obtain y j st where tt: "t = (y, j, st)" by (cases t)
    have "chunks b y (nat st) \<inter> chunks b x c = {}" if s: "st \<noteq> FRAME_ALLOC" "st \<noteq> FRAME_RESERVED"
    proof -
      obtain d where d: "j = 0" "d \<in> set chunk_sizes" "st = int d"
        using b(2) t s unfolding used_ok_def tt by blast
      have "y \<noteq> x" using x(2) t tt by blast
      moreover have "frame_index a b' = Some y" if "a \<in> chunks b y d" for a
        using chunk_addr(1) [OF b'(1), of y d a] t tt d that b'(3) by (simp add: page_chunks_cong [OF b'(2)])
      moreover have "frame_index a b' = Some x" if "a \<in> chunks b x c" for a
        using chunk_addr(1) [OF b'(1), of x c a] c that b'(3) by (simp add: page_chunks_cong [OF b'(2)])
      ultimately show ?thesis unfolding d(3) nat_int disjoint_iff by (metis option.inject)
    qed
    then show ?thesis unfolding handed_out_cong [OF b'(2)] tt by auto
  qed
  have n: "handed_out b' (F \<union> chunks b x c) (x, 0, int c) = {}"
    unfolding handed_out_cong [OF b'(2)] by simp
  show "live_of b' (F \<union> chunks b x c) = live_of b F"
    unfolding live_of_def b'(3) by (simp add: n h del: handed_out.simps)
qed


subsection \<open>Allocation\<close>

lemma unat_page_shift:
  assumes "ord \<le> 51"
  shows "unat (push_bit ord 4096 :: u64) = 4096 * 2 ^ ord"
proof -
  have "(4096::nat) * 2 ^ ord \<le> 4096 * 2 ^ 51"
    using assms by (intro mult_le_mono2 power_increasing) auto
  then have "(4096::nat) * 2 ^ ord < 2 ^ 64" by simp
  then show ?thesis
    unfolding unsigned_push_bit_eq by (simp add: push_bit_eq_mult take_bit_nat_eq_self mult.commute)
qed

lemma alloc_order_ok:
  "ord \<le> 51 \<Longrightarrow> unat sz \<le> 2 ^ 63 \<Longrightarrow>
   \<exists>r. alloc_order sz ord = Some r \<and> r \<le> 51 \<and> unat sz \<le> 4096 * 2 ^ r"
proof (induction sz ord rule: alloc_order.induct)
  case (1 sz ord)
  note u = unat_page_shift [OF 1(2)]
  show ?case
  proof (cases "push_bit ord 4096 < sz")
    case True
    then have "4096 * 2 ^ ord < unat sz" using u by (simp add: word_less_nat_alt)
    then have "(2::nat) ^ (12 + ord) < 2 ^ 63" using 1(3) by (simp add: power_add)
    then have "Suc ord \<le> 51" by (subst (asm) power_strict_increasing_iff) simp_all
    then show ?thesis using 1 True by (subst alloc_order.simps) simp
  next
    case False
    then have "unat sz \<le> 4096 * 2 ^ ord" using u by (simp add: word_less_nat_alt)
    then show ?thesis using 1(2) False by (subst alloc_order.simps) simp
  qed
qed

text \<open>Above 2^63 bytes the shifted page size wraps to 0 and the loop never ends.\<close>

lemma alloc_order_none: "2 ^ 63 < sz \<Longrightarrow> alloc_order sz ord = None"
proof (induction sz ord rule: alloc_order.induct)
  case (1 sz ord)
  have "push_bit ord 4096 < sz" if "ord < 64"
  proof (cases "ord \<le> 51")
    case True
    have "(4096::nat) * 2 ^ ord \<le> 4096 * 2 ^ 51" using True by (intro mult_le_mono2 power_increasing) auto
    then have "unat (push_bit ord 4096 :: u64) \<le> 2 ^ 63" using unat_page_shift [OF True] by simp
    moreover have "2 ^ 63 < unat sz" using 1(2) by (simp add: word_less_nat_alt)
    ultimately show ?thesis by (simp add: word_less_nat_alt)
  next
    case False
    then have "(2::u64) ^ (12 + ord) = 0" by (simp only: exp_eq_zero_iff) simp
    then have "push_bit ord (4096 :: u64) = 0" by (simp add: push_bit_eq_mult power_add)
    then show ?thesis using 1(2) by (metis le_less_trans word_zero_le)
  qed
  then show ?case using 1 by (subst alloc_order.simps) (simp add: not_le)
qed

lemma live_of_insert:
  assumes "base_addr b' = base_addr b" and "used_blocks b' = insert t (used_blocks b)"
  shows "live_of b' F = handed_out b F t \<union> live_of b F"
  unfolding live_of_def assms(2) by (simp add: handed_out_cong [OF assms(1)] del: handed_out.simps)

lemma pool_ok_mono:
  assumes "base_addr b' = base_addr b" and "used_blocks b \<subseteq> used_blocks b'" and "pool_ok b p"
  shows "pool_ok b' p"
  using assms(2,3) unfolding pool_ok_def page_chunks_cong [OF assms(1)] by blast

lemma slab_page_alloc:
  assumes s: "slab_inv s" and r: "has_room (page_allocator s) ord"
  shows "\<exists>idx b. buddy_alloc ord (page_allocator s) = Some (page_addr (page_allocator s) idx, b) \<and>
    slab_inv (s\<lparr>page_allocator := b\<rparr>) \<and> base_addr b = base_addr (page_allocator s) \<and>
    used_blocks b = insert (idx, ord, FRAME_ALLOC) (used_blocks (page_allocator s)) \<and>
    (\<forall>j st. (idx, j, st) \<notin> used_blocks (page_allocator s)) \<and>
    live (s\<lparr>page_allocator := b\<rparr>) = insert (page_addr b idx, 4096 * 2 ^ ord) (live s) \<and>
    (page_addr b idx, 4096 * 2 ^ ord) \<notin> live s"
proof -
  let ?b = "page_allocator s"
  have b: "buddy_inv ?b" "used_ok ?b" using s by (simp_all add: slab_inv_def)
  obtain idx b' where a: "buddy_alloc ord ?b = Some (page_addr ?b idx, b')" "buddy_inv b'"
    "used_blocks b' = insert (idx, ord, FRAME_ALLOC) (used_blocks ?b)" "base_addr b' = base_addr ?b"
    "\<And>y j st. (y, j, st) \<in> used_blocks ?b \<Longrightarrow> y \<noteq> idx \<and> block idx ord \<inter> block y j = {}"
    using buddy_alloc_room [OF b(1) r] by blast
  have fresh: "(idx, j, st) \<notin> used_blocks ?b" for j st using a(5) by blast
  have uo: "used_ok b'" using b(2) unfolding used_ok_def a(3) by blast
  have "\<forall>p \<in> set (pools s). pool_ok b' p"
  proof
    fix p assume "p \<in> set (pools s)"
    then have "pool_ok ?b p" using s by (simp add: slab_inv_def)
    then show "pool_ok b' p" by (intro pool_ok_mono [OF a(4), of p]) (use a(3) in blast)+
  qed
  then have inv: "slab_inv (s\<lparr>page_allocator := b'\<rparr>)" using s a(2) uo by (simp add: slab_inv_def)
  have f: "all_free (s\<lparr>page_allocator := b'\<rparr>) = all_free s" by (simp add: all_free_def)
  have pa: "page_addr b' = page_addr ?b" by (rule page_chunks_cong [OF a(4)])
  have l: "live (s\<lparr>page_allocator := b'\<rparr>) = insert (page_addr b' idx, 4096 * 2 ^ ord) (live s)"
    unfolding live_def f by (simp add: live_of_insert [OF a(4,3)] pa)
  have "(page_addr b' idx, 4096 * 2 ^ ord) \<notin> live s"
  proof
    assume "(page_addr b' idx, 4096 * 2 ^ ord) \<in> live s"
    then have m: "(page_addr ?b idx, 4096 * 2 ^ ord) \<in> live_of ?b (all_free s)" by (simp add: live_def pa)
    have fi: "frame_index (page_addr ?b idx) b' = Some idx"
      using page_region(3) [OF a(2), of idx ord FRAME_ALLOC] a(3) by (simp add: pa)
    from b m show False
    proof (cases rule: live_ofE)
      case (page x i)
      then have "frame_index (page_addr ?b idx) b' = Some x"
        using page_region(3) [OF a(2), of x i FRAME_ALLOC] a(3) by (simp add: pa)
      then show ?thesis using fi fresh page(1) by simp
    next
      case (chunk x c p)
      then have "4096 * 2 ^ ord = c" by simp
      then have "4096 \<le> c" by auto
      then show ?thesis using chunk_sizesD(2) [OF chunk(2)] by simp
    qed
  qed
  then show ?thesis using a(1,3,4) inv fresh l
    by (intro exI [of _ idx] exI [of _ b'] conjI allI) assumption+
qed


lemma reserved_cong:
  assumes "base_addr (page_allocator s') = base_addr (page_allocator s)"
    and "\<And>x j. (x, j, FRAME_RESERVED) \<in> used_blocks (page_allocator s') \<longleftrightarrow>
      (x, j, FRAME_RESERVED) \<in> used_blocks (page_allocator s)"
  shows "reserved s' = reserved s"
proof -
  have "{t \<in> used_blocks (page_allocator s'). snd (snd t) = FRAME_RESERVED} =
      {t \<in> used_blocks (page_allocator s). snd (snd t) = FRAME_RESERVED}"
    using assms(2) by (intro set_eqI) (metis (mono_tags, lifting) mem_Collect_eq prod.collapse)
  then show ?thesis unfolding reserved_def span_def assms(1) by simp
qed

text \<open>Cutting a fresh page into the chunks of a pool hands out nothing.\<close>

lemma slab_refill:
  assumes s: "slab_inv s" and r: "has_room (page_allocator s) 0"
    and i: "i < length (pools s)" and c: "c = chunk_size (pools s ! i)" "c \<in> set chunk_sizes"
  shows "\<exists>idx page b s'. buddy_alloc 0 (page_allocator s) = Some (page, b) \<and> page \<noteq> 0 \<and>
    frame_index page b = Some idx \<and> s' = pool_refill i page idx (s\<lparr>page_allocator := b\<rparr>) \<and>
    slab_inv s' \<and> live s' = live s \<and> reserved s' = reserved s \<and>
    free_list (pools s' ! i) \<noteq> [] \<and> length (pools s') = length (pools s) \<and>
    chunk_size (pools s' ! i) = c"
proof -
  let ?b = "page_allocator s"
  have b: "buddy_inv ?b" "used_ok ?b" and m: "map chunk_size (pools s) = chunk_sizes @ [0]"
    and ok: "\<forall>p \<in> set (pools s). pool_ok ?b p"
    using s by (simp_all add: slab_inv_def)
  obtain idx b1 where a: "buddy_alloc 0 ?b = Some (page_addr ?b idx, b1)" "base_addr b1 = base_addr ?b"
    "used_blocks b1 = insert (idx, 0, FRAME_ALLOC) (used_blocks ?b)" "slab_inv (s\<lparr>page_allocator := b1\<rparr>)"
    and fresh: "\<And>j st. (idx, j, st) \<notin> used_blocks ?b"
    using slab_page_alloc [OF s r] by blast
  have b1: "buddy_inv b1" using a(4) by (simp add: slab_inv_def)
  have u1: "(idx, 0, FRAME_ALLOC) \<in> used_blocks b1" using a(3) by simp
  have pa: "page_addr b1 = page_addr ?b" by (rule page_chunks_cong [OF a(2)])
  define page where "page = page_addr ?b idx"
  have pg: "page \<noteq> 0" "frame_index page b1 = Some idx"
    using page_region [OF b1 u1] by (simp_all add: pa page_def)
  define b2 where "b2 = b1\<lparr>frame_array := (frame_array b1)[idx := (frame_array b1 ! idx)\<lparr>f_status := int c\<rparr>]\<rparr>"
  have c0: "int c \<noteq> FRAME_FREE" "int c \<noteq> FRAME_BUDDY" using chunk_sizesD [OF c(2)] by auto
  have b2: "buddy_inv b2" "used_blocks b2 = insert (idx, 0, int c) (used_blocks ?b)"
    using set_status_inv [OF b1 u1 c0, folded b2_def] a(3) fresh by auto
  have ba: "base_addr b2 = base_addr ?b" using a(2) by (simp add: b2_def)
  have new: "set (page_chunks page c) = chunks ?b idx c" by (simp add: chunks_def page_def)
  define p where "p = (pools s ! i)\<lparr>free_list := free_list (pools s ! i) @ page_chunks page c,
    freelist_size := freelist_size (pools s ! i) + int (4096 div c)\<rparr>"
  define s' where "s' = s\<lparr>page_allocator := b2, pools := (pools s)[i := p]\<rparr>"
  have e: "s' = pool_refill i page idx (s\<lparr>page_allocator := b1\<rparr>)"
    by (simp add: s'_def pool_refill_def b2_def p_def c(1) Let_def)
  have chunk_new: "frame_index z b2 = Some idx" if "z \<in> chunks ?b idx c" for z
    using chunk_addr(1) [OF b2(1), of idx c z] c(2) that by (simp add: b2(2) page_chunks_cong [OF ba])
  have chunk_old: "\<exists>y. y \<noteq> idx \<and> frame_index z b2 = Some y" if z: "z \<in> all_free s" for z
  proof -
    obtain j where j: "j < length (pools s)" "z \<in> set (free_list (pools s ! j))"
      using z by (auto simp: all_free_index)
    obtain y where y: "(y, 0, int (chunk_size (pools s ! j))) \<in> used_blocks ?b"
      "z \<in> chunks ?b y (chunk_size (pools s ! j))" "chunk_size (pools s ! j) \<in> set chunk_sizes"
      by (rule slab_freeD [OF s j])
    then have "frame_index z b2 = Some y"
      using chunk_addr(1) [OF b2(1) _ _ y(3), of y z] by (simp add: b2(2) page_chunks_cong [OF ba])
    moreover have "y \<noteq> idx" using y(1) fresh by metis
    ultimately show ?thesis by blast
  qed
  have sep: "all_free s \<inter> chunks ?b idx c = {}" using chunk_new chunk_old by fastforce
  have dp: "distinct (page_chunks page c)"
    using chunks_distinct [of ?b idx c] b(1) c(2) used_blockD(1) [OF b1 u1] b1
      region_ok_def a(2) by (simp add: page_def buddy_inv_def chunks_distinct pa [symmetric])
  have okp: "pool_ok ?b (pools s ! i)" using ok i by simp
  have cs: "chunk_size p = chunk_size (pools s ! i)" by (simp add: p_def)
  have mono: "pool_ok b2 q" if "q \<in> set (pools s)" for q
    using that ok b2(2) by (intro pool_ok_mono [OF ba, of q]) auto
  have "pool_ok b2 p"
  proof -
    have d: "set (free_list (pools s ! i)) \<inter> set (page_chunks page c) = {}"
    proof -
      have "set (free_list (pools s ! i)) \<subseteq> all_free s"
        unfolding all_free_def using i by (intro UN_upper) simp
      then show ?thesis using sep unfolding new by blast
    qed
    have "pool_ok b2 (pools s ! i)" using mono i by simp
    then show ?thesis
      using d dp b2(2) new unfolding pool_ok_def cs c(1) [symmetric] page_chunks_cong [OF ba]
      by (auto simp: p_def page_chunks_def)
  qed
  then have "\<forall>q \<in> set ((pools s)[i := p]). pool_ok b2 q"
    using mono set_update_subset_insert [of "pools s" i p] by blast
  moreover have "map chunk_size ((pools s)[i := p]) = map chunk_size (pools s)"
    using i cs by (intro nth_equalityI) (simp_all add: nth_list_update)
  moreover note lr = live_of_refill [OF b b2(1) ba b2(2) c(2) fresh fresh]
  ultimately have inv: "slab_inv s'" using b2(1) m by (simp add: slab_inv_def s'_def)
  have fs: "all_free s' = all_free s \<union> chunks ?b idx c"
  proof (intro set_eqI)
    fix z
    have "z \<in> all_free s \<longleftrightarrow> z \<in> set (free_list (pools s ! i)) \<or>
        (\<exists>j < length (pools s). j \<noteq> i \<and> z \<in> set (free_list (pools s ! j)))"
      using i by (auto simp: all_free_index)
    moreover have "all_free s' = all_free (s\<lparr>pools := (pools s)[i := p]\<rparr>)" by (simp add: s'_def all_free_def)
    moreover have "set (free_list p) = set (free_list (pools s ! i)) \<union> chunks ?b idx c"
      using new by (simp add: p_def)
    ultimately show "z \<in> all_free s' \<longleftrightarrow> z \<in> all_free s \<union> chunks ?b idx c"
      using all_free_upd [OF i, of z p] by blast
  qed
  have "live s' = live s" using lr(1) by (simp add: live_def fs) (simp add: s'_def)
  moreover have "reserved s' = reserved s"
    using ba b2(2) by (intro reserved_cong) (simp_all add: s'_def)
  moreover have "free_list (pools s' ! i) \<noteq> []"
    using i chunk_sizesD(4) [OF c(2)] by (simp add: s'_def p_def page_chunks_def)
  moreover have "length (pools s') = length (pools s)" "chunk_size (pools s' ! i) = c"
    using i cs c(1) by (simp_all add: s'_def)
  ultimately show ?thesis using a(1) pg e inv unfolding page_def [symmetric]
    by (intro exI [of _ idx] exI [of _ page] exI [of _ b1] exI [of _ s'] conjI) assumption+
qed


lemma pool_search_some:
  "pool_search ps n j = Some i \<Longrightarrow>
   j \<le> i \<and> i - j < length ps \<and> n \<le> chunk_size (ps ! (i - j)) \<and> chunk_size (ps ! (i - j)) \<noteq> 0"
proof (induction ps n j rule: pool_search.induct)
  case (2 p ps n j)
  then show ?case
    by (auto split: if_splits simp: Suc_diff_le [symmetric] Suc_le_eq nth_Cons' diff_diff_add)
qed simp

lemma pool_search_none:
  "n \<le> 2048 \<Longrightarrow> map chunk_size ps = chunk_sizes @ [0] \<Longrightarrow> \<exists>i. pool_search ps n 0 = Some i"
  by (auto simp: chunk_sizes_def map_eq_Cons_conv)

lemma pool_search_ok:
  assumes s: "slab_inv s" and n: "n \<le> 2048"
  shows "\<exists>i. pool_search (pools s) n 0 = Some i \<and> i < length (pools s) \<and>
    n \<le> chunk_size (pools s ! i) \<and> chunk_size (pools s ! i) \<in> set chunk_sizes"
proof -
  have m: "map chunk_size (pools s) = chunk_sizes @ [0]" using s by (simp add: slab_inv_def)
  obtain i where i: "pool_search (pools s) n 0 = Some i" using pool_search_none [OF n m] by blast
  then have p: "i < length (pools s)" "n \<le> chunk_size (pools s ! i)" "chunk_size (pools s ! i) \<noteq> 0"
    using pool_search_some [OF i] by auto
  have "chunk_size (pools s ! i) \<in> set (chunk_sizes @ [0])" using p(1) unfolding m [symmetric] by simp
  then show ?thesis using i p by auto
qed

lemma pool_match_some:
  "pool_match ps n j = Some i \<Longrightarrow> j \<le> i \<and> i - j < length ps \<and> chunk_size (ps ! (i - j)) = n"
proof (induction ps n j rule: pool_match.induct)
  case (2 p ps n j)
  then show ?case
    by (auto split: if_splits simp: Suc_diff_le [symmetric] Suc_le_eq nth_Cons' diff_diff_add)
qed simp

lemma pool_match_ok:
  assumes s: "slab_inv s" and n: "n \<in> set chunk_sizes"
  shows "\<exists>i. pool_match (pools s) n 0 = Some i \<and> i < length (pools s) \<and> chunk_size (pools s ! i) = n"
proof -
  have m: "map chunk_size (pools s) = chunk_sizes @ [0]" using s by (simp add: slab_inv_def)
  then have "\<exists>i. pool_match (pools s) n 0 = Some i"
    using n by (auto simp: chunk_sizes_def map_eq_Cons_conv)
  then show ?thesis using pool_match_some by fastforce
qed

text \<open>Every request up to 2^63 bytes returns: a fresh region of at least that size, or NULL
  and an unchanged state of the clients.\<close>

lemma slab_alloc_ok:
  assumes s: "slab_inv s" and n: "unat sz \<le> 2 ^ 63"
  shows "\<exists>p s'. slab_alloc sz s = Some (p, s') \<and> slab_inv s' \<and> reserved s' = reserved s \<and>
    (p = 0 \<and> live s' = live s \<or>
     p \<noteq> 0 \<and> (\<exists>m \<ge> unat sz. (p, m) \<notin> live s \<and> live s' = insert (p, m) (live s)))"
proof (cases "2048 < sz")
  case True
  obtain r where r: "alloc_order sz 0 = Some r" "unat sz \<le> 4096 * 2 ^ r"
    using alloc_order_ok [of 0 sz] n by auto
  show ?thesis
  proof (cases "has_room (page_allocator s) r")
    case room: True
    obtain idx b where a: "buddy_alloc r (page_allocator s) = Some (page_addr (page_allocator s) idx, b)"
      "slab_inv (s\<lparr>page_allocator := b\<rparr>)" "base_addr b = base_addr (page_allocator s)"
      "used_blocks b = insert (idx, r, FRAME_ALLOC) (used_blocks (page_allocator s))"
      "live (s\<lparr>page_allocator := b\<rparr>) = insert (page_addr b idx, 4096 * 2 ^ r) (live s)"
      "(page_addr b idx, 4096 * 2 ^ r) \<notin> live s"
      using slab_page_alloc [OF s room] by blast
    have pa: "page_addr b idx = page_addr (page_allocator s) idx" by (simp add: page_chunks_cong [OF a(3)])
    have "page_addr b idx \<noteq> 0"
      using page_region(2) [of b idx r FRAME_ALLOC] a(2,4) by (simp add: slab_inv_def)
    moreover have "reserved (s\<lparr>page_allocator := b\<rparr>) = reserved s"
      using a(3,4) by (intro reserved_cong) simp_all
    moreover have "slab_alloc sz s = Some (page_addr b idx, s\<lparr>page_allocator := b\<rparr>)"
      using True r(1) a(1) pa by (simp add: slab_alloc_def)
    ultimately show ?thesis using a(2,5,6) r(2) by blast
  next
    case False
    then have "slab_alloc sz s = Some (0, s)"
      using True r(1) buddy_alloc_full by (simp add: slab_alloc_def)
    then show ?thesis using s by blast
  qed
next
  case False
  then have "unat sz \<le> 2048" by (simp add: word_less_nat_alt)
  then obtain i where i: "pool_search (pools s) (unat sz) 0 = Some i" "i < length (pools s)"
    "unat sz \<le> chunk_size (pools s ! i)" "chunk_size (pools s ! i) \<in> set chunk_sizes"
    using pool_search_ok [OF s] by blast
  show ?thesis
  proof (cases "free_list (pools s ! i) = []")
    case empty: True
    show ?thesis
    proof (cases "has_room (page_allocator s) 0")
      case room: True
      obtain idx page b s1 where a: "buddy_alloc 0 (page_allocator s) = Some (page, b)" "page \<noteq> 0"
        "frame_index page b = Some idx" "s1 = pool_refill i page idx (s\<lparr>page_allocator := b\<rparr>)"
        "slab_inv s1" "live s1 = live s" "reserved s1 = reserved s" "free_list (pools s1 ! i) \<noteq> []"
        "length (pools s1) = length (pools s)" "chunk_size (pools s1 ! i) = chunk_size (pools s ! i)"
        using slab_refill [OF s room i(2) refl i(4)] by blast
      obtain p s' where p: "pool_pop i s1 = (p, s')" "slab_inv s'" "p \<noteq> 0"
        "(p, chunk_size (pools s1 ! i)) \<notin> live s1"
        "live s' = insert (p, chunk_size (pools s1 ! i)) (live s1)" "page_allocator s' = page_allocator s1"
        using pool_pop_inv [OF a(5) _ a(8)] a(9) i(2) by fastforce
      have "slab_alloc sz s = Some (p, s')"
        using False i(1) empty a(1-3) p(1) a(4) by (simp add: slab_alloc_def Let_def)
      moreover have "reserved s' = reserved s" using p(6) a(7) by (simp add: reserved_def)
      ultimately show ?thesis using p(2-5) a(6,10) i(3) by metis
    next
      case full: False
      then have "slab_alloc sz s = Some (0, s)"
        using False i(1) empty buddy_alloc_full [OF full] by (simp add: slab_alloc_def Let_def)
      then show ?thesis using s by blast
    qed
  next
    case ne: False
    obtain p s' where p: "pool_pop i s = (p, s')" "slab_inv s'" "p \<noteq> 0"
      "(p, chunk_size (pools s ! i)) \<notin> live s"
      "live s' = insert (p, chunk_size (pools s ! i)) (live s)" "page_allocator s' = page_allocator s"
      using pool_pop_inv [OF s i(2) ne] by blast
    have "slab_alloc sz s = Some (p, s')" using False i(1) ne p(1) by (simp add: slab_alloc_def)
    moreover have "reserved s' = reserved s" using p(6) by (simp add: reserved_def)
    ultimately show ?thesis using p(2-5) i(3) by blast
  qed
qed


subsection \<open>Release\<close>

lemma slab_free_ok:
  assumes s: "slab_inv s" and l: "(p, n) \<in> live s"
  shows "\<exists>s'. slab_free p s = Some s' \<and> slab_inv s' \<and> live s' = live s - {(p, n)} \<and>
    reserved s' = reserved s"
proof -
  let ?b = "page_allocator s"
  have b: "buddy_inv ?b" "used_ok ?b" using s by (simp_all add: slab_inv_def)
  have l': "(p, n) \<in> live_of ?b (all_free s)" using l by (simp add: live_def)
  from b l' show ?thesis
  proof (cases rule: live_ofE)
    case t: (page x ord)
    have fi: "frame_index p ?b = Some x" using page_region(3) [OF b(1) t(1)] t(2) by simp
    have st: "f_status (frame_array ?b ! x) = FRAME_ALLOC" by (rule used_blockD(4) [OF b(1) t(1)])
    obtain b' where f: "buddy_free (page_addr ?b x) ?b = Some b'" "buddy_inv b'"
      "used_blocks b' = used_blocks ?b - {(x, ord, FRAME_ALLOC)}" "base_addr b' = base_addr ?b"
      using buddy_free_used [OF b(1) t(1)] by blast
    define s' where "s' = s\<lparr>page_allocator := b'\<rparr>"
    have e: "slab_free p s = Some s'" using fi st f(1) t(2) by (simp add: slab_free_def s'_def Let_def)
    have u: "used_blocks ?b = insert (x, ord, FRAME_ALLOC) (used_blocks b')" using f(3) t(1) by auto
    have "pool_ok b' q" if "q \<in> set (pools s)" for q
    proof -
      have "pool_ok ?b q" using s that by (simp add: slab_inv_def)
      then show ?thesis unfolding pool_ok_def f(3) page_chunks_cong [OF f(4)] by auto
    qed
    moreover have "used_ok b'" using b(2) unfolding used_ok_def f(3) by blast
    ultimately have inv: "slab_inv s'" using s f(2) by (simp add: slab_inv_def s'_def)
    have fs: "all_free s' = all_free s" by (simp add: all_free_def s'_def)
    have li: "live s = insert (p, n) (live s')"
      unfolding live_def fs using live_of_insert [OF f(4) [symmetric] u] t(2)
      by (simp add: s'_def page_chunks_cong [OF f(4)])
    have "(p, n) \<notin> live s'"
    proof
      assume "(p, n) \<in> live s'"
      then have m: "(p, n) \<in> live_of b' (all_free s')" by (simp add: live_def s'_def)
      have "used_ok b'" using inv by (simp add: slab_inv_def s'_def)
      from f(2) this m show False
      proof (cases rule: live_ofE)
        case (page y j)
        then have "frame_index p b' = Some y" using page_region(3) [OF f(2)] by simp
        moreover have "frame_index p b' = Some x"
        proof -
          have "region_ok b'" using f(2) by (simp add: buddy_inv_def)
          moreover have "x < total_pages b'"
            using buddy_free_used [OF b(1) t(1)] f(1) used_blockD(1) [OF b(1) t(1)] by auto
          ultimately show ?thesis using frame_index_addr [of b' x] t(2) by (simp add: page_chunks_cong [OF f(4)])
        qed
        ultimately have "y = x" by simp
        then have "(x, j, FRAME_ALLOC) \<in> used_blocks ?b - {(x, ord, FRAME_ALLOC)}" using page(1) f(3) by simp
        then show ?thesis using used_blocks_unique [OF t(1), of j FRAME_ALLOC] by blast
      next
        case (chunk y c a)
        then have "4096 * 2 ^ ord = c" using t(2) by simp
        then have "4096 \<le> c" by auto
        then show ?thesis using chunk_sizesD(2) [OF chunk(2)] by simp
      qed
    qed
    then have "live s' = live s - {(p, n)}" using li by blast
    moreover have "reserved s' = reserved s"
      using f(3,4) by (intro reserved_cong) (simp_all add: s'_def)
    ultimately show ?thesis using e inv by blast
  next
    case t: (chunk x c a)
    have p: "a = p" "c = n" using t(3) by simp_all
    have st: "f_status (frame_array ?b ! x) = int c" by (rule used_blockD(4) [OF b(1) t(1)])
    obtain i where i: "pool_match (pools s) c 0 = Some i" "i < length (pools s)" "chunk_size (pools s ! i) = c"
      using pool_match_ok [OF s t(2)] by blast
    have e: "slab_free p s = Some (pool_push i p s)"
      using t(7) st i(1) chunk_sizesD(1) [OF t(2)] by (simp add: slab_free_def p Let_def)
    have "(p, c) \<in> live s" using l p by simp
    then have "slab_inv (pool_push i p s) \<and> live (pool_push i p s) = live s - {(p, c)}"
      using t(1,2,4,5) i(3) by (intro pool_push_inv [OF s i(2), of c p x]) (simp_all add: p)
    moreover have "reserved (pool_push i p s) = reserved s" by (simp add: reserved_def pool_push_def Let_def)
    ultimately show ?thesis using e p by blast
  qed
qed

lemma live_reserved:
  assumes s: "slab_inv s" and r: "r \<in> live s"
  shows "region r \<inter> reserved s = {}"
proof -
  let ?b = "page_allocator s"
  have b: "buddy_inv ?b" "used_ok ?b" using s by (simp_all add: slab_inv_def)
  have l': "r \<in> live_of ?b (all_free s)" using r by (simp add: live_def)
  have apart: "region r \<inter> span ?b y j = {}"
    if "(x, i, st) \<in> used_blocks ?b" "st \<noteq> FRAME_RESERVED" "region r \<subseteq> span ?b x i"
      "(y, j, FRAME_RESERVED) \<in> used_blocks ?b" for x i st y j
  proof -
    have "x \<noteq> y" using used_blocks_unique that by metis
    then show ?thesis
      using span_disjoint [OF used_blocks_disjoint [OF b(1) that(1,4)], of ?b] that(3) by blast
  qed
  have "region r \<inter> span ?b y j = {}" if y: "(y, j, FRAME_RESERVED) \<in> used_blocks ?b" for y j
  proof -
    have na: "FRAME_ALLOC \<noteq> FRAME_RESERVED" "\<And>c. int c \<noteq> FRAME_RESERVED" by simp_all
    from b l' show ?thesis
    proof (cases rule: live_ofE)
      case (page x i)
      then show ?thesis using apart [OF page(1) na(1) _ y] by simp
    next
      case (chunk x c a)
      then show ?thesis using apart [OF chunk(1) na(2) _ y] by simp
    qed
  qed
  then show ?thesis unfolding reserved_def by fastforce
qed

subsection \<open>The interface of the allocator\<close>

text \<open>
  What a client of \<open>allocate\<close> and \<open>free\<close> relies on: the regions in use never overlap, an
  allocation of at most 2^63 bytes returns, a region in use can be freed, and the reserved
  memory stays out of reach.
\<close>

locale allocator =
  fixes inv :: "'s \<Rightarrow> bool"
    and regions :: "'s \<Rightarrow> (u64 \<times> nat) set"
    and kept :: "'s \<Rightarrow> nat set"
    and alloc :: "u64 \<Rightarrow> 's \<Rightarrow> (u64 \<times> 's) option"
    and dealloc :: "u64 \<Rightarrow> 's \<Rightarrow> 's option"
  assumes regions_disjoint: "inv s \<Longrightarrow> r \<in> regions s \<Longrightarrow> r' \<in> regions s \<Longrightarrow> r \<noteq> r' \<Longrightarrow> region r \<inter> region r' = {}"
    and regions_kept: "inv s \<Longrightarrow> r \<in> regions s \<Longrightarrow> region r \<inter> kept s = {}"
    and regions_pos: "inv s \<Longrightarrow> (p, n) \<in> regions s \<Longrightarrow> p \<noteq> 0 \<and> 0 < n"
    and alloc_ok: "inv s \<Longrightarrow> unat sz \<le> 2 ^ 63 \<Longrightarrow>
      \<exists>p s'. alloc sz s = Some (p, s') \<and> inv s' \<and> kept s' = kept s \<and>
        (p = 0 \<and> regions s' = regions s \<or>
         p \<noteq> 0 \<and> (\<exists>m \<ge> unat sz. (p, m) \<notin> regions s \<and> regions s' = insert (p, m) (regions s)))"
    and dealloc_ok: "inv s \<Longrightarrow> (p, n) \<in> regions s \<Longrightarrow>
      \<exists>s'. dealloc p s = Some s' \<and> inv s' \<and> regions s' = regions s - {(p, n)} \<and> kept s' = kept s"
begin

text \<open>A fresh region overlaps nothing that is in use.\<close>

lemma alloc_fresh:
  assumes "inv s" and "unat sz \<le> 2 ^ 63" and "alloc sz s = Some (p, s')" and "p \<noteq> 0"
  shows "\<exists>m \<ge> unat sz. regions s' = insert (p, m) (regions s) \<and>
    (\<forall>r \<in> regions s. region r \<inter> region (p, m) = {}) \<and> region (p, m) \<inter> kept s = {}"
proof -
  obtain m where m: "inv s'" "kept s' = kept s" "unat sz \<le> m" "(p, m) \<notin> regions s"
    "regions s' = insert (p, m) (regions s)"
    using alloc_ok [OF assms(1,2)] assms(3,4) by auto
  have "region r \<inter> region (p, m) = {}" if "r \<in> regions s" for r
    using regions_disjoint [OF m(1), of r "(p, m)"] m(4,5) that by blast
  moreover have "region (p, m) \<inter> kept s = {}" using regions_kept [OF m(1), of "(p, m)"] m(2,5) by simp
  ultimately show ?thesis using m(3,5) by blast
qed

text \<open>Freeing what was just allocated gives the old set of regions back.\<close>

lemma alloc_dealloc:
  assumes "inv s" and "unat sz \<le> 2 ^ 63" and "alloc sz s = Some (p, s')" and "p \<noteq> 0"
  shows "\<exists>s''. dealloc p s' = Some s'' \<and> inv s'' \<and> regions s'' = regions s"
proof -
  obtain m where m: "inv s'" "(p, m) \<notin> regions s" "regions s' = insert (p, m) (regions s)"
    using alloc_ok [OF assms(1,2)] assms(3,4) by auto
  obtain s'' where "dealloc p s' = Some s''" "inv s''" "regions s'' = regions s' - {(p, m)}"
    using dealloc_ok [OF m(1), of p m] m(3) by auto
  then show ?thesis using m(2,3) by auto
qed

text \<open>Freeing one region leaves the others in use.\<close>

lemma dealloc_other:
  assumes "inv s" and "(p, n) \<in> regions s" and "(q, m) \<in> regions s" and "p \<noteq> q"
  shows "\<exists>s'. dealloc p s = Some s' \<and> inv s' \<and> (q, m) \<in> regions s'"
  using dealloc_ok [OF assms(1,2)] assms(3,4) by auto

text \<open>An address is the start of at most one region in use.\<close>

lemma region_unique:
  assumes "inv s" and "(p, n) \<in> regions s" and "(p, m) \<in> regions s"
  shows "n = m"
proof (rule ccontr)
  assume "n \<noteq> m"
  then have "region (p, n) \<inter> region (p, m) = {}" using regions_disjoint [OF assms] by simp
  moreover have "unat p \<in> region (p, n)" "unat p \<in> region (p, m)"
    using regions_pos [OF assms(1,2)] regions_pos [OF assms(1,3)] by (auto simp: region_def)
  ultimately show False by blast
qed

end

interpretation kmem: allocator slab_inv live reserved slab_alloc slab_free
proof (unfold_locales, goal_cases)
  case (1 s r r')
  then show ?case using live_of_disjoint [of "page_allocator s" r "all_free s" r']
    by (simp add: slab_inv_def live_def)
next
  case (2 s r)
  then show ?case by (rule live_reserved)
next
  case (3 s p n)
  then show ?case using live_of_region [of "page_allocator s" p n "all_free s"]
    by (simp add: slab_inv_def live_def)
next
  case (4 s sz)
  then show ?case by (rule slab_alloc_ok)
next
  case (5 s p n)
  then show ?case by (rule slab_free_ok)
qed


subsection \<open>Properties\<close>

text \<open>A slab over one free page, for the witnesses.\<close>

definition one_page :: slab where
  "one_page = \<lparr>page_allocator = one_page_buddy, pools = initial_pools\<rparr>"

lemma initial_pools_inv:
  assumes "buddy_inv b" and "used_ok b"
  shows "slab_inv \<lparr>page_allocator = b, pools = initial_pools\<rparr>"
  using assms by (auto simp: slab_inv_def initial_pools_def pool_ok_def chunk_sizes_def)

lemma one_page_inv: "slab_inv one_page"
  unfolding one_page_def
  by (intro initial_pools_inv one_page_buddy_inv) (simp add: used_ok_def one_page_used)

text \<open>C1: A pointer that \<open>allocate\<close> returns is the start of a region of at least the
  requested size that overlaps no region in use and no reserved memory; nothing else
  changes hands.\<close>

theorem allocate_fresh:
  assumes "slab_inv s" and "unat sz \<le> 2 ^ 63" and "slab_alloc sz s = Some (p, s')" and "p \<noteq> 0"
  shows "\<exists>m \<ge> unat sz. live s' = insert (p, m) (live s) \<and>
    (\<forall>r \<in> live s. region r \<inter> region (p, m) = {}) \<and> region (p, m) \<inter> reserved s = {}"
  by (rule kmem.alloc_fresh [OF assms])

lemma one_page_alloc:
  "\<exists>s'. slab_alloc 4096 one_page = Some (4096, s')"
proof -
  have "alloc_order 4096 0 = Some 0" by (subst alloc_order.simps) simp
  moreover have "buddy_find (freelists one_page_buddy) 0 = Some 0"
    by (subst buddy_find.simps) (simp add: one_page_buddy_def)
  moreover have "buddy_split 0 0 0 b = Some b" for b by (subst buddy_split.simps) simp
  ultimately show ?thesis
    by (simp add: slab_alloc_def buddy_alloc_def one_page_def page_addr_def)
      (simp add: one_page_buddy_def take_free_def set_frame_def page_addr_def)
qed

lemma allocate_fresh_witness:
  "\<exists>s' m. slab_alloc 4096 one_page = Some (4096, s') \<and> 4096 \<le> m \<and>
    live s' = insert (4096, m) (live one_page) \<and>
    (\<forall>r \<in> live one_page. region r \<inter> region (4096, m) = {}) \<and> region (4096, m) \<inter> reserved one_page = {}"
proof -
  obtain s' where a: "slab_alloc 4096 one_page = Some (4096, s')" using one_page_alloc by blast
  then show ?thesis using allocate_fresh [OF one_page_inv _ a] by auto
qed

text \<open>C16: Every request up to 2^63 bytes returns, keeps the invariant of the allocator and
  the reserved memory, and yields NULL only with the set of regions unchanged.\<close>

theorem allocate_total:
  assumes "slab_inv s" and "unat sz \<le> 2 ^ 63"
  shows "\<exists>p s'. slab_alloc sz s = Some (p, s') \<and> slab_inv s' \<and> reserved s' = reserved s \<and>
    (p = 0 \<longrightarrow> live s' = live s)"
  using slab_alloc_ok [OF assms] by blast

lemma allocate_total_witness:
  "\<exists>p s'. slab_alloc 4096 one_page = Some (p, s') \<and> slab_inv s' \<and> reserved s' = reserved one_page \<and>
    (p = 0 \<longrightarrow> live s' = live one_page)"
  using allocate_total [OF one_page_inv, of 4096] by simp

text \<open>C18: Freeing a region in use succeeds, keeps the invariant and the reserved memory, and
  takes exactly that region out of use.\<close>

theorem free_releases:
  assumes "slab_inv s" and "(p, n) \<in> live s"
  shows "\<exists>s'. slab_free p s = Some s' \<and> slab_inv s' \<and> live s' = live s - {(p, n)} \<and>
    reserved s' = reserved s"
  by (rule kmem.dealloc_ok [OF assms])

lemma free_releases_witness:
  "\<exists>s1 s' n. slab_alloc 4096 one_page = Some (4096, s1) \<and>
     slab_free 4096 s1 = Some s' \<and> slab_inv s' \<and> live s' = live s1 - {(4096, n)}"
proof -
  obtain s1 where a: "slab_alloc 4096 one_page = Some (4096, s1)"
    using one_page_alloc by blast
  obtain m where m: "slab_inv s1" "live s1 = insert (4096, m) (live one_page)"
    using slab_alloc_ok [OF one_page_inv, of 4096] a by auto
  then show ?thesis using free_releases [OF m(1), of 4096 m] a by auto
qed

text \<open>C19: A block that \<open>allocate\<close> returned and that is freed at once leaves the regions in
  use as they were.\<close>

theorem allocate_free:
  assumes "slab_inv s" and "unat sz \<le> 2 ^ 63" and "slab_alloc sz s = Some (p, s')" and "p \<noteq> 0"
  shows "\<exists>s''. slab_free p s' = Some s'' \<and> slab_inv s'' \<and> live s'' = live s"
  by (rule kmem.alloc_dealloc [OF assms])

lemma allocate_free_witness:
  "\<exists>s' s''. slab_alloc 4096 one_page = Some (4096, s') \<and> slab_free 4096 s' = Some s'' \<and>
     slab_inv s'' \<and> live s'' = live one_page"
proof -
  obtain s' where a: "slab_alloc 4096 one_page = Some (4096, s')" using one_page_alloc by blast
  then show ?thesis using allocate_free [OF one_page_inv _ a] by auto
qed

text \<open>C21: A request above 2^63 bytes never returns: the page size shifted by the order wraps
  to 0 before it reaches the request, and the shift count leaves the width of the type.\<close>

theorem allocate_oversize: "2 ^ 63 < sz \<Longrightarrow> slab_alloc sz s = None"
proof -
  assume "2 ^ 63 < sz"
  moreover from this have "2048 < sz" by (rule order.strict_trans [rotated]) simp
  ultimately show ?thesis by (simp add: slab_alloc_def alloc_order_none)
qed

lemma allocate_oversize_witness: "slab_alloc (2 ^ 63 + 1) one_page = None"
  by (rule allocate_oversize) simp

end
