(* ===== verification/Fdt.thy ===== *)
theory Fdt
  imports Utils
begin

text \<open>
  src/lab7/src/fdt.c: the flattened device tree.  The three functions walk the big-endian
  token stream of the structure block in memory; a walk that never meets an end is \<open>None\<close>.

  The specification side is a tree (\<open>dt\<close>) with its encoding as bytes (\<open>dt_bytes\<close>), and the
  lookup on that tree (\<open>find_path\<close>, \<open>find_prop\<close>).  The lemmas go in two steps: each loop
  consumes one token of the stream (\<open>stream\<close>), and a subtree is a run of tokens.
\<close>

definition FDT_BEGIN_NODE :: u32 where "FDT_BEGIN_NODE = 1"
definition FDT_END_NODE :: u32 where "FDT_END_NODE = 2"
definition FDT_PROP :: u32 where "FDT_PROP = 3"
definition FDT_NOP :: u32 where "FDT_NOP = 4"
definition FDT_END :: u32 where "FDT_END = 9"

lemmas fdt_tags [simp] =
  FDT_BEGIN_NODE_def FDT_END_NODE_def FDT_PROP_def FDT_NOP_def FDT_END_def

text \<open>\<open>fdt32_to_cpu\<close> and \<open>fdt64_to_cpu\<close> at an address, and the header fields in use.\<close>

definition be32 :: "bytes \<Rightarrow> u64 \<Rightarrow> u32" where
  "be32 m p = fdt32_to_cpu (at m p)"

definition be64 :: "bytes \<Rightarrow> u64 \<Rightarrow> u64" where
  "be64 m p = fdt64_to_cpu (at m p)"

definition fdt_magic :: "bytes \<Rightarrow> u64 \<Rightarrow> u32" where "fdt_magic m fdt = be32 m fdt"
definition fdt_totalsize :: "bytes \<Rightarrow> u64 \<Rightarrow> u32" where "fdt_totalsize m fdt = be32 m (fdt + 4)"
definition off_dt_struct :: "bytes \<Rightarrow> u64 \<Rightarrow> u32" where "off_dt_struct m fdt = be32 m (fdt + 8)"
definition off_dt_strings :: "bytes \<Rightarrow> u64 \<Rightarrow> u32" where "off_dt_strings m fdt = be32 m (fdt + 12)"

subsection \<open>The functions of fdt.c\<close>

text \<open>\<open>skip_node\<close>: to the end of the node whose name has just been read; 0 for NULL.\<close>

partial_function (option) skip_loop :: "bytes \<Rightarrow> nat \<Rightarrow> u64 \<Rightarrow> u64 option" where
  "skip_loop m level p =
     (if level = 0 then Some p
      else if be32 m p = FDT_BEGIN_NODE then
        Option.bind (strlen (at m (p + 4)))
          (\<lambda>n. skip_loop m (Suc level) (align (p + 4 + of_nat n + 1) 4))
      else if be32 m p = FDT_END_NODE then skip_loop m (level - 1) (p + 4)
      else if be32 m p = FDT_PROP then
        skip_loop m level (align (p + 4 + 8 + ucast (be32 m (p + 4))) 4)
      else if be32 m p = FDT_END then Some 0
      else skip_loop m level (p + 4))"

definition skip_node :: "bytes \<Rightarrow> u64 \<Rightarrow> u64 option" where
  "skip_node m p = skip_loop m 1 p"

text \<open>One comparison of a node name with the current path segment: the length of the segment
  and whether the name is the segment, possibly with a unit address.\<close>

definition seg_match :: "cptr \<Rightarrow> cptr \<Rightarrow> nat \<Rightarrow> bool" where
  "seg_match node_name cur_seg seg_len \<longleftrightarrow>
     strncmp node_name cur_seg seg_len = 0 \<and>
     (node_name seg_len = 0 \<or> node_name seg_len = char_u8 (CHR ''@''))"

partial_function (option) path_loop :: "bytes \<Rightarrow> u64 \<Rightarrow> cptr \<Rightarrow> u64 \<Rightarrow> int option" where
  "path_loop m struct_base cur_seg p =
     (if be32 m p = FDT_BEGIN_NODE then
        Option.bind (strlen (at m (p + 4))) (\<lambda>n.
        Option.bind (strchr cur_seg (char_u8 (CHR ''/''))) (\<lambda>slash.
        Option.bind (case slash of Some k \<Rightarrow> Some k | None \<Rightarrow> strlen cur_seg) (\<lambda>seg_len.
          if seg_match (at m (p + 4)) cur_seg seg_len then
            (if slash = None \<or> cur_seg (Suc (the slash)) = 0
             then Some (sint (ucast (p - struct_base) :: u32))
             else path_loop m struct_base (adv (Suc (the slash)) cur_seg)
                    (align (p + 4 + of_nat n + 1) 4))
          else
            Option.bind (skip_node m (align (p + 4 + of_nat n + 1) 4)) (\<lambda>q.
              if q = 0 then Some (-1) else path_loop m struct_base cur_seg q))))
      else if be32 m p = FDT_PROP then
        path_loop m struct_base cur_seg (align (p + 4 + 8 + ucast (be32 m (p + 4))) 4)
      else if be32 m p = FDT_NOP then path_loop m struct_base cur_seg (p + 4)
      else Some (-1))"

definition fdt_path_offset :: "bytes \<Rightarrow> u64 \<Rightarrow> cptr \<Rightarrow> int option" where
  "fdt_path_offset m fdt path =
     (if fdt_magic m fdt \<noteq> 0xd00dfeed then Some (-1)
      else let struct_base = fdt + ucast (off_dt_struct m fdt)
      in if path 0 \<noteq> char_u8 (CHR ''/'') then Some (-1)
         else if path 1 = 0 then Some 0
         else if be32 m struct_base = FDT_BEGIN_NODE then
           Option.bind (strlen (at m (struct_base + 4))) (\<lambda>n.
             path_loop m struct_base (adv 1 path) (align (struct_base + 4 + of_nat n + 1) 4))
         else path_loop m struct_base (adv 1 path) struct_base)"

text \<open>\<open>fdt_getprop\<close>: the address of the value and its length; \<open>Some None\<close> for NULL.\<close>

partial_function (option) getprop_loop ::
    "bytes \<Rightarrow> u64 \<Rightarrow> cptr \<Rightarrow> u64 \<Rightarrow> (u64 \<times> u32) option option" where
  "getprop_loop m strings_base name p =
     (if be32 m p = FDT_PROP then
        Option.bind (strcmp (at m (strings_base + ucast (be32 m (p + 4 + 4)))) name) (\<lambda>c.
          if c = 0 then Some (Some (p + 4 + 8, be32 m (p + 4)))
          else getprop_loop m strings_base name (align (p + 4 + 8 + ucast (be32 m (p + 4))) 4))
      else if be32 m p = FDT_NOP then getprop_loop m strings_base name (p + 4)
      else Some None)"

definition fdt_getprop :: "bytes \<Rightarrow> u64 \<Rightarrow> int \<Rightarrow> cptr \<Rightarrow> (u64 \<times> u32) option option" where
  "fdt_getprop m fdt nodeoffset name =
     (let struct_base = fdt + ucast (off_dt_struct m fdt);
          strings_base = fdt + ucast (off_dt_strings m fdt);
          p = struct_base + of_int nodeoffset
      in if be32 m p \<noteq> FDT_BEGIN_NODE then Some None
         else Option.bind (strlen (at m (p + 4))) (\<lambda>n.
           getprop_loop m strings_base name (align (p + 4 + of_nat n + 1) 4)))"

subsection \<open>Device trees and their encoding\<close>

text \<open>A node: its name, its properties (offset of the name in the strings block, value), and
  its children.\<close>

datatype dt = Node (dt_name: "u8 list") (dt_props: "(u32 \<times> u8 list) list") (dt_children: "dt list")

datatype token = Begin "u8 list" | Prop u32 "u8 list" | End

definition be_bytes :: "u32 \<Rightarrow> u8 list" where
  "be_bytes v = [ucast (drop_bit 24 v), ucast (drop_bit 16 v), ucast (drop_bit 8 v), ucast v]"

definition pad4 :: "u8 list \<Rightarrow> u8 list" where
  "pad4 xs = xs @ replicate ((length xs + 3) div 4 * 4 - length xs) 0"

fun token_bytes :: "token \<Rightarrow> u8 list" where
  "token_bytes (Begin n) = be_bytes FDT_BEGIN_NODE @ pad4 (n @ [0])"
| "token_bytes (Prop off v) =
     be_bytes FDT_PROP @ be_bytes (of_nat (length v)) @ be_bytes off @ pad4 v"
| "token_bytes End = be_bytes FDT_END_NODE"

fun tokens :: "dt \<Rightarrow> token list" where
  "tokens (Node n ps cs) =
     Begin n # map (\<lambda>(off, v). Prop off v) ps @ concat (map tokens cs) @ [End]"

fun token_ok :: "token \<Rightarrow> bool" where
  "token_ok (Begin n) \<longleftrightarrow> 0 \<notin> set n"
| "token_ok (Prop off v) \<longleftrightarrow> length v < 2 ^ 32"
| "token_ok End \<longleftrightarrow> True"

abbreviation tlen :: "token list \<Rightarrow> nat" where
  "tlen ts \<equiv> length (concat (map token_bytes ts))"

text \<open>The tokens lie at an aligned address and end before the top of the address space.\<close>

definition stream :: "bytes \<Rightarrow> u64 \<Rightarrow> token list \<Rightarrow> bool" where
  "stream m p ts \<longleftrightarrow> holds m p (concat (map token_bytes ts)) \<and> (\<forall>t \<in> set ts. token_ok t) \<and>
     4 dvd unat p \<and> unat p + tlen ts + 8 \<le> 2 ^ 64"

text \<open>The lookups on trees.  A segment names a node when it is the name up to a unit
  address.\<close>

definition seg_names :: "u8 list \<Rightarrow> u8 list \<Rightarrow> bool" where
  "seg_names seg name \<longleftrightarrow> name = seg \<or> (\<exists>u. name = seg @ char_u8 (CHR ''@'') # u)"

definition head_len :: "dt \<Rightarrow> nat" where
  "head_len t = tlen (Begin (dt_name t) # map (\<lambda>(off, v). Prop off v) (dt_props t))"

function find_path :: "nat \<Rightarrow> dt list \<Rightarrow> u8 list list \<Rightarrow> nat option" where
  "find_path off [] segs = None"
| "find_path off (c # cs) [] = None"
| "find_path off (c # cs) (s # ss) =
     (if seg_names s (dt_name c) then
        (if ss = [] then Some off else find_path (off + head_len c) (dt_children c) ss)
      else find_path (off + tlen (tokens c)) cs (s # ss))"
  by pat_completeness auto
termination
  by (relation "measure (\<lambda>(off, cs, ss). size_list size cs)") (auto simp: dt.size_neq intro: le_imp_less_Suc; case_tac c; simp)+

fun find_prop :: "(u32 \<Rightarrow> u8 list) \<Rightarrow> u8 list \<Rightarrow> nat \<Rightarrow> (u32 \<times> u8 list) list \<Rightarrow> (nat \<times> u8 list) option" where
  "find_prop names name off [] = None"
| "find_prop names name off ((o', v) # ps) =
     (if names o' = name then Some (off + 12, v)
      else find_prop names name (off + length (token_bytes (Prop o' v))) ps)"


subsection \<open>Reading one token\<close>

lemma align_step:
  assumes "4 dvd unat p" and "unat p + k + 4 \<le> 2 ^ 64"
  shows "align (p + of_nat k) 4 = p + of_nat ((k + 3) div 4 * 4)"
proof -
  obtain q where q: "unat p = 4 * q" using assms(1) by (auto elim: dvdE)
  have k: "unat (p + of_nat k) = unat p + k"
    using assms(2) by (simp add: unat_word_ariths unsigned_of_nat take_bit_nat_eq_self)
  have "unat (align (p + of_nat k) 4) = (unat p + k + 3) div 4 * 4"
    using assms(2) k by (subst align4) simp_all
  also have "\<dots> = unat p + (k + 3) div 4 * 4" unfolding q by presburger
  finally have "unat (align (p + of_nat k) 4) = unat p + (k + 3) div 4 * 4" .
  moreover have "unat (p + of_nat ((k + 3) div 4 * 4)) = unat p + (k + 3) div 4 * 4"
  proof -
    have "(k + 3) div 4 * 4 \<le> k + 3" by simp
    then have l: "unat p + (k + 3) div 4 * 4 < 2 ^ 64" using assms(2) by linarith
    then have "unat (of_nat ((k + 3) div 4 * 4) :: u64) = (k + 3) div 4 * 4"
      by (intro unat_of_nat64) linarith
    then show ?thesis using l by (simp add: unat_word_ariths del: of_nat_mult)
  qed
  ultimately show ?thesis by (simp only: word_unat_eq_iff)
qed

lemma length_be_bytes [simp]: "length (be_bytes v) = 4"
  by (simp add: be_bytes_def)

lemma length_pad4 [simp]: "length (pad4 xs) = (length xs + 3) div 4 * 4"
  by (simp add: pad4_def)

lemma be32_holds: "holds m p (be_bytes v) \<Longrightarrow> be32 m p = v"
proof -
  assume "holds m p (be_bytes v)"
  then have "at m p i = be_bytes v ! i" if "i < 4" for i
    using that by (simp add: holds_def at_def)
  from this [of 0] this [of 1] this [of 2] this [of 3] show ?thesis
    unfolding be32_def by (intro fdt32_to_cpu_be) (simp_all add: be_bytes_def numeral_eq_Suc)
qed

lemma name_holds: "holds m p (pad4 (n @ [0])) \<Longrightarrow> 0 \<notin> set n \<Longrightarrow> cstr (at m p) n"
  unfolding pad4_def holds_append [of m p "n @ [0]"] by (blast intro: cstr_holds)

lemma token_len4: "4 dvd length (token_bytes t)"
  by (cases t) simp_all

lemma stream_Cons:
  assumes "stream m p (t # ts)"
  shows "holds m p (token_bytes t)" "token_ok t" "4 dvd unat p"
    "unat p + length (token_bytes t) + 8 \<le> 2 ^ 64"
    "stream m (p + of_nat (length (token_bytes t))) ts"
proof -
  from assms have h: "holds m p (token_bytes t @ concat (map token_bytes ts))"
    and l: "unat p + (length (token_bytes t) + tlen ts) + 8 \<le> 2 ^ 64" "4 dvd unat p"
    and k: "\<forall>u \<in> set (t # ts). token_ok u"
    by (simp_all add: stream_def)
  show "holds m p (token_bytes t)" "token_ok t" "4 dvd unat p"
    "unat p + length (token_bytes t) + 8 \<le> 2 ^ 64"
    using h l k by (simp_all add: holds_append)
  have "unat (p + of_nat (length (token_bytes t))) = unat p + length (token_bytes t)"
    using l by (simp add: unat_word_ariths unsigned_of_nat take_bit_nat_eq_self)
  then show "stream m (p + of_nat (length (token_bytes t))) ts"
    using h l k token_len4 [of t] by (simp add: stream_def holds_append)
qed

lemma stream_append:
  "stream m p (ts @ us) \<Longrightarrow> stream m (p + of_nat (tlen ts)) us"
proof (induction ts arbitrary: p)
  case (Cons t ts)
  then have "stream m (p + of_nat (length (token_bytes t))) (ts @ us)"
    using stream_Cons(5) by simp
  then show ?case using Cons.IH [of "p + of_nat (length (token_bytes t))"] by (simp add: add.assoc)
qed simp

lemma begin_token:
  assumes "stream m p (Begin n # ts)"
  shows "be32 m p = FDT_BEGIN_NODE" "cstr (at m (p + 4)) n" "strlen (at m (p + 4)) = Some (length n)"
    "align (p + 4 + of_nat (length n) + 1) 4 = p + of_nat (length (token_bytes (Begin n)))"
proof -
  note s = stream_Cons [OF assms]
  have h: "holds m p (be_bytes 1)" "holds m (p + 4) (pad4 (n @ [0]))" "0 \<notin> set n"
    using s(1,2) by (simp_all add: holds_append)
  show "be32 m p = FDT_BEGIN_NODE" using be32_holds [OF h(1)] by simp
  show c: "cstr (at m (p + 4)) n" by (rule name_holds [OF h(2,3)])
  show "strlen (at m (p + 4)) = Some (length n)" by (rule strlen_cstr [OF c])
  have "p + 4 + of_nat (length n) + 1 = p + of_nat (4 + length n + 1)" by simp
  moreover have "(4 + length n + 1 + 3) div 4 * 4 = 4 + (length n + 1 + 3) div 4 * 4" by presburger
  moreover have "length n + 1 \<le> (length n + 1 + 3) div 4 * 4" by simp
  ultimately show "align (p + 4 + of_nat (length n) + 1) 4 = p + of_nat (length (token_bytes (Begin n)))"
    using align_step [OF s(3), of "4 + length n + 1"] s(4) by (simp add: ac_simps)
qed

lemma prop_token:
  assumes "stream m p (Prop off v # ts)"
  shows "be32 m p = FDT_PROP" "be32 m (p + 4) = of_nat (length v)" "be32 m (p + 4 + 4) = off"
    "holds m (p + 4 + 8) v"
    "align (p + 4 + 8 + ucast (be32 m (p + 4))) 4 = p + of_nat (length (token_bytes (Prop off v)))"
proof -
  note s = stream_Cons [OF assms]
  have h: "holds m p (be_bytes 3)" "holds m (p + 4) (be_bytes (of_nat (length v)))"
    "holds m (p + 4 + 4) (be_bytes off)" "holds m (p + 4 + 4 + 4) (pad4 v)" "length v < 2 ^ 32"
    using s(1,2) by (simp_all add: holds_append)
  show "be32 m p = FDT_PROP" using be32_holds [OF h(1)] by simp
  show b: "be32 m (p + 4) = of_nat (length v)" by (rule be32_holds [OF h(2)])
  show "be32 m (p + 4 + 4) = off" by (rule be32_holds [OF h(3)])
  show "holds m (p + 4 + 8) v" using h(4) by (simp add: pad4_def holds_append)
  have u: "(ucast (of_nat (length v) :: u32) :: u64) = of_nat (length v)"
    using h(5) by (simp add: unsigned_ucast_eq word_unat_eq_iff unsigned_of_nat take_bit_nat_eq_self)
  have "p + 4 + 8 + of_nat (length v) = p + of_nat (12 + length v)" by simp
  moreover have "(12 + length v + 3) div 4 * 4 = 12 + (length v + 3) div 4 * 4" by presburger
  moreover have "length v \<le> (length v + 3) div 4 * 4" by simp
  ultimately show "align (p + 4 + 8 + ucast (be32 m (p + 4))) 4 = p + of_nat (length (token_bytes (Prop off v)))"
    using align_step [OF s(3), of "12 + length v"] s(4) by (simp add: b u ac_simps)
qed

lemma end_token:
  assumes "stream m p (End # ts)"
  shows "be32 m p = FDT_END_NODE" "p + 4 = p + of_nat (length (token_bytes End))"
  using be32_holds [of m p 2] stream_Cons(1) [OF assms] by simp_all


subsection \<open>\<open>skip_node\<close> over a subtree\<close>

lemma skip_begin:
  assumes "stream m p (Begin n # ts)" and "0 < l"
  shows "skip_loop m l p = skip_loop m (Suc l) (p + of_nat (length (token_bytes (Begin n))))"
  using begin_token [OF assms(1)] assms(2)
  by (subst skip_loop.simps) (simp del: token_bytes.simps)

lemma skip_prop:
  assumes "stream m p (Prop off v # ts)" and "0 < l"
  shows "skip_loop m l p = skip_loop m l (p + of_nat (length (token_bytes (Prop off v))))"
  using prop_token [OF assms(1)] assms(2)
  by (subst skip_loop.simps) (simp del: token_bytes.simps)

lemma skip_end:
  assumes "stream m p (End # ts)"
  shows "skip_loop m (Suc l) p = skip_loop m l (p + of_nat (length (token_bytes End)))"
  using end_token [OF assms] by (subst skip_loop.simps) (simp del: token_bytes.simps)

lemma skip_props:
  "stream m p (map (\<lambda>(off, v). Prop off v) ps @ ts) \<Longrightarrow> 0 < l \<Longrightarrow>
   skip_loop m l p = skip_loop m l (p + of_nat (tlen (map (\<lambda>(off, v). Prop off v) ps)))"
proof (induction ps arbitrary: p)
  case (Cons a ps)
  obtain off v where a: "a = (off, v)" by (cases a)
  let ?q = "p + of_nat (length (token_bytes (Prop off v)))"
  have s: "stream m p (Prop off v # map (\<lambda>(off, v). Prop off v) ps @ ts)" using Cons.prems(1) a by simp
  have "skip_loop m l ?q = skip_loop m l (?q + of_nat (tlen (map (\<lambda>(off, v). Prop off v) ps)))"
    using stream_Cons(5) [OF s] Cons.prems(2) by (intro Cons.IH)
  then show ?case using skip_prop [OF s Cons.prems(2)] by (simp add: a add.assoc del: token_bytes.simps)
qed simp

lemma skip_tree:
  "stream m p (tokens t @ ts) \<Longrightarrow> 0 < l \<Longrightarrow>
   skip_loop m l p = skip_loop m l (p + of_nat (tlen (tokens t)))"
proof (induction t arbitrary: p l ts)
  case (Node n ps cs)
  have kids: "skip_loop m l q = skip_loop m l (q + of_nat (tlen (concat (map tokens ds))))"
    if "stream m q (concat (map tokens ds) @ us)" "0 < l" "set ds \<subseteq> set cs" for q ds us l
    using that
  proof (induction ds arbitrary: q)
    case (Cons d ds)
    let ?q = "q + of_nat (tlen (tokens d))"
    have s: "stream m q (tokens d @ concat (map tokens ds) @ us)" using Cons.prems(1) by simp
    have "skip_loop m l q = skip_loop m l ?q" using Cons.prems by (intro Node.IH [OF _ s]) simp_all
    also have "\<dots> = skip_loop m l (?q + of_nat (tlen (concat (map tokens ds))))"
      using stream_append [OF s] Cons.prems by (intro Cons.IH) simp_all
    finally show ?case by (simp add: add.assoc)
  qed simp
  let ?P = "map (\<lambda>(off, v). Prop off v) ps" and ?C = "concat (map tokens cs)"
  have s: "stream m p (Begin n # ?P @ ?C @ End # ts)" using Node.prems(1) by simp
  let ?p1 = "p + of_nat (length (token_bytes (Begin n)))"
  note s1 = stream_Cons(5) [OF s]
  let ?p2 = "?p1 + of_nat (tlen ?P)"
  note s2 = stream_append [OF s1]
  let ?p3 = "?p2 + of_nat (tlen ?C)"
  note s3 = stream_append [OF s2]
  have "skip_loop m l p = skip_loop m (Suc l) ?p1" by (rule skip_begin [OF s Node.prems(2)])
  also have "\<dots> = skip_loop m (Suc l) ?p2" using skip_props [OF s1] by simp
  also have "\<dots> = skip_loop m (Suc l) ?p3" using kids [OF s2] by simp
  also have "\<dots> = skip_loop m l (?p3 + of_nat (length (token_bytes End)))" by (rule skip_end [OF s3])
  finally show ?case by (simp add: add.assoc del: token_bytes.simps)
qed

text \<open>From just behind the name of a node to just behind its end.\<close>

lemma skip_node_body:
  assumes "stream m p (tokens t @ ts)"
  shows "skip_node m (p + of_nat (length (token_bytes (Begin (dt_name t))))) =
    Some (p + of_nat (tlen (tokens t)))"
proof -
  obtain n ps cs where t: "t = Node n ps cs" by (cases t)
  have s: "stream m p (Begin n # map (\<lambda>(off, v). Prop off v) ps @ concat (map tokens cs) @ End # ts)"
    using assms t by simp
  have "skip_loop m 0 q = Some q" for q by (subst skip_loop.simps) simp
  moreover have "skip_loop m 1 (p + of_nat (length (token_bytes (Begin n)))) =
      skip_loop m 0 (p + of_nat (tlen (tokens t)))"
  proof -
    let ?P = "map (\<lambda>(off, v). Prop off v) ps" and ?C = "concat (map tokens cs)"
    let ?p1 = "p + of_nat (length (token_bytes (Begin n)))"
    note s1 = stream_Cons(5) [OF s]
    let ?p2 = "?p1 + of_nat (tlen ?P)"
    note s2 = stream_append [OF s1]
    have kids: "skip_loop m 1 q = skip_loop m 1 (q + of_nat (tlen (concat (map tokens ds))))"
      if "stream m q (concat (map tokens ds) @ us)" for q ds us
      using that
    proof (induction ds arbitrary: q)
      case (Cons d ds)
      have s: "stream m q (tokens d @ concat (map tokens ds) @ us)" using Cons.prems by simp
      show ?case
        using skip_tree [OF s, of 1] Cons.IH [OF stream_append [OF s]] by (simp add: add.assoc)
    qed simp
    have "skip_loop m 1 ?p1 = skip_loop m 1 ?p2" using skip_props [OF s1] by simp
    also have "\<dots> = skip_loop m 1 (?p2 + of_nat (tlen ?C))" by (rule kids [OF s2])
    also have "\<dots> = skip_loop m 0 (?p2 + of_nat (tlen ?C) + of_nat (length (token_bytes End)))"
      using skip_end [OF stream_append [OF s2], of 0] by simp
    finally show ?thesis by (simp add: t add.assoc del: token_bytes.simps)
  qed
  ultimately show ?thesis by (simp add: skip_node_def t)
qed


subsection \<open>\<open>fdt_path_offset\<close> finds the node of the path\<close>

abbreviation slash :: u8 where "slash \<equiv> char_u8 (CHR ''/'')"

fun join_path :: "u8 list list \<Rightarrow> u8 list" where
  "join_path [] = []"
| "join_path [s] = s"
| "join_path (s # t # ss) = s @ slash # join_path (t # ss)"

definition segs_ok :: "u8 list list \<Rightarrow> bool" where
  "segs_ok ss \<longleftrightarrow> (\<forall>s \<in> set ss. s \<noteq> [] \<and> 0 \<notin> set s \<and> slash \<notin> set s)"

lemma slash_nz [simp]: "slash \<noteq> 0"
  by (simp add: char_u8_eq_0)

lemma seg_match_names:
  assumes n: "cstr node name" and c: "cstr cur (seg @ rest)"
  shows "seg_match node cur (length seg) \<longleftrightarrow> seg_names seg name"
proof
  assume "seg_match node cur (length seg)"
  then have e: "\<And>i. i < length seg \<Longrightarrow> node i = seg ! i"
    and z: "node (length seg) = 0 \<or> node (length seg) = char_u8 (CHR ''@'')"
    unfolding seg_match_def strncmp_cstr_right [OF c, of "length seg", simplified]
    by (auto simp: nth_append)
  have sz: "seg ! i \<noteq> 0" if "i < length seg" for i
    using c nth_mem [OF that] by (auto simp: cstr_def)
  have le: "length seg \<le> length name"
    using e [of "length name"] sz [of "length name"] cstr_end [OF n] by (cases "length name < length seg") auto
  have "name ! i = seg ! i" if "i < length seg" for i
    using e [OF that] cstrD [OF n, of i] that le by simp
  then have t: "take (length seg) name = seg" using le by (intro nth_equalityI) simp_all
  show "seg_names seg name"
  proof (cases "length seg = length name")
    case True
    then show ?thesis using t by (simp add: seg_names_def)
  next
    case False
    then have l: "length seg < length name" using le by simp
    then have "name ! length seg = char_u8 (CHR ''@'')" using z cstrD [OF n l] by auto
    then have "drop (length seg) name = char_u8 (CHR ''@'') # drop (Suc (length seg)) name"
      using Cons_nth_drop_Suc [OF l] by simp
    then have "name = seg @ char_u8 (CHR ''@'') # drop (Suc (length seg)) name"
      using append_take_drop_id [of "length seg" name] t by simp
    then show ?thesis unfolding seg_names_def by blast
  qed
next
  assume "seg_names seg name"
  then have le: "length seg \<le> length name" and e: "\<And>i. i < length seg \<Longrightarrow> name ! i = seg ! i"
    and z: "length seg = length name \<or> name ! length seg = char_u8 (CHR ''@'')"
    by (auto simp: seg_names_def nth_append)
  have "node i = seg ! i" if "i < length seg" for i
    using e [OF that] cstrD [OF n, of i] that le by simp
  moreover have "node (length seg) = 0 \<or> node (length seg) = char_u8 (CHR ''@'')"
    using z cstr_end [OF n] cstrD [OF n, of "length seg"] le by (cases "length seg = length name") auto
  ultimately show "seg_match node cur (length seg)"
    unfolding seg_match_def strncmp_cstr_right [OF c, of "length seg", simplified]
    by (auto simp: nth_append)
qed

text \<open>The first segment of the rest of the path.\<close>

lemma join_path_Cons:
  "ss \<noteq> [] \<Longrightarrow> join_path (s # ss) = s @ slash # join_path ss"
  by (cases ss) simp_all

lemma first_segment:
  assumes c: "cstr cur (join_path (s # ss))" and ok: "segs_ok (s # ss)"
  shows "strchr cur slash = Some (if ss = [] then None else Some (length s))"
    "ss = [] \<Longrightarrow> strlen cur = Some (length s)"
    "\<exists>rest. cstr cur (s @ rest)"
    "ss \<noteq> [] \<Longrightarrow> cstr (adv (Suc (length s)) cur) (join_path ss) \<and> cur (Suc (length s)) \<noteq> 0"
proof -
  have s: "slash \<notin> set s" using ok by (simp add: segs_ok_def)
  then have all: "\<forall>x \<in> set s. x \<noteq> slash" by auto
  then have t: "takeWhile (\<lambda>x. x \<noteq> slash) s = s" "ss \<noteq> [] \<Longrightarrow> takeWhile (\<lambda>x. x \<noteq> slash) (s @ slash # join_path ss) = s"
    by (auto simp: takeWhile_append takeWhile_eq_all_conv)
  show "strchr cur slash = Some (if ss = [] then None else Some (length s))"
    using strchr_cstr [OF c slash_nz] s t(2) by (cases "ss = []") (simp_all add: join_path_Cons)
  show "ss = [] \<Longrightarrow> strlen cur = Some (length s)" using strlen_cstr [OF c] by simp
  show "\<exists>rest. cstr cur (s @ rest)"
    using c by (cases "ss = []") (auto simp: join_path_Cons intro: exI [of _ "[]"])
  assume n: "ss \<noteq> []"
  then have j: "join_path (s # ss) = s @ slash # join_path ss" by (rule join_path_Cons)
  have c': "cstr (adv (Suc (length s)) cur) (join_path ss)"
    using cstr_adv [OF c, of "Suc (length s)"] by (simp add: j)
  moreover have "0 < length (join_path ss)"
    using n ok by (cases ss rule: join_path.cases) (auto simp: segs_ok_def)
  then have "adv (Suc (length s)) cur 0 \<noteq> 0" using cstrD [OF c', of 0, THEN conjunct2] by simp
  ultimately show "cstr (adv (Suc (length s)) cur) (join_path ss) \<and> cur (Suc (length s)) \<noteq> 0"
    by (simp add: adv_def)
qed

lemma path_props:
  "stream m p (map (\<lambda>(off, v). Prop off v) ps @ ts) \<Longrightarrow>
   path_loop m sb cur p = path_loop m sb cur (p + of_nat (tlen (map (\<lambda>(off, v). Prop off v) ps)))"
proof (induction ps arbitrary: p)
  case (Cons a ps)
  obtain off v where a: "a = (off, v)" by (cases a)
  let ?q = "p + of_nat (length (token_bytes (Prop off v)))"
  have s: "stream m p (Prop off v # map (\<lambda>(off, v). Prop off v) ps @ ts)" using Cons.prems a by simp
  have "path_loop m sb cur p = path_loop m sb cur ?q"
    using prop_token [OF s] by (subst path_loop.simps) (simp del: token_bytes.simps)
  also have "\<dots> = path_loop m sb cur (?q + of_nat (tlen (map (\<lambda>(off, v). Prop off v) ps)))"
    using stream_Cons(5) [OF s] by (intro Cons.IH)
  finally show ?case by (simp add: a add.assoc del: token_bytes.simps)
qed simp


lemma offset_int:
  assumes "off < 2 ^ 31"
  shows "sint (ucast (sb + of_nat off - sb :: u64) :: u32) = int off"
  using assms by (simp add: unsigned_of_nat take_bit_nat_eq_self signed_of_nat signed_take_bit_int_eq_self)

lemma tokens_Cons:
  "tokens c = Begin (dt_name c) # map (\<lambda>(off, v). Prop off v) (dt_props c) @
     concat (map tokens (dt_children c)) @ [End]"
  by (cases c) simp

lemma path_kids:
  "stream m (sb + of_nat off) (concat (map tokens cs) @ End # ts) \<Longrightarrow> cstr cur (join_path segs) \<Longrightarrow>
   segs \<noteq> [] \<Longrightarrow> segs_ok segs \<Longrightarrow> off + tlen (concat (map tokens cs)) < 2 ^ 31 \<Longrightarrow>
   path_loop m sb cur (sb + of_nat off) =
     Some (case find_path off cs segs of Some r \<Rightarrow> int r | None \<Rightarrow> -1)"
proof (induction off cs segs arbitrary: cur ts rule: find_path.induct)
  case (1 off segs)
  then have "stream m (sb + of_nat off) (End # ts)" by simp
  from end_token(1) [OF this] show ?case by (subst path_loop.simps) simp
next
  case (2 off c cs)
  then show ?case by simp
next
  case (3 off c cs s ss)
  let ?p = "sb + of_nat off" and ?n = "dt_name c"
  let ?q = "?p + of_nat (length (token_bytes (Begin ?n)))"
  have st: "stream m ?p (tokens c @ concat (map tokens cs) @ End # ts)" using 3(3) by simp
  then have sb: "stream m ?p (Begin ?n # map (\<lambda>(off, v). Prop off v) (dt_props c) @
      concat (map tokens (dt_children c)) @ End # concat (map tokens cs) @ End # ts)"
    by (simp add: tokens_Cons)
  note bt = begin_token [OF sb]
  note fs = first_segment [OF 3(4,6)]
  obtain rest where rest: "cstr cur (s @ rest)" using fs(3) by blast
  have sm: "seg_match (at m (?p + 4)) cur (length s) \<longleftrightarrow> seg_names s ?n"
    by (rule seg_match_names [OF bt(2) rest])
  have len: "Option.bind (strchr cur slash) (\<lambda>sl.
      Option.bind (case sl of Some k \<Rightarrow> Some k | None \<Rightarrow> strlen cur) (f sl)) =
      f (if ss = [] then None else Some (length s)) (length s)" for f :: "nat option \<Rightarrow> nat \<Rightarrow> int option"
    using fs(1,2) by simp
  have step: "path_loop m sb cur ?p =
      (if seg_names s ?n then
         (if ss = [] then Some (sint (ucast (?p - sb) :: u32))
          else path_loop m sb (adv (Suc (length s)) cur) ?q)
       else Option.bind (skip_node m ?q) (\<lambda>q. if q = 0 then Some (-1) else path_loop m sb cur q))"
    using bt(1,3,4) fs(4)
    by (subst path_loop.simps) (simp add: len sm del: token_bytes.simps)
  show ?case
  proof (cases "seg_names s ?n")
    case True
    show ?thesis
    proof (cases "ss = []")
      case t: True
      have "off < 2 ^ 31" using 3(7) by simp
      then show ?thesis using step True t offset_int [of off sb] by simp
    next
      case False
      let ?P = "map (\<lambda>(off, v). Prop off v) (dt_props c)"
      have h: "head_len c = length (token_bytes (Begin ?n)) + tlen ?P" by (simp add: head_len_def)
      have kid: "stream m (sb + of_nat (off + head_len c))
          (concat (map tokens (dt_children c)) @ End # concat (map tokens cs) @ End # ts)"
        using stream_append [OF stream_Cons(5) [OF sb]] by (simp add: h add.assoc del: token_bytes.simps)
      have l: "off + head_len c + tlen (concat (map tokens (dt_children c))) < 2 ^ 31"
        using 3(7) by (simp add: tokens_Cons h del: token_bytes.simps)
      have "path_loop m sb cur ?p = path_loop m sb (adv (Suc (length s)) cur) (sb + of_nat (off + head_len c))"
        using step True False path_props [OF stream_Cons(5) [OF sb], of sb "adv (Suc (length s)) cur"]
        by (simp add: h add.assoc del: token_bytes.simps)
      also have "\<dots> = Some (case find_path (off + head_len c) (dt_children c) ss of Some r \<Rightarrow> int r | None \<Rightarrow> -1)"
        using 3(1) [OF True False kid _ False _ l] fs(4) [OF False] 3(6) by (simp add: segs_ok_def)
      finally show ?thesis using True False by simp
    qed
  next
    case False
    let ?r = "sb + of_nat (off + tlen (tokens c))"
    have sk: "skip_node m ?q = Some ?r" using skip_node_body [OF st] by (simp add: add.assoc del: token_bytes.simps)
    have s2: "stream m ?r (concat (map tokens cs) @ End # ts)"
      using stream_append [OF st] by (simp add: add.assoc)
    have "?r \<noteq> 0"
    proof -
      have "unat ?p + tlen (tokens c) + 8 \<le> 2 ^ 64" using st by (simp add: stream_def)
      moreover have "4 \<le> tlen (tokens c)" by (simp add: tokens_Cons)
      ultimately have "unat (?p + of_nat (tlen (tokens c))) = unat ?p + tlen (tokens c)"
        by (simp add: unat_word_ariths unsigned_of_nat take_bit_nat_eq_self)
      then have "unat ?r = unat ?p + tlen (tokens c)" by (simp only: add.assoc of_nat_add)
      then have "unat ?r \<noteq> 0" using \<open>4 \<le> tlen (tokens c)\<close> by linarith
      then show ?thesis by (metis unat_0)
    qed
    then have "path_loop m sb cur ?p = path_loop m sb cur ?r" using step False sk by simp
    also have "\<dots> = Some (case find_path (off + tlen (tokens c)) cs (s # ss) of Some r \<Rightarrow> int r | None \<Rightarrow> -1)"
      using 3(4-7) by (intro 3(2) [OF False s2]) simp_all
    finally show ?thesis using False by simp
  qed
qed


text \<open>A device tree blob in memory: the header and the structure block that encodes the
  root.\<close>

definition fdt_at :: "bytes \<Rightarrow> u64 \<Rightarrow> dt \<Rightarrow> bool" where
  "fdt_at m fdt root \<longleftrightarrow>
     fdt_magic m fdt = 0xd00dfeed \<and>
     stream m (fdt + ucast (off_dt_struct m fdt)) (tokens root) \<and> tlen (tokens root) < 2 ^ 31"

lemma fdt_path_offset_tree:
  assumes "fdt_at m fdt root" and "cstr path (slash # join_path segs)"
    and "segs \<noteq> []" and "segs_ok segs"
  shows "fdt_path_offset m fdt path =
    Some (case find_path (head_len root) (dt_children root) segs of Some r \<Rightarrow> int r | None \<Rightarrow> -1)"
proof -
  let ?sb = "fdt + ucast (off_dt_struct m fdt)" and ?P = "map (\<lambda>(off, v). Prop off v) (dt_props root)"
  have s: "stream m ?sb (Begin (dt_name root) # ?P @ concat (map tokens (dt_children root)) @ [End])"
    and l: "tlen (tokens root) < 2 ^ 31" and mg: "fdt_magic m fdt = 0xd00dfeed"
    using assms(1) by (simp_all add: fdt_at_def tokens_Cons)
  note bt = begin_token [OF s]
  let ?q = "?sb + of_nat (length (token_bytes (Begin (dt_name root))))"
  have c: "cstr (adv 1 path) (join_path segs)" by (rule cstr_Cons_adv [OF assms(2)])
  have p: "path 0 = slash" "path 1 \<noteq> 0"
  proof -
    show "path 0 = slash" using cstrD [OF assms(2), of 0] by simp
    obtain s' ss where ss: "segs = s' # ss" using assms(3) by (cases segs) auto
    then have "join_path segs \<noteq> []" using assms(4) by (cases ss) (auto simp: segs_ok_def)
    then show "path 1 \<noteq> 0" using cstrD [OF c, of 0, THEN conjunct2] by (simp add: adv_def)
  qed
  have "fdt_path_offset m fdt path = path_loop m ?sb (adv 1 path) ?q"
    using mg p bt(1,3,4) by (simp add: fdt_path_offset_def Let_def del: token_bytes.simps)
  also have "\<dots> = path_loop m ?sb (adv 1 path) (?sb + of_nat (head_len root))"
    using path_props [OF stream_Cons(5) [OF s]] by (simp add: head_len_def add.assoc del: token_bytes.simps)
  also have "\<dots> = Some (case find_path (head_len root) (dt_children root) segs of Some r \<Rightarrow> int r | None \<Rightarrow> -1)"
  proof (rule path_kids [OF _ c assms(3,4)])
    show "stream m (?sb + of_nat (head_len root)) (concat (map tokens (dt_children root)) @ End # [])"
      using stream_append [OF stream_Cons(5) [OF s]] by (simp add: head_len_def add.assoc del: token_bytes.simps)
    show "head_len root + tlen (concat (map tokens (dt_children root))) < 2 ^ 31"
      using l by (simp add: tokens_Cons head_len_def del: token_bytes.simps)
  qed
  finally show ?thesis .
qed

subsection \<open>\<open>fdt_getprop\<close> finds the property\<close>

lemma getprop_props:
  assumes c: "cstr name nm"
  shows "(\<forall>(o', v) \<in> set ps. cstr (at m (sb + ucast o')) (names o')) \<Longrightarrow> stream m (p + of_nat off) (map (\<lambda>(off, v). Prop off v) ps @ t # ts) \<Longrightarrow> (\<And>o' v. t \<noteq> Prop o' v) \<Longrightarrow>
    getprop_loop m sb name (p + of_nat off) =
      Some (case find_prop names nm off ps of None \<Rightarrow> None | Some (o', v) \<Rightarrow> Some (p + of_nat o', of_nat (length v)))"
proof (induction ps arbitrary: off)
  case Nil
  then have s: "stream m (p + of_nat off) (t # ts)" by simp
  have "be32 m (p + of_nat off) \<noteq> FDT_PROP \<and> be32 m (p + of_nat off) \<noteq> FDT_NOP"
    using Nil.prems(3) begin_token(1) end_token(1) s by (cases t) auto
  then show ?case by (subst getprop_loop.simps) simp
next
  case (Cons a ps)
  obtain o' v where a: "a = (o', v)" by (cases a)
  have s: "stream m (p + of_nat off) (Prop o' v # map (\<lambda>(off, v). Prop off v) ps @ t # ts)"
    using Cons.prems(2) a by simp
  have nm: "cstr (at m (sb + ucast o')) (names o')" using Cons.prems(1) a by simp
  note pt = prop_token [OF s]
  obtain r where r: "strcmp (at m (sb + ucast o')) name = Some r" "r = 0 \<longleftrightarrow> names o' = nm"
    using strcmp_cstr [OF nm c] by blast
  show ?case
  proof (cases "names o' = nm")
    case True
    then have "getprop_loop m sb name (p + of_nat off) = Some (Some (p + of_nat off + 4 + 8, of_nat (length v)))"
      using pt r by (subst getprop_loop.simps) simp
    then show ?thesis using True a by (simp add: add.assoc)
  next
    case False
    have "getprop_loop m sb name (p + of_nat off) =
        getprop_loop m sb name (p + of_nat (off + length (token_bytes (Prop o' v))))"
      using pt r False by (subst getprop_loop.simps) (simp add: add.assoc del: token_bytes.simps)
    also have "\<dots> = Some (case find_prop names nm (off + length (token_bytes (Prop o' v))) ps of
        None \<Rightarrow> None | Some (o', v) \<Rightarrow> Some (p + of_nat o', of_nat (length v)))"
      using stream_Cons(5) [OF s] Cons.prems(1,3) by (intro Cons.IH) (simp_all add: add.assoc del: token_bytes.simps)
    finally show ?thesis using False a by (simp del: token_bytes.simps)
  qed
qed

text \<open>At the offset of any node of the tree.\<close>

lemma fdt_getprop_tree:
  assumes nm: "\<forall>(o', v) \<in> set (dt_props t). cstr (at m (fdt + ucast (off_dt_strings m fdt) + ucast o')) (names o')"
    and node: "stream m (fdt + ucast (off_dt_struct m fdt) + of_nat off) (tokens t @ ts)" and c: "cstr name nm"
  shows "fdt_getprop m fdt (int off) name =
    Some (case find_prop names nm (off + length (token_bytes (Begin (dt_name t)))) (dt_props t) of
      None \<Rightarrow> None
    | Some (o', v) \<Rightarrow> Some (fdt + ucast (off_dt_struct m fdt) + of_nat o', of_nat (length v)))"
proof -
  let ?sb = "fdt + ucast (off_dt_struct m fdt)" and ?st = "fdt + ucast (off_dt_strings m fdt)"
  obtain u us where us: "concat (map tokens (dt_children t)) @ End # ts = u # us" "\<And>o' v. u \<noteq> Prop o' v"
  proof (cases "dt_children t")
    case (Cons d ds)
    then show thesis by (intro that [of "Begin (dt_name d)"]) (simp_all add: tokens_Cons [of d])
  qed (auto intro: that)
  have s: "stream m (?sb + of_nat off) (Begin (dt_name t) # map (\<lambda>(off, v). Prop off v) (dt_props t) @ u # us)"
    using node us(1) by (simp add: tokens_Cons)
  note bt = begin_token [OF s]
  have "fdt_getprop m fdt (int off) name =
      getprop_loop m ?st name (?sb + of_nat (off + length (token_bytes (Begin (dt_name t)))))"
    using bt by (simp add: fdt_getprop_def Let_def add.assoc del: token_bytes.simps)
  also have "\<dots> = Some (case find_prop names nm (off + length (token_bytes (Begin (dt_name t)))) (dt_props t) of
      None \<Rightarrow> None | Some (o', v) \<Rightarrow> Some (?sb + of_nat o', of_nat (length v)))"
    using stream_Cons(5) [OF s] us(2) nm
    by (intro getprop_props c) (simp_all add: add.assoc del: token_bytes.simps)
  finally show ?thesis .
qed


subsection \<open>Properties\<close>

text \<open>A blob for the witnesses: one node \<open>chosen\<close> with a property \<open>reg\<close>.\<close>

definition tiny_dt :: dt where
  "tiny_dt = Node [] [] [Node (str8 ''cpus'') [] [], Node (str8 ''chosen'') [(0, [1, 2, 3, 4])] []]"

definition tiny_blob :: "u8 list" where
  "tiny_blob = be_bytes 0xd00dfeed @ be_bytes 100 @ be_bytes 16 @ be_bytes 76 @
     concat (map token_bytes (tokens tiny_dt)) @ str8 ''reg'' @ [0]"

lemma tiny_struct: "tlen (tokens tiny_dt) = 60"
  by (simp add: tiny_dt_def str8_def)

lemma tiny_at: "fdt_at (mem_of tiny_blob) 0 tiny_dt"
proof -
  have l: "length tiny_blob < 2 ^ 64"
    by (simp add: tiny_blob_def str8_def length_concat tiny_dt_def)
  have "be32 (mem_of tiny_blob) 0 = 0xd00dfeed"
    using mem_of_holds [of tiny_blob "[]" "be_bytes 0xd00dfeed"] l
    by (intro be32_holds) (simp add: tiny_blob_def)
  moreover have "be32 (mem_of tiny_blob) 8 = 16"
    using mem_of_holds [of tiny_blob "be_bytes 0xd00dfeed @ be_bytes 100" "be_bytes 16"] l
    by (intro be32_holds) (simp add: tiny_blob_def)
  moreover have "holds (mem_of tiny_blob) 16 (concat (map token_bytes (tokens tiny_dt)))"
    using mem_of_holds [of tiny_blob "be_bytes 0xd00dfeed @ be_bytes 100 @ be_bytes 16 @ be_bytes 76"
        "concat (map token_bytes (tokens tiny_dt))" "str8 ''reg'' @ [0]"] l
    by (simp add: tiny_blob_def del: tokens.simps token_bytes.simps)
  moreover have "\<forall>t \<in> set (tokens tiny_dt). token_ok t"
    by (auto simp: tiny_dt_def str8_nz)
  ultimately show ?thesis
    by (simp add: fdt_at_def fdt_magic_def off_dt_struct_def stream_def tiny_struct)
qed





end
