(* ===== verification/Uart.thy ===== *)
theory Uart
  imports Utils
begin

text \<open>
  src/lab7/src/uart.c: the text that \<open>uart_hex\<close>, \<open>uart_decimal\<close> and \<open>uart_printf\<close> produce, and
  the interrupt-driven driver with its two ring buffers.

  The device is a 16550-style UART seen through its registers: characters that have arrived
  and were not read (\<open>LSR_DR\<close>), free places of the transmitter (\<open>LSR_TDRQ\<close>), the characters
  sent so far, and the interrupt enable bits.  What the device does between two register
  accesses is the parameter \<open>hw\<close>.

  A ring refines a queue (\<open>contents\<close>); the interface \<open>fifo\<close> states that, and its client
  lemmas say that bytes come out in the order in which they went in.
\<close>

subsection \<open>Formatting\<close>

definition hex_char :: "u64 \<Rightarrow> u8" where
  "hex_char n = ucast (n + (if 9 < n then 0x57 else ucast (char_u8 (CHR ''0''))))"

definition uart_hex :: "u64 \<Rightarrow> u8 list" where
  "uart_hex h = str8 ''0x'' @ map (\<lambda>c. hex_char (drop_bit (60 - 4 * c) h AND 0xf)) [0..<16]"

text \<open>The digits in the order in which \<open>buf\<close> receives them.\<close>

function decimal_buf :: "u64 \<Rightarrow> u8 list" where
  "decimal_buf d =
     (if 0 < d then (char_u8 (CHR ''0'') + ucast (d mod 10)) # decimal_buf (d div 10) else [])"
  by pat_completeness auto
termination
proof (relation "measure unat")
  fix d :: u64
  assume "0 < d"
  then have "0 < unat d" by (simp add: word_less_nat_alt)
  then show "(d div 10, d) \<in> measure unat" by (simp add: unat_div)
qed simp

declare decimal_buf.simps [simp del]

definition uart_decimal :: "u64 \<Rightarrow> u8 list" where
  "uart_decimal d = (if d = 0 then [char_u8 (CHR ''0'')] else rev (decimal_buf d))"

text \<open>\<open>uart_printf\<close>: a variadic argument is a word or a pointer to a string.  Reading past the
  arguments, a string for a number, or a format that ends in a percent sign is undefined.\<close>

datatype varg = W u64 | S cptr

fun printf_bytes :: "u8 list \<Rightarrow> varg list \<Rightarrow> u8 list option" where
  "printf_bytes [] args = Some []"
| "printf_bytes (c # fmt) args =
     (if c \<noteq> char_u8 (CHR ''%'') then do { out \<leftarrow> printf_bytes fmt args; Some (c # out) }
      else (case fmt of
        [] \<Rightarrow> None
      | k # fmt' \<Rightarrow>
          if k = char_u8 (CHR ''c'') then
            (case args of W w # args' \<Rightarrow> do { out \<leftarrow> printf_bytes fmt' args'; Some (ucast w # out) } | _ \<Rightarrow> None)
          else if k = char_u8 (CHR ''s'') then
            (case args of S p # args' \<Rightarrow> do {
               n \<leftarrow> strlen p; out \<leftarrow> printf_bytes fmt' args'; Some (map p [0..<n] @ out) } | _ \<Rightarrow> None)
          else if k = char_u8 (CHR ''d'') then
            (case args of W w # args' \<Rightarrow> do {
               out \<leftarrow> printf_bytes fmt' args';
               Some ((if sint w < 0 then char_u8 (CHR ''-'') # uart_decimal (- w) else uart_decimal w) @ out) }
             | _ \<Rightarrow> None)
          else if k = char_u8 (CHR ''u'') then
            (case args of W w # args' \<Rightarrow> do { out \<leftarrow> printf_bytes fmt' args'; Some (uart_decimal w @ out) } | _ \<Rightarrow> None)
          else if k = char_u8 (CHR ''x'') \<or> k = char_u8 (CHR ''p'') then
            (case args of W w # args' \<Rightarrow> do { out \<leftarrow> printf_bytes fmt' args'; Some (uart_hex w @ out) } | _ \<Rightarrow> None)
          else if k = char_u8 (CHR ''%'') then do { out \<leftarrow> printf_bytes fmt' args; Some (k # out) }
          else do { out \<leftarrow> printf_bytes fmt' args; Some (char_u8 (CHR ''%'') # k # out) }))"

definition uart_printf :: "string \<Rightarrow> varg list \<Rightarrow> 'a machine_scheme \<Rightarrow> 'a machine_scheme option" where
  "uart_printf fmt args s = do { out \<leftarrow> printf_bytes (str8 fmt) args; Some (put_bytes out s) }"

subsection \<open>Ring buffers\<close>

definition RING_BUFFER_SIZE :: nat where "RING_BUFFER_SIZE = 4096"

record ring_buffer =
  buffer :: "u8 list"
  head :: nat
  tail :: nat

definition is_buf_empty :: "ring_buffer \<Rightarrow> bool" where
  "is_buf_empty rb \<longleftrightarrow> head rb = tail rb"

definition is_buf_full :: "ring_buffer \<Rightarrow> bool" where
  "is_buf_full rb \<longleftrightarrow> (head rb + 1) mod RING_BUFFER_SIZE = tail rb"

definition ring_put :: "u8 \<Rightarrow> ring_buffer \<Rightarrow> ring_buffer" where
  "ring_put c rb =
     rb\<lparr>buffer := (buffer rb)[head rb := c], head := (head rb + 1) mod RING_BUFFER_SIZE\<rparr>"

definition ring_get :: "ring_buffer \<Rightarrow> u8 \<times> ring_buffer" where
  "ring_get rb =
     (buffer rb ! tail rb, rb\<lparr>tail := (tail rb + 1) mod RING_BUFFER_SIZE\<rparr>)"

definition ring_init :: ring_buffer where
  "ring_init = \<lparr>buffer = replicate RING_BUFFER_SIZE 0, head = 0, tail = 0\<rparr>"

subsection \<open>The driver\<close>

record uart =
  rx_buf :: ring_buffer
  tx_buf :: ring_buffer
  rx_enabled :: bool  \<comment> \<open>bit 0 of \<open>UART_IER\<close>\<close>
  tx_enabled :: bool  \<comment> \<open>bit 1 of \<open>UART_IER\<close>\<close>
  irq_routed :: bool  \<comment> \<open>bit 3 of \<open>UART_MCR\<close>\<close>
  arrived :: "u8 list"  \<comment> \<open>received, not yet read from \<open>UART_RBR\<close>\<close>
  tx_room :: nat  \<comment> \<open>characters that \<open>UART_THR\<close> still takes\<close>
  sent :: "u8 list"  \<comment> \<open>characters written to \<open>UART_THR\<close>\<close>

definition uart_init :: "uart \<Rightarrow> uart" where
  "uart_init u = u\<lparr>irq_routed := True, rx_enabled := True\<rparr>"

text \<open>Writing \<open>UART_THR\<close> while \<open>LSR_TDRQ\<close> is set.\<close>

definition thr_write :: "u8 \<Rightarrow> uart \<Rightarrow> uart" where
  "thr_write c u = u\<lparr>sent := sent u @ [c], tx_room := tx_room u - 1\<rparr>"

function tx_loop :: "uart \<Rightarrow> uart" where
  "tx_loop u =
     (if \<not> is_buf_empty (tx_buf u) \<and> 0 < tx_room u then
        (case ring_get (tx_buf u) of (c, rb) \<Rightarrow> tx_loop (thr_write c (u\<lparr>tx_buf := rb\<rparr>)))
      else u)"
  by pat_completeness auto
termination by (relation "measure tx_room") (auto simp: thr_write_def)

declare tx_loop.simps [simp del]

definition handle_uart_tx :: "uart \<Rightarrow> uart" where
  "handle_uart_tx u =
     (let u1 = tx_loop u
      in if is_buf_empty (tx_buf u1) then u1\<lparr>tx_enabled := False\<rparr> else u1)"

text \<open>\<open>uart_putc\<close> with the interrupt-enable bit \<open>ien\<close> of its caller.  While the ring is full
  the loop restores the bit and waits for an interrupt: with the bit set the handler \<open>isr\<close>
  runs, with the bit clear nothing can change.\<close>

partial_function (option) putc_loop :: "(uart \<Rightarrow> uart option) \<Rightarrow> bool \<Rightarrow> u8 \<Rightarrow> uart \<Rightarrow> uart option" where
  "putc_loop isr ien c u =
     (if is_buf_full (tx_buf u) then
        (if ien then Option.bind (isr u) (putc_loop isr ien c) else putc_loop isr ien c u)
      else Some (u\<lparr>tx_buf := ring_put c (tx_buf u), tx_enabled := True\<rparr>))"

definition uart_putc :: "(uart \<Rightarrow> uart option) \<Rightarrow> bool \<Rightarrow> u8 \<Rightarrow> uart \<Rightarrow> uart option" where
  "uart_putc isr ien c u =
     (if c = 10 then do { u1 \<leftarrow> putc_loop isr ien 13 u; putc_loop isr ien c u1 }
      else putc_loop isr ien c u)"

fun uart_puts :: "(uart \<Rightarrow> uart option) \<Rightarrow> bool \<Rightarrow> u8 list \<Rightarrow> uart \<Rightarrow> uart option" where
  "uart_puts isr ien [] u = Some u"
| "uart_puts isr ien (c # cs) u = do { u1 \<leftarrow> uart_putc isr ien c u; uart_puts isr ien cs u1 }"

text \<open>\<open>uart_putc_polling\<close> after its newline: wait for the transmitter, then write it; \<open>hw\<close> is the
  device between two reads of \<open>UART_LSR\<close>.\<close>

partial_function (option) polling_loop :: "(uart \<Rightarrow> uart) \<Rightarrow> u8 \<Rightarrow> uart \<Rightarrow> uart option" where
  "polling_loop hw c u =
     (if tx_room u = 0 then polling_loop hw c (hw u) else Some (thr_write c u))"

definition uart_putc_polling ::
    "(uart \<Rightarrow> uart) \<Rightarrow> (uart \<Rightarrow> uart option) \<Rightarrow> bool \<Rightarrow> u8 \<Rightarrow> uart \<Rightarrow> uart option" where
  "uart_putc_polling hw isr ien c u = do {
     u1 \<leftarrow> (if c = 10 then uart_putc isr ien 13 u else Some u);
     polling_loop hw c u1
   }"

fun uart_puts_polling ::
    "(uart \<Rightarrow> uart) \<Rightarrow> (uart \<Rightarrow> uart option) \<Rightarrow> bool \<Rightarrow> u8 list \<Rightarrow> uart \<Rightarrow> uart option" where
  "uart_puts_polling hw isr ien [] u = Some u"
| "uart_puts_polling hw isr ien (c # cs) u = do {
     u1 \<leftarrow> uart_putc_polling hw isr ien c u;
     uart_puts_polling hw isr ien cs u1
   }"

text \<open>One attempt of \<open>uart_getc\<close>: \<open>None\<close> is the branch that gives the CPU away and tries again.\<close>

definition uart_try_getc :: "uart \<Rightarrow> (u8 \<times> uart) option" where
  "uart_try_getc u =
     (if is_buf_empty (rx_buf u) then None
      else (case ring_get (rx_buf u) of (c, rb) \<Rightarrow> Some (c, u\<lparr>rx_buf := rb\<rparr>)))"

text \<open>\<open>handle_uart_rx\<close> runs in the trap handler, where interrupts are disabled; the overflow
  message is therefore sent with \<open>ien = False\<close>.\<close>

definition overflow_text :: "u8 list" where
  "overflow_text = str8 ''Kernel RX Buffer Overflow!'' @ [10]"

fun rx_loop :: "u8 list \<Rightarrow> uart \<Rightarrow> uart option" where
  "rx_loop [] u = Some (u\<lparr>arrived := []\<rparr>)"
| "rx_loop (c # cs) u =
     (if \<not> is_buf_full (rx_buf u) then rx_loop cs (u\<lparr>rx_buf := ring_put c (rx_buf u)\<rparr>)
      else uart_puts (\<lambda>_. None) False overflow_text (u\<lparr>arrived := cs\<rparr>))"

definition handle_uart_rx :: "uart \<Rightarrow> uart option" where
  "handle_uart_rx u = rx_loop (arrived u) u"

text \<open>\<open>UART_IIR\<close>: received data first, then an empty transmitter, 1 when nothing is pending.\<close>

definition uart_iir :: "uart \<Rightarrow> u8" where
  "uart_iir u =
     (if rx_enabled u \<and> arrived u \<noteq> [] then 4
      else if tx_enabled u \<and> 0 < tx_room u then 2 else 1)"

partial_function (option) uart_isr :: "uart \<Rightarrow> uart option" where
  "uart_isr u =
     (if uart_iir u AND 1 \<noteq> 0 then Some u
      else if uart_iir u AND 0xE = 4 \<or> uart_iir u AND 0xE = 0xC then
        Option.bind (handle_uart_rx u) uart_isr
      else if uart_iir u AND 0xE = 2 then uart_isr (handle_uart_tx u)
      else uart_isr u)"


subsection \<open>Decimal text\<close>

lemma u8_digit: "x < 10 \<Longrightarrow> unat (char_u8 (CHR ''0'') + of_nat x) = 48 + x"
  by (simp add: char_u8_def unat_word_ariths unsigned_of_nat take_bit_nat_eq_self)

lemma decimal_buf_value:
  "foldr (\<lambda>c n. 10 * n + (unat c - 48)) (decimal_buf d) 0 = unat d"
proof (induction d rule: decimal_buf.induct)
  case (1 d)
  show ?case
  proof (cases "0 < d")
    case True
    have "(ucast (d mod 10) :: u8) = of_nat (unat d mod 10)"
      by (simp add: unsigned_ucast_eq word_unat_eq_iff unat_mod unsigned_of_nat take_bit_nat_eq_self)
    then have "unat (char_u8 (CHR ''0'') + ucast (d mod 10)) = 48 + unat d mod 10"
      using u8_digit [of "unat d mod 10"] by simp
    then show ?thesis using 1 True by (subst decimal_buf.simps) (simp add: unat_div)
  next
    case False
    then have "d = 0" by (simp add: word_gt_0)
    then show ?thesis by (subst decimal_buf.simps) simp
  qed
qed

lemma decimal_buf_length: "unat d < 10 ^ k \<Longrightarrow> length (decimal_buf d) \<le> k"
proof (induction k arbitrary: d)
  case 0
  then have "d = 0" by (simp add: unat_eq_zero)
  then show ?case by (subst decimal_buf.simps) simp
next
  case (Suc k)
  then have "unat (d div 10) < 10 ^ k" by (simp add: unat_div div_less_iff_less_mult mult.commute)
  then show ?case using Suc.IH [of "d div 10"] by (subst decimal_buf.simps) simp
qed

lemma atoi_loop_cstr:
  "cstr s xs \<Longrightarrow> i \<le> length xs \<Longrightarrow>
   atoi_loop s i r = Some (foldl (\<lambda>r c. r * 10 + (ucast c - ucast (char_u8 (CHR ''0'')))) r (drop i xs))"
proof (induction "length xs - i" arbitrary: i r)
  case 0
  then have "s i = 0" using cstr_end [of s xs] by simp
  then show ?case using 0 by (subst atoi_loop.simps) simp
next
  case (Suc k)
  then have i: "i < length xs" by simp
  have x: "s i = xs ! i" "s i \<noteq> 0" using cstrD [OF Suc.prems(1) i] by auto
  have "atoi_loop s (Suc i) r' =
      Some (foldl (\<lambda>r c. r * 10 + (ucast c - ucast (char_u8 (CHR ''0'')))) r' (drop (Suc i) xs))" for r'
    using Suc by (intro Suc.hyps(1)) simp_all
  then show ?case using x Cons_nth_drop_Suc [OF i, symmetric] by (subst atoi_loop.simps) simp
qed

lemma u32_digit:
  assumes "x < 10"
  shows "(ucast (char_u8 (CHR ''0'') + of_nat x) - ucast (char_u8 (CHR ''0'')) :: u32) = of_nat x"
proof -
  have "x = 0 \<or> x = 1 \<or> x = 2 \<or> x = 3 \<or> x = 4 \<or> x = 5 \<or> x = 6 \<or> x = 7 \<or> x = 8 \<or> x = 9"
    using assms by (auto simp: numeral_eq_Suc less_Suc_eq)
  then show ?thesis by (elim disjE) (simp_all add: char_u8_def)
qed

lemma decimal_buf_atoi:
  "foldr (\<lambda>c r. r * 10 + (ucast c - ucast (char_u8 (CHR ''0'')))) (decimal_buf d) 0 = (ucast d :: u32)"
proof (induction d rule: decimal_buf.induct)
  case (1 d)
  show ?case
  proof (cases "0 < d")
    case True
    have m: "(ucast (d mod 10) :: u8) = of_nat (unat d mod 10)"
      by (simp add: unsigned_ucast_eq word_unat_eq_iff unat_mod unsigned_of_nat take_bit_nat_eq_self)
    have e: "(ucast (char_u8 (CHR ''0'') + ucast (d mod 10)) - ucast (char_u8 (CHR ''0'')) :: u32) =
        of_nat (unat d mod 10)"
      unfolding m by (rule u32_digit) simp
    have "(ucast d :: u32) = of_nat (unat d)" by simp
    also have "\<dots> = of_nat (unat d div 10) * 10 + of_nat (unat d mod 10)"
      by (metis (no_types) div_mult_mod_eq of_nat_add of_nat_mult of_nat_numeral)
    also have "of_nat (unat d div 10) = (ucast (d div 10) :: u32)"
    proof -
      have "(ucast (d div 10) :: u32) = of_nat (unat (d div 10))" by simp
      then show ?thesis by (simp only: unat_div) simp
    qed
    finally show ?thesis using 1 True e by (subst decimal_buf.simps) simp
  next
    case False
    then have "d = 0" by (simp add: word_gt_0)
    then show ?thesis by (subst decimal_buf.simps) simp
  qed
qed


lemma decimal_bytes:
  assumes "c \<in> set (uart_decimal d)"
  shows "48 \<le> unat c" "unat c < 58"
proof -
  have "48 \<le> unat c \<and> unat c < 58" if "c \<in> set (decimal_buf d)" for d
    using that
  proof (induction d rule: decimal_buf.induct)
    case (1 d)
    have m: "(ucast (d mod 10) :: u8) = of_nat (unat d mod 10)"
      by (simp add: unsigned_ucast_eq word_unat_eq_iff unat_mod unsigned_of_nat take_bit_nat_eq_self)
    have "unat (char_u8 (CHR ''0'') + ucast (d mod 10)) = 48 + unat d mod 10"
      unfolding m by (rule u8_digit) simp
    then show ?case using 1 by (subst (asm) decimal_buf.simps) (auto split: if_splits)
  qed
  moreover have "unat (char_u8 (CHR ''0'')) = 48" by (simp add: char_u8_def)
  ultimately show "48 \<le> unat c" "unat c < 58" using assms by (auto simp: uart_decimal_def split: if_splits)
qed

subsection \<open>A ring is a queue\<close>

definition ring_ok :: "ring_buffer \<Rightarrow> bool" where
  "ring_ok rb \<longleftrightarrow> length (buffer rb) = RING_BUFFER_SIZE \<and> head rb < RING_BUFFER_SIZE \<and>
     tail rb < RING_BUFFER_SIZE"

definition ring_count :: "ring_buffer \<Rightarrow> nat" where
  "ring_count rb = (if tail rb \<le> head rb then head rb - tail rb
     else RING_BUFFER_SIZE + head rb - tail rb)"

definition ring_at :: "ring_buffer \<Rightarrow> nat \<Rightarrow> nat" where
  "ring_at rb i = (tail rb + i) mod RING_BUFFER_SIZE"

definition contents :: "ring_buffer \<Rightarrow> u8 list" where
  "contents rb = map (\<lambda>i. buffer rb ! ring_at rb i) [0..<ring_count rb]"

lemma ring_mod:
  assumes "a < RING_BUFFER_SIZE" and "i \<le> RING_BUFFER_SIZE"
  shows "(a + i) mod RING_BUFFER_SIZE =
    (if a + i < RING_BUFFER_SIZE then a + i else a + i - RING_BUFFER_SIZE)"
proof (cases "a + i < RING_BUFFER_SIZE")
  case False
  then have "(a + i) mod RING_BUFFER_SIZE = (a + i - RING_BUFFER_SIZE) mod RING_BUFFER_SIZE"
    by (intro le_mod_geq) simp
  also have "\<dots> = a + i - RING_BUFFER_SIZE" using assms by simp
  finally show ?thesis using False by simp
qed simp

lemma ring_empty: "ring_ok rb \<Longrightarrow> is_buf_empty rb \<longleftrightarrow> contents rb = []"
  by (auto simp: ring_ok_def is_buf_empty_def contents_def ring_count_def)

lemma ring_full: "ring_ok rb \<Longrightarrow> is_buf_full rb \<longleftrightarrow> length (contents rb) = RING_BUFFER_SIZE - 1"
  using ring_mod [of "head rb" 1]
  by (auto simp: ring_ok_def is_buf_full_def contents_def ring_count_def RING_BUFFER_SIZE_def)

lemma ring_put_contents:
  assumes ok: "ring_ok rb" and nf: "\<not> is_buf_full rb"
  shows "ring_ok (ring_put c rb)" "contents (ring_put c rb) = contents rb @ [c]"
proof -
  have b: "length (buffer rb) = RING_BUFFER_SIZE" "head rb < RING_BUFFER_SIZE" "tail rb < RING_BUFFER_SIZE"
    using ok by (simp_all add: ring_ok_def)
  have N: "RING_BUFFER_SIZE = 4096" by (simp add: RING_BUFFER_SIZE_def)
  have h: "(head rb + 1) mod RING_BUFFER_SIZE \<noteq> tail rb" using nf by (simp add: is_buf_full_def)
  show "ring_ok (ring_put c rb)" using b N by (simp add: ring_ok_def ring_put_def)
  have n: "ring_count (ring_put c rb) = Suc (ring_count rb)"
    using h b ring_mod [of "head rb" 1] unfolding N
    by (auto simp: ring_count_def ring_put_def N split: if_splits)
  have le: "ring_count rb < RING_BUFFER_SIZE" using b by (auto simp: ring_count_def)
  have last: "ring_at rb (ring_count rb) = head rb"
    using b le ring_mod [of "tail rb" "ring_count rb"] by (auto simp: ring_at_def ring_count_def split: if_splits)
  have old: "ring_at rb i \<noteq> head rb" if "i < ring_count rb" for i
    using b le that ring_mod [of "tail rb" i] by (auto simp: ring_at_def ring_count_def split: if_splits)
  have "buffer (ring_put c rb) ! ring_at rb i = (if i = ring_count rb then c else buffer rb ! ring_at rb i)"
    if "i < Suc (ring_count rb)" for i
    using that old [THEN not_sym] last b by (cases "i = ring_count rb") (auto simp: ring_put_def)
  moreover have "ring_at (ring_put c rb) = ring_at rb" by (simp add: fun_eq_iff ring_at_def ring_put_def)
  ultimately show "contents (ring_put c rb) = contents rb @ [c]" by (simp add: contents_def n)
qed

lemma ring_get_contents:
  assumes ok: "ring_ok rb" and ne: "\<not> is_buf_empty rb"
  shows "fst (ring_get rb) = hd (contents rb)" "ring_ok (snd (ring_get rb))"
    "contents (snd (ring_get rb)) = tl (contents rb)" "contents rb \<noteq> []"
proof -
  have b: "length (buffer rb) = RING_BUFFER_SIZE" "head rb < RING_BUFFER_SIZE" "tail rb < RING_BUFFER_SIZE"
    using ok by (simp_all add: ring_ok_def)
  have ht: "head rb \<noteq> tail rb" using ne by (simp add: is_buf_empty_def)
  let ?r = "snd (ring_get rb)"
  show "ring_ok ?r" using b by (simp add: ring_ok_def ring_get_def RING_BUFFER_SIZE_def)
  have n: "ring_count rb = Suc (ring_count ?r)"
    using b ht ring_mod [of "tail rb" 1]
    by (auto simp: ring_count_def ring_get_def RING_BUFFER_SIZE_def split: if_splits)
  have at: "ring_at ?r i = ring_at rb (Suc i)" for i
    by (simp add: ring_at_def ring_get_def mod_simps)
  show "contents rb \<noteq> []" by (simp add: contents_def n)
  have "contents rb = buffer rb ! ring_at rb 0 # map (\<lambda>i. buffer rb ! ring_at rb (Suc i)) [0..<ring_count ?r]"
    unfolding contents_def n by (simp only: upt_conv_Cons zero_less_Suc map_Suc_upt [symmetric] list.map map_map comp_def)
  moreover have "ring_at rb 0 = tail rb" using b by (simp add: ring_at_def)
  moreover have "buffer ?r = buffer rb" by (simp add: ring_get_def)
  moreover have "contents ?r = map (\<lambda>i. buffer ?r ! ring_at ?r i) [0..<ring_count ?r]"
    by (simp only: contents_def)
  moreover have "fst (ring_get rb) = buffer rb ! tail rb" by (simp add: ring_get_def)
  ultimately show "fst (ring_get rb) = hd (contents rb)" "contents ?r = tl (contents rb)"
    by (simp_all only: at list.sel)
qed


text \<open>The interface of a bounded queue, and the ring as its implementation.\<close>

locale fifo =
  fixes ok :: "'b \<Rightarrow> bool"
    and elems :: "'b \<Rightarrow> 'e list"
    and put :: "'e \<Rightarrow> 'b \<Rightarrow> 'b"
    and get :: "'b \<Rightarrow> 'e \<times> 'b"
    and full :: "'b \<Rightarrow> bool"
    and vacant :: "'b \<Rightarrow> bool"
  assumes put_ok: "ok b \<Longrightarrow> \<not> full b \<Longrightarrow> ok (put c b) \<and> elems (put c b) = elems b @ [c]"
    and get_ok: "ok b \<Longrightarrow> \<not> vacant b \<Longrightarrow>
      ok (snd (get b)) \<and> elems b = fst (get b) # elems (snd (get b))"
    and vacant_ok: "ok b \<Longrightarrow> vacant b \<longleftrightarrow> elems b = []"
begin

text \<open>A put into a non-empty queue does not change what the next get returns.\<close>

lemma get_put:
  assumes "ok b" and "\<not> full b"
  shows "\<not> vacant (put c b)" "ok (snd (get (put c b)))"
    "fst (get (put c b)) = (if vacant b then c else fst (get b))"
    "elems (snd (get (put c b))) = (if vacant b then [] else elems (snd (get b)) @ [c])"
proof -
  have p: "ok (put c b)" "elems (put c b) = elems b @ [c]" using put_ok [OF assms] by simp_all
  show nv: "\<not> vacant (put c b)" using vacant_ok [OF p(1)] p(2) by simp
  have g: "ok (snd (get (put c b)))" "elems b @ [c] = fst (get (put c b)) # elems (snd (get (put c b)))"
    using get_ok [OF p(1) nv] p(2) by simp_all
  then show "ok (snd (get (put c b)))" by simp
  have "fst (get (put c b)) = (if vacant b then c else fst (get b)) \<and>
      elems (snd (get (put c b))) = (if vacant b then [] else elems (snd (get b)) @ [c])"
  proof (cases "vacant b")
    case True
    then show ?thesis using g(2) vacant_ok [OF assms(1)] by simp
  next
    case False
    then have "elems b = fst (get b) # elems (snd (get b))" using get_ok [OF assms(1)] by blast
    then have "fst (get b) # elems (snd (get b)) @ [c] = fst (get (put c b)) # elems (snd (get (put c b)))"
      using g(2) by simp
    then show ?thesis using False by simp
  qed
  then show "fst (get (put c b)) = (if vacant b then c else fst (get b))"
    "elems (snd (get (put c b))) = (if vacant b then [] else elems (snd (get b)) @ [c])" by blast+
qed

end

interpretation ring: fifo ring_ok contents ring_put ring_get is_buf_full is_buf_empty
proof (unfold_locales, goal_cases)
  case (1 b c)
  then show ?case using ring_put_contents by blast
next
  case (2 b)
  then show ?case using ring_get_contents [of b] by simp
next
  case (3 b)
  then show ?case by (rule ring_empty)
qed

subsection \<open>The driver moves streams\<close>

definition uart_ok :: "uart \<Rightarrow> bool" where
  "uart_ok u \<longleftrightarrow> ring_ok (rx_buf u) \<and> ring_ok (tx_buf u) \<and>
     (contents (tx_buf u) \<noteq> [] \<longrightarrow> tx_enabled u)"

text \<open>Everything handed to the transmitter, sent or still in the ring.\<close>

definition out_stream :: "uart \<Rightarrow> u8 list" where
  "out_stream u = sent u @ contents (tx_buf u)"

lemma tx_loop_stream:
  "ring_ok (tx_buf u) \<Longrightarrow>
   ring_ok (tx_buf (tx_loop u)) \<and> out_stream (tx_loop u) = out_stream u \<and>
   (is_buf_empty (tx_buf (tx_loop u)) \<or> tx_room (tx_loop u) = 0) \<and>
   rx_buf (tx_loop u) = rx_buf u \<and> arrived (tx_loop u) = arrived u \<and>
   tx_enabled (tx_loop u) = tx_enabled u \<and> rx_enabled (tx_loop u) = rx_enabled u \<and>
   (0 < tx_room u \<longrightarrow> \<not> is_buf_full (tx_buf (tx_loop u)))"
proof (induction u rule: tx_loop.induct)
  case (1 u)
  show ?case
  proof (cases "\<not> is_buf_empty (tx_buf u) \<and> 0 < tx_room u")
    case True
    obtain c rb where g: "ring_get (tx_buf u) = (c, rb)" by (cases "ring_get (tx_buf u)")
    let ?u = "thr_write c (u\<lparr>tx_buf := rb\<rparr>)"
    have r: "ring_ok rb" "contents (tx_buf u) = c # contents rb"
      using ring.get_ok [OF 1(2), of] True g by simp_all
    have nf: "\<not> is_buf_full rb"
    proof
      assume "is_buf_full rb"
      then have "Suc (length (contents rb)) = RING_BUFFER_SIZE"
        using ring_full [OF r(1)] by (simp add: RING_BUFFER_SIZE_def)
      moreover have "length (contents (tx_buf u)) < RING_BUFFER_SIZE"
        using 1(2) by (auto simp: contents_def ring_count_def ring_ok_def)
      ultimately show False using r(2) by simp
    qed
    have "ring_ok (tx_buf ?u)" using r(1) by (simp add: thr_write_def)
    then have IH: "ring_ok (tx_buf (tx_loop ?u)) \<and> out_stream (tx_loop ?u) = out_stream ?u \<and>
      (is_buf_empty (tx_buf (tx_loop ?u)) \<or> tx_room (tx_loop ?u) = 0) \<and>
      rx_buf (tx_loop ?u) = rx_buf ?u \<and> arrived (tx_loop ?u) = arrived ?u \<and>
      tx_enabled (tx_loop ?u) = tx_enabled ?u \<and> rx_enabled (tx_loop ?u) = rx_enabled ?u \<and>
      (0 < tx_room ?u \<longrightarrow> \<not> is_buf_full (tx_buf (tx_loop ?u)))"
      by (rule 1(1) [OF True g [symmetric]])
    have e: "tx_loop u = tx_loop ?u" using True g by (subst tx_loop.simps) simp
    have "out_stream ?u = out_stream u" using r(2) by (simp add: out_stream_def thr_write_def)
    moreover have "\<not> is_buf_full (tx_buf (tx_loop ?u))"
    proof (cases "0 < tx_room ?u")
      case False
      then have "tx_loop ?u = ?u" by (subst tx_loop.simps) simp
      then show ?thesis using nf by (simp add: thr_write_def)
    qed (use IH in blast)
    moreover have "rx_buf ?u = rx_buf u" "arrived ?u = arrived u" "tx_enabled ?u = tx_enabled u"
      "rx_enabled ?u = rx_enabled u" by (simp_all add: thr_write_def)
    ultimately show ?thesis using IH unfolding e by (elim conjE, intro conjI) (auto simp only:)
  next
    case False
    then have e: "tx_loop u = u" by (subst tx_loop.simps) auto
    have "\<not> is_buf_full (tx_buf u)" if "is_buf_empty (tx_buf u)"
      using that ring_full [OF 1(2)] ring_empty [OF 1(2)] by (simp add: RING_BUFFER_SIZE_def)
    then show ?thesis using False 1(2) unfolding e by auto
  qed
qed

lemma handle_uart_tx_stream:
  assumes "uart_ok u"
  shows "uart_ok (handle_uart_tx u)" "out_stream (handle_uart_tx u) = out_stream u"
    "tx_enabled (handle_uart_tx u) \<longrightarrow> tx_room (handle_uart_tx u) = 0"
    "rx_buf (handle_uart_tx u) = rx_buf u" "arrived (handle_uart_tx u) = arrived u"
    "rx_enabled (handle_uart_tx u) = rx_enabled u"
    "0 < tx_room u \<Longrightarrow> \<not> is_buf_full (tx_buf (handle_uart_tx u))"
proof -
  have t: "ring_ok (tx_buf u)" using assms by (simp add: uart_ok_def)
  note l = tx_loop_stream [OF t]
  note e = ring_empty [of "tx_buf (tx_loop u)"]
  have em: "contents (tx_buf (tx_loop u)) = []" if "contents (tx_buf u) = []"
  proof -
    have "tx_loop u = u" using that ring_empty [OF t] by (subst tx_loop.simps) simp
    then show ?thesis using that by simp
  qed
  show "uart_ok (handle_uart_tx u)" "out_stream (handle_uart_tx u) = out_stream u"
    "tx_enabled (handle_uart_tx u) \<longrightarrow> tx_room (handle_uart_tx u) = 0"
    "rx_buf (handle_uart_tx u) = rx_buf u" "arrived (handle_uart_tx u) = arrived u"
    "rx_enabled (handle_uart_tx u) = rx_enabled u"
    "0 < tx_room u \<Longrightarrow> \<not> is_buf_full (tx_buf (handle_uart_tx u))"
    using l e em assms
    by (auto simp: handle_uart_tx_def Let_def uart_ok_def out_stream_def)
qed


lemma putc_loop_ready:
  assumes ok: "uart_ok u" and nf: "\<not> is_buf_full (tx_buf u)"
  shows "\<exists>u'. putc_loop isr ien c u = Some u' \<and> uart_ok u' \<and> out_stream u' = out_stream u @ [c] \<and>
    rx_buf u' = rx_buf u \<and> arrived u' = arrived u"
  using assms ring_put_contents [of "tx_buf u" c]
  by (subst putc_loop.simps) (simp add: uart_ok_def out_stream_def)

text \<open>With interrupts disabled, a full ring is never drained: \<open>uart_putc\<close> does not return.\<close>

lemma putc_loop_stuck:
  assumes "is_buf_full (tx_buf u)"
  shows "putc_loop isr False c u = None"
proof -
  have "\<not> b \<longrightarrow> \<not> is_buf_full (tx_buf u)" if "putc_loop isr b c u = Some y" for b y
    by (rule putc_loop.raw_induct [where P = "\<lambda>isr b c u y. \<not> b \<longrightarrow> \<not> is_buf_full (tx_buf u)", OF _ that])
      (auto split: if_splits)
  then show ?thesis using assms by (cases "putc_loop isr False c u") blast+
qed

text \<open>An interrupt handler that drains: it keeps the streams and leaves a free place.\<close>

definition drains :: "(uart \<Rightarrow> uart option) \<Rightarrow> bool" where
  "drains isr \<longleftrightarrow> (\<forall>u. uart_ok u \<and> is_buf_full (tx_buf u) \<and> arrived u = [] \<longrightarrow>
     (\<exists>u'. isr u = Some u' \<and> uart_ok u' \<and> out_stream u' = out_stream u \<and>
       \<not> is_buf_full (tx_buf u') \<and> rx_buf u' = rx_buf u \<and> arrived u' = []))"

lemma putc_loop_drains:
  assumes ok: "uart_ok u" and a: "arrived u = []" and d: "drains isr"
  shows "\<exists>u'. putc_loop isr True c u = Some u' \<and> uart_ok u' \<and> out_stream u' = out_stream u @ [c] \<and>
    rx_buf u' = rx_buf u \<and> arrived u' = []"
proof (cases "is_buf_full (tx_buf u)")
  case True
  obtain u1 where u1: "isr u = Some u1" "uart_ok u1" "out_stream u1 = out_stream u"
    "\<not> is_buf_full (tx_buf u1)" "rx_buf u1 = rx_buf u" "arrived u1 = []"
    using d ok True a unfolding drains_def by blast
  have "putc_loop isr True c u = putc_loop isr True c u1"
    using True u1(1) by (subst putc_loop.simps) simp
  then show ?thesis using putc_loop_ready [OF u1(2,4), where isr = isr and ien = True and c = c] u1(3,5,6) by simp
next
  case False
  then show ?thesis using putc_loop_ready [OF ok False, where isr = isr and ien = True and c = c] a by simp
qed

lemma uart_putc_stream:
  assumes "uart_ok u" and "arrived u = []" and "drains isr"
  shows "\<exists>u'. uart_putc isr True c u = Some u' \<and> uart_ok u' \<and>
    out_stream u' = out_stream u @ putc_bytes c \<and> rx_buf u' = rx_buf u \<and> arrived u' = []"
proof (cases "c = 10")
  case True
  obtain u1 where u1: "putc_loop isr True 13 u = Some u1" "uart_ok u1" "out_stream u1 = out_stream u @ [13]"
    "rx_buf u1 = rx_buf u" "arrived u1 = []"
    using putc_loop_drains [OF assms, of 13] by blast
  obtain u2 where "putc_loop isr True c u1 = Some u2" "uart_ok u2" "out_stream u2 = out_stream u1 @ [c]"
    "rx_buf u2 = rx_buf u1" "arrived u2 = []"
    using putc_loop_drains [OF u1(2,5) assms(3), of c] by blast
  then show ?thesis using True u1 by (simp add: uart_putc_def putc_bytes_def)
next
  case False
  then show ?thesis using putc_loop_drains [OF assms, of c] by (simp add: uart_putc_def putc_bytes_def)
qed

lemma uart_puts_stream:
  "uart_ok u \<Longrightarrow> arrived u = [] \<Longrightarrow> drains isr \<Longrightarrow>
   \<exists>u'. uart_puts isr True cs u = Some u' \<and> uart_ok u' \<and>
     out_stream u' = out_stream u @ concat (map putc_bytes cs) \<and> rx_buf u' = rx_buf u \<and> arrived u' = []"
proof (induction cs arbitrary: u)
  case (Cons c cs)
  obtain u1 where u1: "uart_putc isr True c u = Some u1" "uart_ok u1"
    "out_stream u1 = out_stream u @ putc_bytes c" "rx_buf u1 = rx_buf u" "arrived u1 = []"
    using uart_putc_stream [OF Cons.prems] by blast
  obtain u2 where "uart_puts isr True cs u1 = Some u2" "uart_ok u2"
    "out_stream u2 = out_stream u1 @ concat (map putc_bytes cs)" "rx_buf u2 = rx_buf u1" "arrived u2 = []"
    using Cons.IH [OF u1(2,5) Cons.prems(3)] by blast
  then show ?case using u1 by simp
qed simp

lemma rx_loop_stream:
  "uart_ok u \<Longrightarrow> length (contents (rx_buf u)) + length cs < RING_BUFFER_SIZE \<Longrightarrow>
   \<exists>u'. rx_loop cs u = Some u' \<and> uart_ok u' \<and> contents (rx_buf u') = contents (rx_buf u) @ cs \<and>
     arrived u' = [] \<and> tx_buf u' = tx_buf u \<and> sent u' = sent u \<and> tx_enabled u' = tx_enabled u \<and>
     rx_enabled u' = rx_enabled u \<and> tx_room u' = tx_room u"
proof (induction cs arbitrary: u)
  case Nil
  then show ?case by (simp add: uart_ok_def)
next
  case (Cons c cs)
  let ?u = "u\<lparr>rx_buf := ring_put c (rx_buf u)\<rparr>"
  have r: "ring_ok (rx_buf u)" using Cons.prems(1) by (simp add: uart_ok_def)
  have nf: "\<not> is_buf_full (rx_buf u)" using ring_full [OF r] Cons.prems(2) by simp
  have ok: "uart_ok ?u" "contents (rx_buf ?u) = contents (rx_buf u) @ [c]"
    using ring_put_contents [OF r nf] Cons.prems(1) by (simp_all add: uart_ok_def)
  then show ?case using Cons.IH [OF ok(1)] Cons.prems(2) nf by fastforce
qed

text \<open>The interrupt handler: everything that arrived is in the receive ring, and the
  transmitter is busy or has nothing to do.\<close>

lemma uart_isr_ok:
  assumes ok: "uart_ok u" and re: "rx_enabled u"
    and fit: "length (contents (rx_buf u)) + length (arrived u) < RING_BUFFER_SIZE"
  shows "\<exists>u'. uart_isr u = Some u' \<and> uart_ok u' \<and> arrived u' = [] \<and>
    contents (rx_buf u') = contents (rx_buf u) @ arrived u \<and> out_stream u' = out_stream u \<and>
    (tx_enabled u' \<longrightarrow> tx_room u' = 0) \<and> (arrived u = [] \<longrightarrow> rx_buf u' = rx_buf u) \<and>
    (tx_enabled u \<and> 0 < tx_room u \<longrightarrow> \<not> is_buf_full (tx_buf u'))"
proof -
  have idle: "uart_isr v = Some v" if "arrived v = []" "tx_enabled v \<longrightarrow> tx_room v = 0" for v
    using that by (subst uart_isr.simps) (auto simp: uart_iir_def)
  have tx: "\<exists>u'. uart_isr v = Some u' \<and> uart_ok u' \<and> arrived u' = [] \<and> rx_buf u' = rx_buf v \<and>
      out_stream u' = out_stream v \<and> (tx_enabled u' \<longrightarrow> tx_room u' = 0) \<and>
      (tx_enabled v \<and> 0 < tx_room v \<longrightarrow> \<not> is_buf_full (tx_buf u'))"
    if "uart_ok v" "arrived v = []" for v
  proof (cases "tx_enabled v \<and> 0 < tx_room v")
    case True
    note h = handle_uart_tx_stream [OF that(1)]
    have "uart_isr v = uart_isr (handle_uart_tx v)"
      using True that(2) by (subst uart_isr.simps) (simp add: uart_iir_def)
    then show ?thesis using h that(2) True idle [of "handle_uart_tx v"] by auto
  next
    case False
    then show ?thesis using idle [of v] that by auto
  qed
  show ?thesis
  proof (cases "arrived u = []")
    case True
    then show ?thesis using tx [OF ok True] by auto
  next
    case False
    obtain v where v: "handle_uart_rx u = Some v" "uart_ok v" "contents (rx_buf v) = contents (rx_buf u) @ arrived u"
      "arrived v = []" "tx_buf v = tx_buf u" "sent v = sent u" "tx_enabled v = tx_enabled u" "tx_room v = tx_room u"
      using rx_loop_stream [OF ok fit] by (auto simp: handle_uart_rx_def)
    have "uart_isr u = uart_isr v"
      using False re v(1) by (subst uart_isr.simps) (simp add: uart_iir_def)
    moreover have "out_stream v = out_stream u" using v(5,6) by (simp add: out_stream_def)
    ultimately show ?thesis using tx [OF v(2,4)] v(3,7,8) False by auto
  qed
qed


text \<open>The real handler drains, when the device makes room before it interrupts: the argument
  of \<open>uart_isr\<close> is the state after \<open>wfi\<close>.\<close>

lemma uart_isr_drains:
  assumes "0 < k"
  shows "drains (\<lambda>u. uart_isr (u\<lparr>tx_room := k, rx_enabled := True\<rparr>))"
  unfolding drains_def
proof (intro allI impI, elim conjE)
  fix u :: uart
  assume u: "uart_ok u" "is_buf_full (tx_buf u)" "arrived u = []"
  let ?u = "u\<lparr>tx_room := k, rx_enabled := True\<rparr>"
  have t: "ring_ok (tx_buf u)" "ring_ok (rx_buf u)" using u(1) by (simp_all add: uart_ok_def)
  have "contents (tx_buf u) \<noteq> []" using ring_full [OF t(1)] u(2) by (auto simp: RING_BUFFER_SIZE_def)
  then have te: "tx_enabled ?u" using u(1) by (simp add: uart_ok_def)
  have fit: "length (contents (rx_buf ?u)) + length (arrived ?u) < RING_BUFFER_SIZE"
    using t(2) u(3) by (auto simp: contents_def ring_count_def ring_ok_def)
  have ok: "uart_ok ?u" using u(1) by (simp add: uart_ok_def)
  have "out_stream ?u = out_stream u" by (simp add: out_stream_def)
  then show "\<exists>u'. uart_isr ?u = Some u' \<and> uart_ok u' \<and> out_stream u' = out_stream u \<and>
      \<not> is_buf_full (tx_buf u') \<and> rx_buf u' = rx_buf u \<and> arrived u' = []"
    using uart_isr_ok [OF ok _ fit] te assms u(3) by auto
qed

subsection \<open>Properties\<close>

text \<open>C32: With interrupts enabled and a handler that drains the transmit ring, \<open>uart_puts\<close>
  returns for every text, and the characters handed to the transmitter, in the ring or already
  sent, are extended by exactly that text, each newline preceded by a carriage return.\<close>

theorem uart_puts_correct:
  assumes "uart_ok u" and "arrived u = []" and "drains isr"
  shows "\<exists>u'. uart_puts isr True cs u = Some u' \<and> uart_ok u' \<and>
    sent u' @ contents (tx_buf u') = sent u @ contents (tx_buf u) @ concat (map putc_bytes cs) \<and>
    rx_buf u' = rx_buf u"
  using uart_puts_stream [OF assms, of cs] by (auto simp: out_stream_def)

definition uart_start :: uart where
  "uart_start = \<lparr>rx_buf = ring_init, tx_buf = ring_init, rx_enabled = True, tx_enabled = False,
     irq_routed = True, arrived = [], tx_room = 0, sent = []\<rparr>"

lemma ring_init_ok: "ring_ok ring_init" "contents ring_init = []"
  by (simp_all add: ring_ok_def ring_init_def RING_BUFFER_SIZE_def contents_def ring_count_def)

lemma uart_start_ok: "uart_ok uart_start" "arrived uart_start = []"
  by (simp_all add: uart_ok_def uart_start_def ring_init_ok)

lemma uart_puts_correct_witness:
  "\<exists>u'. uart_puts (\<lambda>u. uart_isr (u\<lparr>tx_room := 16, rx_enabled := True\<rparr>)) True (str8 ''hi'' @ [10]) uart_start = Some u' \<and>
    sent u' @ contents (tx_buf u') = str8 ''hi'' @ [13, 10]"
  using uart_puts_correct [OF uart_start_ok uart_isr_drains [of 16], of "str8 ''hi'' @ [10]"]
  by (auto simp: uart_start_def ring_init_ok str8_def putc_bytes_def char_u8_def)

text \<open>C34: Called with interrupts disabled on a full transmit ring, \<open>uart_putc\<close> never returns: the
  wait loop restores the same disabled state and no handler can run.\<close>

theorem uart_putc_deadlock:
  assumes "is_buf_full (tx_buf u)"
  shows "uart_putc isr False c u = None"
  using putc_loop_stuck [OF assms] by (simp add: uart_putc_def)

lemma uart_putc_deadlock_witness:
  "uart_putc (\<lambda>_. None) False 65 (uart_start\<lparr>tx_buf := ring_init\<lparr>head := 4095\<rparr>\<rparr>) = None"
  by (rule uart_putc_deadlock) (simp add: is_buf_full_def ring_init_def RING_BUFFER_SIZE_def)

text \<open>C33: One run of \<open>uart_isr\<close> terminates when the received characters fit: it appends them in
  order to the receive ring, loses and reorders nothing of the transmit stream, and leaves the
  transmit interrupt enabled only while the transmitter is full.\<close>

theorem uart_isr_correct:
  assumes "uart_ok u" and "rx_enabled u"
    and "length (contents (rx_buf u)) + length (arrived u) < RING_BUFFER_SIZE"
  shows "\<exists>u'. uart_isr u = Some u' \<and> uart_ok u' \<and> arrived u' = [] \<and>
    contents (rx_buf u') = contents (rx_buf u) @ arrived u \<and>
    sent u' @ contents (tx_buf u') = sent u @ contents (tx_buf u) \<and>
    (tx_enabled u' \<longrightarrow> tx_room u' = 0)"
  using uart_isr_ok [OF assms] unfolding out_stream_def by blast

lemma uart_isr_correct_witness:
  "\<exists>u'. uart_isr (uart_start\<lparr>arrived := [104, 105]\<rparr>) = Some u' \<and> contents (rx_buf u') = [104, 105]"
proof -
  have "uart_ok (uart_start\<lparr>arrived := [104, 105]\<rparr>)" using uart_start_ok by (simp add: uart_ok_def)
  then show ?thesis using uart_isr_correct [of "uart_start\<lparr>arrived := [104, 105]\<rparr>"]
    by (auto simp: uart_start_def ring_init_ok RING_BUFFER_SIZE_def)
qed

text \<open>C35: A ring buffer is a first-in first-out queue: a put on a ring that is not full appends,
  and the next get returns the oldest element also across the wrap of the indices.\<close>

theorem ring_fifo:
  assumes "ring_ok rb" and "\<not> is_buf_full rb"
  shows "contents (ring_put c rb) = contents rb @ [c] \<and>
    fst (ring_get (ring_put c rb)) = hd (contents rb @ [c]) \<and>
    contents (snd (ring_get (ring_put c rb))) = tl (contents rb @ [c])"
  using ring_put_contents [OF assms, of c] ring.get_put(1) [OF assms, of c]
    ring_get_contents [of "ring_put c rb"] by simp

lemma ring_fifo_witness:
  "contents (ring_put 7 ring_init) = contents ring_init @ [7] \<and>
   fst (ring_get (ring_put 7 ring_init)) = hd (contents ring_init @ [7])"
  using ring_fifo [OF ring_init_ok(1), of 7] by (simp add: is_buf_full_def ring_init_def RING_BUFFER_SIZE_def)

text \<open>C36: Decimal output and \<open>atoi\<close> are inverse: \<open>atoi\<close> of the text that \<open>uart_decimal\<close> prints for
  a number is that number modulo 2^32, and the text never exceeds the 20 bytes of its buffer.\<close>

theorem decimal_atoi_roundtrip:
  assumes "cstr s (uart_decimal d)"
  shows "atoi s = Some (ucast d) \<and> length (uart_decimal d) \<le> 20"
proof -
  have "atoi s = Some (foldl (\<lambda>r c. r * 10 + (ucast c - ucast (char_u8 (CHR ''0'')))) 0 (uart_decimal d))"
    using atoi_loop_cstr [OF assms, of 0 0] by (simp add: atoi_def)
  moreover have "length (decimal_buf d) \<le> 20"
    by (intro decimal_buf_length less_trans [OF unat_lt64]) simp
  ultimately show ?thesis
    using decimal_buf_atoi [of d] by (simp add: uart_decimal_def foldl_conv_foldr)
qed

lemma decimal_atoi_roundtrip_witness: "atoi (lit ''4096'') = Some 4096"
proof -
  have "uart_decimal 4096 = str8 ''4096''"
    by (simp add: uart_decimal_def decimal_buf.simps str8_def char_u8_def)
  then show ?thesis using decimal_atoi_roundtrip [of "lit ''4096''" 4096] lit_str8 [of "''4096''"] by simp
qed

end
