(* ===== verification/Cpio.thy ===== *)
theory Cpio
  imports Fdt Uart
begin

text \<open>
  src/lab7/src/cpio.c: the newc archive of the initial RAM disk.  The four walks over the
  archive follow the sources, including the 32-bit offsets of \<open>cpio_ls\<close> and \<open>cpio_cat\<close> and the
  64-bit steps of \<open>cpio_get_file\<close>.

  The specification side is a list of entries with its encoding (\<open>archive\<close>); the lemmas show
  that the walks find every file, in order, with its data.
\<close>

subsection \<open>The functions of cpio.c\<close>

text \<open>\<open>struct cpio_newc_header\<close>: six bytes of magic and thirteen fields of eight digits; the
  offsets of the two fields in use and the size.\<close>

definition c_filesize :: "bytes \<Rightarrow> u64 \<Rightarrow> u32" where
  "c_filesize m p = hextoi (at m (p + 54)) 8"

definition c_namesize :: "bytes \<Rightarrow> u64 \<Rightarrow> u32" where
  "c_namesize m p = hextoi (at m (p + 94)) 8"

definition hdr_size :: u64 where "hdr_size = 110"

definition magic_ok :: "bytes \<Rightarrow> u64 \<Rightarrow> bool" where
  "magic_ok m p \<longleftrightarrow> strncmp (at m p) (lit ''070701'') 6 = 0"

text \<open>The 32-bit offset of the next header in \<open>cpio_ls\<close> and \<open>cpio_cat\<close>.\<close>

definition data_offset32 :: "u32 \<Rightarrow> u32" where
  "data_offset32 namesize = (ucast hdr_size + namesize + 3) AND NOT 3"

definition next_offset32 :: "u32 \<Rightarrow> u32 \<Rightarrow> u32" where
  "next_offset32 namesize filesize = (data_offset32 namesize + filesize + 3) AND NOT 3"

partial_function (option) ls_loop :: "bytes \<Rightarrow> u64 \<Rightarrow> u8 list option" where
  "ls_loop m p =
     (if \<not> magic_ok m p then Some []
      else Option.bind (strcmp (at m (p + hdr_size)) (lit ''TRAILER!!!'')) (\<lambda>c.
        if c = 0 then Some []
        else Option.bind (strlen (at m (p + hdr_size))) (\<lambda>n.
             Option.bind (ls_loop m (p + ucast (next_offset32 (c_namesize m p) (c_filesize m p)))) (\<lambda>out.
          Some (uart_decimal (ucast (c_filesize m p)) @ str8 '' '' @
                map (at m (p + hdr_size)) [0..<n] @ [10] @ out)))))"

definition cpio_ls :: "u64 \<Rightarrow> 'a machine_scheme \<Rightarrow> 'a machine_scheme option" where
  "cpio_ls archive s = do { out \<leftarrow> ls_loop (mem s) archive; Some (put_bytes out s) }"

partial_function (option) cat_loop :: "bytes \<Rightarrow> cptr \<Rightarrow> u64 \<Rightarrow> u8 list option" where
  "cat_loop m name p =
     (if \<not> magic_ok m p then Some (str8 ''File not found!'' @ [10])
      else Option.bind (strcmp (at m (p + hdr_size)) (lit ''TRAILER!!!'')) (\<lambda>c.
        if c = 0 then Some (str8 ''File not found!'' @ [10])
        else Option.bind (strcmp (at m (p + hdr_size)) name) (\<lambda>d.
          if d = 0 then
            Some (map (\<lambda>i. m (p + ucast (data_offset32 (c_namesize m p)) + of_nat i))
                    [0..<unat (c_filesize m p)] @ [10])
          else cat_loop m name (p + ucast (next_offset32 (c_namesize m p) (c_filesize m p))))))"

definition cpio_cat :: "u64 \<Rightarrow> cptr \<Rightarrow> 'a machine_scheme \<Rightarrow> 'a machine_scheme option" where
  "cpio_cat archive name s = do { out \<leftarrow> cat_loop (mem s) name archive; Some (put_bytes out s) }"

text \<open>\<open>cpio_get_file\<close>: the address and the size, or \<open>Some None\<close> for NULL.\<close>

partial_function (option) get_file_loop :: "bytes \<Rightarrow> cptr \<Rightarrow> u64 \<Rightarrow> (u64 \<times> u64) option option" where
  "get_file_loop m name p =
     (if \<not> magic_ok m p then Some None
      else if memcmp (at m (p + hdr_size)) (lit ''TRAILER!!!'') 10 = 0 then Some None
      else Option.bind (strcmp (at m (p + hdr_size)) name) (\<lambda>c.
        if c = 0 then
          Some (Some (p + ucast (ucast (align (hdr_size + ucast (c_namesize m p)) 4) :: u32),
                      ucast (c_filesize m p)))
        else get_file_loop m name
               (p + (align (hdr_size + ucast (c_namesize m p)) 4 + align (ucast (c_filesize m p)) 4))))"

definition cpio_get_file :: "bytes \<Rightarrow> u64 \<Rightarrow> cptr \<Rightarrow> (u64 \<times> u64) option option" where
  "cpio_get_file m cpio_base filename =
     (if cpio_base = 0 then Some None else get_file_loop m filename cpio_base)"

text \<open>\<open>cpio_get_all_files\<close>: data, name, size and the next header.\<close>

definition cpio_get_all_files ::
    "bytes \<Rightarrow> u64 \<Rightarrow> u64 \<Rightarrow> (u64 \<times> u64 \<times> u64 \<times> u64) option option" where
  "cpio_get_all_files m cpio_base current_ptr =
     (let p = (if current_ptr = 0 then cpio_base else current_ptr);
          data_offset = (ucast (align (hdr_size + ucast (c_namesize m p)) 4) :: u32)
      in if p = 0 then Some None
         else if \<not> magic_ok m p then Some None
         else do {
           c \<leftarrow> strcmp (at m (p + hdr_size)) (lit ''TRAILER!!!'');
           Some (if c = 0 then None
                 else Some (p + ucast data_offset, p + hdr_size, ucast (c_filesize m p),
                            p + ucast data_offset + align (ucast (c_filesize m p)) 4))
         })"

text \<open>\<open>cpio_init\<close>: the address of the RAM disk from the device tree.\<close>

definition cpio_init :: "u64 \<Rightarrow> u64 \<Rightarrow> 'a machine_scheme \<Rightarrow> (u64 \<times> 'a machine_scheme) option" where
  "cpio_init fdt cpio_base s = do {
     chosen_off \<leftarrow> fdt_path_offset (mem s) fdt (lit ''/chosen'');
     base \<leftarrow>
       (if 0 \<le> chosen_off then do {
          r \<leftarrow> fdt_getprop (mem s) fdt chosen_off (lit ''linux,initrd-start'');
          Some (case r of
            None \<Rightarrow> cpio_base
          | Some (start_ptr, len) \<Rightarrow>
              if len = 4 then ucast (be32 (mem s) start_ptr)
              else push_bit 32 (ucast (be32 (mem s) start_ptr)) OR ucast (be32 (mem s) (start_ptr + 4)))
        } else Some cpio_base);
     Some (base,
       (if base \<noteq> 0
        then put_text ''\<newline>'' (put_bytes (uart_hex base) (put_text ''Initrd found at: '' s))
        else put_text ''Error: Could not find initrd in devicetree.\<newline>'' s))
   }"


subsection \<open>Archives and their encoding\<close>

text \<open>An entry: its name, its data and the eleven header fields that the kernel ignores.\<close>

datatype entry = Entry (e_name: "u8 list") (e_data: "u8 list") (e_attr: "nat \<Rightarrow> u32")

definition trailer_name :: "u8 list" where "trailer_name = str8 ''TRAILER!!!''"

definition header :: "entry \<Rightarrow> u8 list" where
  "header e = str8 ''070701'' @
     concat (map hex8 (map (e_attr e) [0..<6] @ [of_nat (length (e_data e))] @
       map (e_attr e) [6..<10] @ [of_nat (length (e_name e) + 1), e_attr e 10]))"

definition entry_bytes :: "entry \<Rightarrow> u8 list" where
  "entry_bytes e = pad4 (header e @ e_name e @ [0]) @ pad4 (e_data e)"

definition data_off :: "entry \<Rightarrow> nat" where
  "data_off e = (length (e_name e) + 114) div 4 * 4"

definition entry_ok :: "entry \<Rightarrow> bool" where
  "entry_ok e \<longleftrightarrow> 0 \<notin> set (e_name e) \<and> length (e_name e) < 2 ^ 30 \<and> length (e_data e) < 2 ^ 31"

text \<open>A whole archive: the files, none of them named like the trailer, and the trailer.\<close>

definition archive :: "entry list \<Rightarrow> (nat \<Rightarrow> u32) \<Rightarrow> u8 list" where
  "archive es a = concat (map entry_bytes es) @ entry_bytes (Entry trailer_name [] a)"

definition files_ok :: "entry list \<Rightarrow> bool" where
  "files_ok es \<longleftrightarrow> (\<forall>e \<in> set es. entry_ok e \<and> take 10 (e_name e) \<noteq> trailer_name)"

subsection \<open>Reading one entry\<close>

lemma length_hex8 [simp]: "length (hex8 v) = 8"
  by (simp add: hex8_def)

lemma length_header [simp]: "length (header e) = 110"
  by (simp add: header_def str8_def length_concat comp_def upt_rec numeral_eq_Suc)

lemma length_entry: "length (entry_bytes e) = data_off e + (length (e_data e) + 3) div 4 * 4"
  by (simp add: entry_bytes_def data_off_def)

lemma hextoi_at:
  assumes "holds m p (hex8 v)"
  shows "hextoi (at m p) 8 = v"
  using assms by (intro hextoi_hex8) (simp add: holds_def at_def)

lemma header_fields:
  assumes "holds m p (header e)"
  shows "magic_ok m p" "c_filesize m p = of_nat (length (e_data e))"
    "c_namesize m p = of_nat (length (e_name e) + 1)"
proof -
  let ?a = "concat (map hex8 (map (e_attr e) [0..<6]))" and ?b = "concat (map hex8 (map (e_attr e) [6..<10]))"
  have h: "holds m p (str8 ''070701'' @ ?a @ hex8 (of_nat (length (e_data e))) @ ?b @
      hex8 (of_nat (length (e_name e) + 1)) @ hex8 (e_attr e 10))"
    using assms by (simp add: header_def)
  have la: "length ?a = 48" "length ?b = 32" by (simp_all add: length_concat comp_def upt_rec numeral_eq_Suc)
  have lm: "length (str8 ''070701'') = 6" by (simp add: str8_def)
  have f: "holds m p (str8 ''070701'')" "holds m (p + 54) (hex8 (of_nat (length (e_data e))))"
    "holds m (p + 94) (hex8 (of_nat (length (e_name e) + 1)))"
    using h unfolding holds_append la lm length_hex8 by (simp_all add: add.assoc)
  show "c_filesize m p = of_nat (length (e_data e))" "c_namesize m p = of_nat (length (e_name e) + 1)"
    unfolding c_filesize_def c_namesize_def by (rule hextoi_at, rule f)+
  have c: "cstr (lit ''070701'') (str8 ''070701'')" by (rule lit_str8) simp
  show "magic_ok m p"
    unfolding magic_ok_def using f(1) strncmp_cstr_right [OF c, of 6] by (simp add: lm holds_def at_def)
qed

lemma entry_holds:
  assumes "holds m p (entry_bytes e)" and "entry_ok e"
  shows "magic_ok m p" "c_filesize m p = of_nat (length (e_data e))"
    "c_namesize m p = of_nat (length (e_name e) + 1)"
    "cstr (at m (p + hdr_size)) (e_name e)" "holds m (p + of_nat (data_off e)) (e_data e)"
proof -
  have l: "length (pad4 (header e @ e_name e @ [0])) = data_off e" by (simp add: data_off_def)
  have h: "holds m p (pad4 (header e @ e_name e @ [0]))" "holds m (p + of_nat (data_off e)) (pad4 (e_data e))"
    using assms(1) unfolding entry_bytes_def holds_append l by simp_all
  show "holds m (p + of_nat (data_off e)) (e_data e)" using h(2) by (simp add: pad4_def holds_append)
  obtain r where "pad4 (header e @ e_name e @ [0]) = header e @ (e_name e @ [0]) @ r"
    by (simp add: pad4_def)
  then have "holds m p (header e @ (e_name e @ [0]) @ r)" using h(1) by simp
  then have "holds m p (header e)" "holds m (p + 110) (e_name e @ [0])"
    unfolding holds_append length_header by (simp_all add: holds_append)
  then show "magic_ok m p" "c_filesize m p = of_nat (length (e_data e))"
    "c_namesize m p = of_nat (length (e_name e) + 1)" "cstr (at m (p + hdr_size)) (e_name e)"
    using header_fields [of m p e] cstr_holds [of m "p + 110" "e_name e"] assms(2)
    by (auto simp: hdr_size_def entry_ok_def)
qed

lemma u32_small: "n < 2 ^ 32 \<Longrightarrow> (ucast (of_nat n :: u32) :: u64) = of_nat n"
  by (simp add: unsigned_ucast_eq word_unat_eq_iff unsigned_of_nat take_bit_nat_eq_self)

lemma align_of_nat:
  assumes "n < 2 ^ 60"
  shows "align (of_nat n) 4 = of_nat ((n + 3) div 4 * 4)"
proof -
  have "unat (align (of_nat n) 4) = (n + 3) div 4 * 4"
    using assms unat_of_nat64 [of n] by (subst align4) simp_all
  moreover have "(n + 3) div 4 * 4 < 2 ^ 64" using assms by simp
  ultimately show ?thesis using unat_of_nat64 word_unat_eq_iff by metis
qed

lemma entry_offsets:
  assumes "entry_ok e"
  shows "align (hdr_size + ucast (of_nat (length (e_name e) + 1) :: u32)) 4 = of_nat (data_off e)"
    "ucast (ucast (of_nat (data_off e) :: u64) :: u32) = (of_nat (data_off e) :: u64)"
    "align (ucast (of_nat (length (e_data e)) :: u32)) 4 = of_nat ((length (e_data e) + 3) div 4 * 4)"
proof -
  have n: "length (e_name e) < 2 ^ 30" "length (e_data e) < 2 ^ 31" using assms by (simp_all add: entry_ok_def)
  have "hdr_size + ucast (of_nat (length (e_name e) + 1) :: u32) = of_nat (length (e_name e) + 111)"
    using n u32_small [of "length (e_name e) + 1"] by (simp add: hdr_size_def)
  then show "align (hdr_size + ucast (of_nat (length (e_name e) + 1) :: u32)) 4 = of_nat (data_off e)"
    using n align_of_nat [of "length (e_name e) + 111"] by (simp add: data_off_def add.commute)
  have d: "data_off e < 2 ^ 31" using n by (simp add: data_off_def)
  have "(ucast (of_nat (data_off e) :: u64) :: u32) = of_nat (data_off e)"
    by (simp add: word_unat_eq_iff unsigned_ucast_eq unsigned_of_nat)
  then show "ucast (ucast (of_nat (data_off e) :: u64) :: u32) = (of_nat (data_off e) :: u64)"
    using d u32_small [of "data_off e"] by simp
  show "align (ucast (of_nat (length (e_data e)) :: u32)) 4 = of_nat ((length (e_data e) + 3) div 4 * 4)"
    using n u32_small [of "length (e_data e)"] align_of_nat [of "length (e_data e)"] by simp
qed

lemma unat_of_nat32: "k < 2 ^ 32 \<Longrightarrow> unat (of_nat k :: u32) = k"
  by (simp add: unsigned_of_nat take_bit_nat_eq_self)

lemma round4_u32:
  assumes "k < 2 ^ 32"
  shows "((of_nat k :: u32) AND NOT 3) = of_nat (k div 4 * 4)"
proof -
  have m: "(3 :: u32) = mask 2" by (simp add: mask_eq_exp_minus_1)
  have l: "k div 4 * 4 < 2 ^ 32" using assms by (rule le_less_trans [OF div_times_less_eq_dividend])
  have "unat ((of_nat k :: u32) AND NOT 3) = k div 2 ^ 2 * 2 ^ 2"
    unfolding m unat_and_not_mask unat_of_nat32 [OF assms] by (rule refl)
  then have "unat ((of_nat k :: u32) AND NOT 3) = k div 4 * 4" by simp
  then show ?thesis unfolding word_unat_eq_iff unat_of_nat32 [OF l] by simp
qed

lemma entry_offsets32:
  assumes "entry_ok e"
  shows "data_offset32 (of_nat (length (e_name e) + 1)) = of_nat (data_off e)"
    "ucast (next_offset32 (of_nat (length (e_name e) + 1)) (of_nat (length (e_data e)))) =
       (of_nat (length (entry_bytes e)) :: u64)"
proof -
  have n: "length (e_name e) < 2 ^ 30" "length (e_data e) < 2 ^ 31" using assms by (simp_all add: entry_ok_def)
  note al = round4_u32
  have "ucast (110 :: u64) + of_nat (length (e_name e) + 1) + 3 = (of_nat (length (e_name e) + 114) :: u32)"
    by simp
  then have "data_offset32 (of_nat (length (e_name e) + 1)) = of_nat (length (e_name e) + 114) AND NOT 3"
    by (simp only: data_offset32_def hdr_size_def)
  also have "\<dots> = of_nat (data_off e)" using n unfolding data_off_def by (intro al) simp
  finally show d: "data_offset32 (of_nat (length (e_name e) + 1)) = of_nat (data_off e)" .
  have b: "data_off e < 2 ^ 31 - 3" using n by (simp add: data_off_def)
  have "next_offset32 (of_nat (length (e_name e) + 1)) (of_nat (length (e_data e))) =
      of_nat (data_off e + length (e_data e) + 3) AND NOT 3"
    unfolding next_offset32_def d by (simp only: of_nat_add of_nat_numeral)
  also have "\<dots> = of_nat ((data_off e + length (e_data e) + 3) div 4 * 4)"
    using n b by (intro al) simp
  also have "(data_off e + length (e_data e) + 3) div 4 * 4 = length (entry_bytes e)"
    unfolding length_entry data_off_def by presburger
  finally have nx: "next_offset32 (of_nat (length (e_name e) + 1)) (of_nat (length (e_data e))) =
      of_nat (length (entry_bytes e))" .
  have "length (entry_bytes e) < 2 ^ 32" using n b by (simp add: length_entry)
  then show "ucast (next_offset32 (of_nat (length (e_name e) + 1)) (of_nat (length (e_data e)))) =
      (of_nat (length (entry_bytes e)) :: u64)"
    unfolding nx by (rule u32_small)
qed


subsection \<open>The walks find every file\<close>

lemma trailer_entry:
  assumes "holds m p (entry_bytes (Entry trailer_name [] a))"
  shows "magic_ok m p" "strcmp (at m (p + hdr_size)) (lit ''TRAILER!!!'') = Some 0"
    "memcmp (at m (p + hdr_size)) (lit ''TRAILER!!!'') 10 = 0"
proof -
  have ok: "entry_ok (Entry trailer_name [] a)" by (simp add: entry_ok_def trailer_name_def str8_nz) (simp add: str8_def)
  note h = entry_holds [OF assms ok]
  show "magic_ok m p" by (rule h(1))
  have c: "cstr (at m (p + hdr_size)) trailer_name" using h(4) by simp
  have l: "cstr (lit ''TRAILER!!!'') trailer_name" unfolding trailer_name_def by (rule lit_str8) simp
  show "strcmp (at m (p + hdr_size)) (lit ''TRAILER!!!'') = Some 0" using strcmp_eq_0 [OF c l] by simp
  have "length trailer_name = 10" by (simp add: trailer_name_def str8_def)
  then show "memcmp (at m (p + hdr_size)) (lit ''TRAILER!!!'') 10 = 0"
    unfolding memcmp_eq_0 using cstrD [OF c] cstrD [OF l] by simp
qed

lemma file_not_trailer:
  assumes "holds m p (entry_bytes e)" and "entry_ok e" and "take 10 (e_name e) \<noteq> trailer_name"
  shows "\<exists>r. strcmp (at m (p + hdr_size)) (lit ''TRAILER!!!'') = Some r \<and> r \<noteq> 0"
    "memcmp (at m (p + hdr_size)) (lit ''TRAILER!!!'') 10 \<noteq> 0"
proof -
  have c: "cstr (at m (p + hdr_size)) (e_name e)" by (rule entry_holds [OF assms(1,2)])
  have l: "cstr (lit ''TRAILER!!!'') trailer_name" unfolding trailer_name_def by (rule lit_str8) simp
  have len: "length trailer_name = 10" by (simp add: trailer_name_def str8_def)
  then have "e_name e \<noteq> trailer_name" using assms(3) by auto
  then show "\<exists>r. strcmp (at m (p + hdr_size)) (lit ''TRAILER!!!'') = Some r \<and> r \<noteq> 0"
    using strcmp_cstr [OF c l] by blast
  show "memcmp (at m (p + hdr_size)) (lit ''TRAILER!!!'') 10 \<noteq> 0"
  proof
    assume "memcmp (at m (p + hdr_size)) (lit ''TRAILER!!!'') 10 = 0"
    then have e: "\<And>i. i < 10 \<Longrightarrow> at m (p + hdr_size) i = trailer_name ! i"
      unfolding memcmp_eq_0 using cstrD [OF l] len by simp
    have nz: "\<And>i. i < 10 \<Longrightarrow> at m (p + hdr_size) i \<noteq> 0" using e cstrD [OF l] len by metis
    have "10 \<le> length (e_name e)"
      using nz [of "length (e_name e)"] cstr_end [OF c] by (cases "length (e_name e) < 10") auto
    then have "take 10 (e_name e) = trailer_name"
      using e cstrD [OF c] len by (intro nth_equalityI) auto
    then show False using assms(3) by simp
  qed
qed

text \<open>The offset of an entry in the archive.\<close>

fun find_file :: "nat \<Rightarrow> entry list \<Rightarrow> u8 list \<Rightarrow> (nat \<times> nat) option" where
  "find_file off [] nm = None"
| "find_file off (e # es) nm =
     (if e_name e = nm then Some (off + data_off e, length (e_data e))
      else find_file (off + length (entry_bytes e)) es nm)"

lemma archive_Cons: "archive (e # es) a = entry_bytes e @ archive es a"
  by (simp add: archive_def)

lemma get_file_loop_archive:
  assumes c: "cstr name nm"
  shows "holds m (p + of_nat off) (archive es a) \<Longrightarrow> files_ok es \<Longrightarrow>
    get_file_loop m name (p + of_nat off) =
      Some (case find_file off es nm of None \<Rightarrow> None | Some (o', n) \<Rightarrow> Some (p + of_nat o', of_nat n))"
proof (induction es arbitrary: off)
  case Nil
  then have "holds m (p + of_nat off) (entry_bytes (Entry trailer_name [] a))" by (simp add: archive_def)
  note t = trailer_entry [OF this]
  then show ?case by (subst get_file_loop.simps) simp
next
  case (Cons e es)
  let ?p = "p + of_nat off"
  have h: "holds m ?p (entry_bytes e)" "holds m (?p + of_nat (length (entry_bytes e))) (archive es a)"
    using Cons.prems(1) by (simp_all add: archive_Cons holds_append)
  have ok: "entry_ok e" "take 10 (e_name e) \<noteq> trailer_name" "files_ok es"
    using Cons.prems(2) by (simp_all add: files_ok_def)
  note f = entry_holds [OF h(1) ok(1)] and o = entry_offsets [OF ok(1)]
    and nt = file_not_trailer(2) [OF h(1) ok(1,2)]
  obtain r where r: "strcmp (at m (?p + hdr_size)) name = Some r" "r = 0 \<longleftrightarrow> e_name e = nm"
    using strcmp_cstr [OF f(4) c] by blast
  have len: "(ucast (of_nat (length (e_data e)) :: u32) :: u64) = of_nat (length (e_data e))"
    using ok(1) by (intro u32_small) (simp add: entry_ok_def)
  show ?case
  proof (cases "e_name e = nm")
    case True
    then have "get_file_loop m name ?p = Some (Some (?p + of_nat (data_off e), of_nat (length (e_data e))))"
      using f(1-3) o nt r len by (subst get_file_loop.simps) (simp del: of_nat_add)
    then show ?thesis using True by (simp add: add.assoc)
  next
    case False
    have "get_file_loop m name ?p = get_file_loop m name (p + of_nat (off + length (entry_bytes e)))"
      using f(1-3) o nt r False len
      by (subst get_file_loop.simps) (simp add: length_entry add.assoc del: of_nat_Suc)
    then show ?thesis using False Cons.IH [of "off + length (entry_bytes e)"] h(2) ok(3) by (simp add: add.assoc)
  qed
qed

lemma get_all_entry:
  assumes h: "holds m p (entry_bytes e)" and ok: "entry_ok e" "take 10 (e_name e) \<noteq> trailer_name"
    and p: "p \<noteq> 0" "p = (if cur = 0 then base else cur)"
  shows "cpio_get_all_files m base cur =
    Some (Some (p + of_nat (data_off e), p + hdr_size, of_nat (length (e_data e)),
      p + of_nat (length (entry_bytes e))))"
proof -
  note f = entry_holds [OF h ok(1)] and o = entry_offsets [OF ok(1)]
  obtain r where r: "strcmp (at m (p + hdr_size)) (lit ''TRAILER!!!'') = Some r" "r \<noteq> 0"
    using file_not_trailer(1) [OF h ok] by blast
  have len: "(ucast (of_nat (length (e_data e)) :: u32) :: u64) = of_nat (length (e_data e))"
    using ok(1) by (intro u32_small) (simp add: entry_ok_def)
  show ?thesis
    unfolding cpio_get_all_files_def p(2) [symmetric] Let_def f(2,3) o(1) o(2) o(3) len o(3) [unfolded len]
    using p(1) f(1) r by (simp add: length_entry add.assoc)
qed

lemma get_all_trailer:
  assumes "holds m p (entry_bytes (Entry trailer_name [] a))" and "p = (if cur = 0 then base else cur)"
  shows "cpio_get_all_files m base cur = Some None"
  unfolding cpio_get_all_files_def assms(2) [symmetric] Let_def
  using trailer_entry [OF assms(1)] by simp

lemma cat_loop_archive:
  assumes c: "cstr name nm"
  shows "holds m p (archive es a) \<Longrightarrow> files_ok es \<Longrightarrow>
    cat_loop m name p =
      Some (case find (\<lambda>e. e_name e = nm) es of
        None \<Rightarrow> str8 ''File not found!'' @ [10] | Some e \<Rightarrow> e_data e @ [10])"
proof (induction es arbitrary: p)
  case Nil
  then have "holds m p (entry_bytes (Entry trailer_name [] a))" by (simp add: archive_def)
  note t = trailer_entry [OF this]
  then show ?case by (subst cat_loop.simps) simp
next
  case (Cons e es)
  have h: "holds m p (entry_bytes e)" "holds m (p + of_nat (length (entry_bytes e))) (archive es a)"
    using Cons.prems(1) by (simp_all add: archive_Cons holds_append)
  have ok: "entry_ok e" "take 10 (e_name e) \<noteq> trailer_name" "files_ok es"
    using Cons.prems(2) by (simp_all add: files_ok_def)
  note f = entry_holds [OF h(1) ok(1)] and o = entry_offsets32 [OF ok(1)]
  obtain t where t: "strcmp (at m (p + hdr_size)) (lit ''TRAILER!!!'') = Some t" "t \<noteq> 0"
    using file_not_trailer(1) [OF h(1) ok(1,2)] by blast
  obtain r where r: "strcmp (at m (p + hdr_size)) name = Some r" "r = 0 \<longleftrightarrow> e_name e = nm"
    using strcmp_cstr [OF f(4) c] by blast
  show ?case
  proof (cases "e_name e = nm")
    case True
    have "data_off e \<le> length (e_name e) + 114" by (simp add: data_off_def)
    then have n: "length (e_data e) < 2 ^ 32" "data_off e < 2 ^ 32"
      using ok(1) by (simp_all add: entry_ok_def)
    have u: "unat (of_nat (length (e_data e)) :: u32) = length (e_data e)"
      using n by (simp add: unsigned_of_nat take_bit_nat_eq_self)
    have "map (\<lambda>i. m (p + of_nat (data_off e) + of_nat i)) [0..<length (e_data e)] = e_data e"
      using f(5) by (intro nth_equalityI) (simp_all add: holds_def)
    then have "cat_loop m name p = Some (e_data e @ [10])"
      using f(1-3) o(1) t r True n(2)
      by (subst cat_loop.simps) (simp add: u u32_small del: of_nat_Suc of_nat_add)
    then show ?thesis using True by simp
  next
    case False
    have "cat_loop m name p = cat_loop m name (p + of_nat (length (entry_bytes e)))"
      using f(1-3) o(2) t r False by (subst cat_loop.simps) (simp del: of_nat_Suc of_nat_add)
    then show ?thesis using False Cons.IH [OF h(2) ok(3)] by simp
  qed
qed

lemma ls_loop_archive:
  "holds m p (archive es a) \<Longrightarrow> files_ok es \<Longrightarrow>
    ls_loop m p = Some (concat (map (\<lambda>e. uart_decimal (of_nat (length (e_data e))) @ str8 '' '' @ e_name e @ [10]) es))"
proof (induction es arbitrary: p)
  case Nil
  then have "holds m p (entry_bytes (Entry trailer_name [] a))" by (simp add: archive_def)
  note t = trailer_entry [OF this]
  then show ?case by (subst ls_loop.simps) simp
next
  case (Cons e es)
  have h: "holds m p (entry_bytes e)" "holds m (p + of_nat (length (entry_bytes e))) (archive es a)"
    using Cons.prems(1) by (simp_all add: archive_Cons holds_append)
  have ok: "entry_ok e" "take 10 (e_name e) \<noteq> trailer_name" "files_ok es"
    using Cons.prems(2) by (simp_all add: files_ok_def)
  note f = entry_holds [OF h(1) ok(1)] and o = entry_offsets32 [OF ok(1)]
  obtain t where t: "strcmp (at m (p + hdr_size)) (lit ''TRAILER!!!'') = Some t" "t \<noteq> 0"
    using file_not_trailer(1) [OF h(1) ok(1,2)] by blast
  have "map (at m (p + hdr_size)) [0..<length (e_name e)] = e_name e"
    using cstrD [OF f(4)] by (intro nth_equalityI) simp_all
  moreover have "(ucast (of_nat (length (e_data e)) :: u32) :: u64) = of_nat (length (e_data e))"
    using ok(1) by (intro u32_small) (simp add: entry_ok_def)
  ultimately show ?case
    using f(1-3) o(2) t strlen_cstr [OF f(4)] Cons.IH [OF h(2) ok(3)]
    by (subst ls_loop.simps) (simp del: of_nat_Suc of_nat_add)
qed


subsection \<open>Properties\<close>

text \<open>C29: On every well-formed newc archive in memory, \<open>cpio_get_file\<close> terminates and returns the
  address and the size of the data of the first file with the given name, or NULL when the
  archive has no such file.\<close>

theorem cpio_get_file_correct:
  assumes "holds m base (archive es a)" and "files_ok es" and "cstr name nm" and "base \<noteq> 0"
  shows "cpio_get_file m base name =
    Some (case find_file 0 es nm of None \<Rightarrow> None | Some (o', n) \<Rightarrow> Some (base + of_nat o', of_nat n))"
  using get_file_loop_archive [OF assms(3), of m base 0 es a] assms by (simp add: cpio_get_file_def)

text \<open>An archive of two files at address 4, for the witnesses.\<close>

definition two_files :: "entry list" where
  "two_files = [Entry (str8 ''a.txt'') [1, 2, 3] (\<lambda>_. 0), Entry (str8 ''b'') [7] (\<lambda>_. 0)]"

definition two_mem :: bytes where
  "two_mem = mem_of ([0, 0, 0, 0] @ archive two_files (\<lambda>_. 0))"

lemma two_files_at: "holds two_mem 4 (archive two_files (\<lambda>_. 0))" "files_ok two_files"
proof -
  have "length ([0, 0, 0, 0] @ archive two_files (\<lambda>_. 0)) < 2 ^ 64"
    by (simp add: archive_def two_files_def length_entry data_off_def trailer_name_def str8_def)
  then show "holds two_mem 4 (archive two_files (\<lambda>_. 0))"
    using mem_of_holds [of "[0, 0, 0, 0] @ archive two_files (\<lambda>_. 0)" "[0, 0, 0, 0]" "archive two_files (\<lambda>_. 0)" "[]"]
    by (simp add: two_mem_def)
  show "files_ok two_files"
    by (simp add: files_ok_def two_files_def entry_ok_def trailer_name_def str8_nz)
      (simp add: str8_def char_u8_inj)
qed

lemma cpio_get_file_correct_witness:
  "cpio_get_file two_mem 4 (lit ''b'') = Some (Some (236, 1))"
proof -
  have "cstr (lit ''b'') (str8 ''b'')" by (rule lit_str8) simp
  from cpio_get_file_correct [OF two_files_at this] show ?thesis
    by (simp add: two_files_def str8_def char_u8_inj length_entry data_off_def)
qed



text \<open>C31: \<open>cpio_ls\<close> terminates on every well-formed archive and prints one line per file, in the
  order of the archive: the size in decimal, a space and the name.\<close>

theorem cpio_ls_correct:
  assumes "holds (mem s) base (archive es a)" and "files_ok es"
  shows "cpio_ls base s =
    Some (put_bytes (concat (map (\<lambda>e. uart_decimal (of_nat (length (e_data e))) @ str8 '' '' @ e_name e @ [10]) es)) s)"
  using ls_loop_archive [OF assms] by (simp add: cpio_ls_def)

definition blank_machine :: machine where
  "blank_machine = \<lparr>sstatus = 0, sie = 0, satp = 0, stval = 0, tp = 0, mtime = 0, timer_cmp = 0,
     mem = (\<lambda>_. 0), console = [], input = []\<rparr>"

lemma cpio_ls_correct_witness:
  "\<exists>s'. cpio_ls 4 (blank_machine\<lparr>mem := two_mem\<rparr>) = Some s' \<and>
     console s' = concat (map putc_bytes (str8 ''3 a.txt'' @ [10] @ str8 ''1 b'' @ [10]))"
proof -
  have h: "holds (mem (blank_machine\<lparr>mem := two_mem\<rparr>)) 4 (archive two_files (\<lambda>_. 0))"
    using two_files_at(1) by simp
  have "uart_decimal 3 = str8 ''3''" "uart_decimal 1 = str8 ''1''"
    by (simp_all add: uart_decimal_def decimal_buf.simps str8_def char_u8_def)
  then show ?thesis
    using cpio_ls_correct [OF h two_files_at(2)]
    by (simp add: two_files_def put_bytes_def blank_machine_def str8_def)
qed

end
