(* ===== verification/Memory.thy ===== *)
theory Memory
  imports Slab Cpio
begin

text \<open>
  The rest of src/lab7/src/memory.c: \<open>allocate\<close> and \<open>free\<close> as operations of the kernel state
  with their console output, the two layout printers, and the boot-time allocator
  \<open>startup_allocator\<close> with \<open>memory_init\<close>.

  The boot-time allocator collects the reserved regions (device tree blob, kernel image, RAM
  disk, the children of \<open>/reserved-memory\<close>), finds a place for the frame array that overlaps
  none of them, marks the frames that they cover and frees all others.  The symbols
  \<open>_start\<close> and \<open>_end\<close> of the linker are the parameters \<open>kstart\<close> and \<open>kend\<close>.
\<close>

record mm = machine +
  heap :: slab

definition allocate :: "u64 \<Rightarrow> 'a mm_scheme \<Rightarrow> (u64 \<times> 'a mm_scheme) option" where
  "allocate sz s = do { (p, h) \<leftarrow> slab_alloc sz (heap s); Some (p, s\<lparr>heap := h\<rparr>) }"

definition kfree :: "u64 \<Rightarrow> 'a mm_scheme \<Rightarrow> 'a mm_scheme option" where
  "kfree ptr s =
     (if ptr = 0 then Some (put_text ''Illegal address!\<newline>\<newline>'' s)
      else do { h \<leftarrow> slab_free ptr (heap s); Some (s\<lparr>heap := h\<rparr>) })"

definition print_mm_buddy :: "'a mm_scheme \<Rightarrow> 'a mm_scheme option" where
  "print_mm_buddy s = do {
     lines \<leftarrow> those (map (\<lambda>i. printf_bytes (str8 ''-- Order %d -> %d\<newline>'')
       [W (of_nat i), W (of_int (freelists_size (page_allocator (heap s)) ! i))]) [0..<MAX_ORDER + 1]);
     Some (put_text ''\<newline>'' (put_bytes (concat lines)
       (put_text ''- Buddy System Layout:\<newline>'' (put_text ''Free_list Layout:\<newline>'' s))))
   }"

definition print_mm_slab :: "'a mm_scheme \<Rightarrow> 'a mm_scheme option" where
  "print_mm_slab s = do {
     lines \<leftarrow> those (map (\<lambda>p. printf_bytes (str8 ''-- Chunk size %d -> %d\<newline>'')
       [W (of_nat (chunk_size p)), W (of_int (freelist_size p))])
       (takeWhile (\<lambda>p. chunk_size p \<noteq> 0) (pools (heap s))));
     Some (put_text ''\<newline>'' (put_bytes (concat lines)
       (put_text ''- Slab System Layout:\<newline>'' (put_text ''Free_list Layout:\<newline>'' s))))
   }"

subsection \<open>Collecting the reserved regions\<close>

definition PAGE_OFFSET :: u64 where "PAGE_OFFSET = 0xffffffc000000000"

definition phys_to_virt :: "u64 \<Rightarrow> u64" where "phys_to_virt x = x + PAGE_OFFSET"

definition virt_to_phys :: "u64 \<Rightarrow> u64" where "virt_to_phys x = x - PAGE_OFFSET"

type_synonym reserved_region = "u64 \<times> u64"

definition region_text :: "string \<Rightarrow> reserved_region \<Rightarrow> 'a machine_scheme \<Rightarrow> 'a machine_scheme option" where
  "region_text fmt r s = uart_printf fmt [W (fst r), W (snd r)] s"

text \<open>The properties of the RAM disk; a missing property leaves the zero of the static array.\<close>

definition initrd_addr :: "bytes \<Rightarrow> u64 \<Rightarrow> int \<Rightarrow> string \<Rightarrow> u64 option" where
  "initrd_addr m fdt offset name = do {
     r \<leftarrow> fdt_getprop m fdt offset (lit name);
     Some (case r of
       None \<Rightarrow> 0
     | Some (ptr, len) \<Rightarrow>
         phys_to_virt (if len = 4 then ucast (be32 m ptr) else be64 m ptr))
   }"

text \<open>To the first child of \<open>/reserved-memory\<close>: over the properties, and over everything else
  that is not the begin of a node.\<close>

partial_function (option) first_child :: "bytes \<Rightarrow> u64 \<Rightarrow> u64 option" where
  "first_child m p =
     (if be32 m p = FDT_BEGIN_NODE then Some p
      else if be32 m p = FDT_PROP then first_child m (align (p + 4 + 8 + ucast (be32 m (p + 4))) 4)
      else first_child m (p + 4))"

partial_function (option) skip_nops :: "bytes \<Rightarrow> u64 \<Rightarrow> u64 option" where
  "skip_nops m p = (if be32 m p = FDT_NOP then skip_nops m (p + 4) else Some p)"

definition child_region :: "bytes \<Rightarrow> u64 \<Rightarrow> int \<Rightarrow> string \<Rightarrow> reserved_region list option" where
  "child_region m fdt child_offset name = do {
     r \<leftarrow> fdt_getprop m fdt child_offset (lit name);
     Some (case r of
       None \<Rightarrow> []
     | Some (prop, len) \<Rightarrow>
         [(phys_to_virt (be64 m prop), phys_to_virt (be64 m prop) + be64 m (prop + 8))])
   }"

text \<open>The loop over the children: the regions and the text that it prints.\<close>

partial_function (option) child_loop ::
    "bytes \<Rightarrow> u64 \<Rightarrow> u64 \<Rightarrow> u64 \<Rightarrow> (reserved_region list \<times> u8 list) option" where
  "child_loop m fdt struct_base p =
     (if p = 0 then None
      else if be32 m p = FDT_BEGIN_NODE then
        Option.bind (strlen (at m (p + 4))) (\<lambda>n.
        Option.bind (printf_bytes (str8 ''- %s ->'') [S (at m (p + 4))]) (\<lambda>t.
        Option.bind (child_region m fdt (sint (ucast (p - struct_base) :: u32)) ''reg'') (\<lambda>r1.
        Option.bind (child_region m fdt (sint (ucast (p - struct_base) :: u32)) ''alloc-ranges'') (\<lambda>r2.
        Option.bind (those (map (\<lambda>r. printf_bytes (str8 ''start: %x, end: %x\<newline>'') [W (fst r), W (snd r)]) (r1 @ r2))) (\<lambda>ts.
        Option.bind (skip_node m (align (p + 4 + of_nat n + 1) 4)) (\<lambda>q.
        Option.bind (if q = 0 then None else skip_nops m q) (\<lambda>q'.
        Option.bind (child_loop m fdt struct_base q') (\<lambda>(rs, out).
          Some (r1 @ r2 @ rs, t @ concat ts @ out)))))))))
      else Some ([], []))"

definition reserved_children ::
    "u64 \<Rightarrow> 'a machine_scheme \<Rightarrow> (reserved_region list \<times> 'a machine_scheme) option" where
  "reserved_children fdt s = do {
     let m = mem s;
     offset \<leftarrow> fdt_path_offset m fdt (lit ''/reserved-memory'');
     if offset < 0 then Some ([], s)
     else do {
       let struct_base = fdt + ucast (off_dt_struct m fdt);
       let p = struct_base + of_int offset;
       let s1 = (if be32 m p \<noteq> FDT_BEGIN_NODE then put_text ''Something is weird!\<newline>'' s else s);
       s2 \<leftarrow> uart_printf ''Current path: %s\<newline>'' [S (at m (p + 4))] s1;
       n \<leftarrow> strlen (at m (p + 4));
       q \<leftarrow> first_child m (align (p + 4 + of_nat n + 1) 4);
       (rs, out) \<leftarrow> child_loop m fdt struct_base q;
       Some (rs, put_bytes out s2)
     }
   }"

definition reserved_regions ::
    "u64 \<Rightarrow> u64 \<Rightarrow> u64 \<Rightarrow> 'a machine_scheme \<Rightarrow> (reserved_region list \<times> 'a machine_scheme) option" where
  "reserved_regions kstart kend fdt s = do {
     let dtb = (fdt, fdt + ucast (fdt_totalsize (mem s) fdt));
     s1 \<leftarrow> region_text ''DTB reserved region -> start: %x, end: %x\<newline>'' dtb s;
     s2 \<leftarrow> region_text ''Kernel image reserved region -> start: %x, end: %x\<newline>'' (kstart, kend) s1;
     offset \<leftarrow> fdt_path_offset (mem s) fdt (lit ''/chosen'');
     (rd, s3) \<leftarrow>
       (if 0 \<le> offset then do {
          a \<leftarrow> initrd_addr (mem s) fdt offset ''linux,initrd-start'';
          b \<leftarrow> initrd_addr (mem s) fdt offset ''linux,initrd-end'';
          s' \<leftarrow> region_text ''Initramfs reserved region -> start: %x, end: %x\<newline>'' (a, b) s2;
          Some ([(a, b)], s')
        } else Some ([], s2));
     (ch, s4) \<leftarrow> reserved_children fdt s3;
     Some ([dtb, (kstart, kend)] @ rd @ ch, s4)
   }"

subsection \<open>Placing the frame array and releasing the free pages\<close>

definition frame_bytes :: u64 where "frame_bytes = 24"

definition page_up :: "u64 \<Rightarrow> u64" where
  "page_up a = (a + 4096 - 1) AND NOT (4096 - 1)"

definition overlaps :: "u64 \<Rightarrow> u64 \<Rightarrow> reserved_region \<Rightarrow> bool" where
  "overlaps ms me r \<longleftrightarrow> \<not> (me \<le> fst r \<or> snd r \<le> ms)"

text \<open>The loop \<open>while (overlap)\<close>: behind the first overlapping region, until none overlaps.\<close>

partial_function (option) place_loop ::
    "reserved_region list \<Rightarrow> u64 \<Rightarrow> u64 \<Rightarrow> u64 option" where
  "place_loop rg bytes metadata_start =
     (case List.find (overlaps metadata_start (metadata_start + bytes)) rg of
        None \<Rightarrow> Some metadata_start
      | Some r \<Rightarrow> place_loop rg bytes (page_up (snd r)))"

text \<open>\<open>frames[j].status = FRAME_RESERVED\<close> for the pages of a region; \<open>j < total_pages\<close> compares an
  \<open>int\<close> with an \<open>unsigned int\<close>.\<close>

definition reserve_frame :: "int \<Rightarrow> buddy_allocator \<Rightarrow> buddy_allocator" where
  "reserve_frame j b =
     (let k = unat (of_int j :: u32)
      in if k < total_pages b
         then b\<lparr>frame_array := (frame_array b)[k := (frame_array b ! k)\<lparr>f_status := FRAME_RESERVED\<rparr>]\<rparr>
         else b)"

definition start_idx :: "u64 \<Rightarrow> reserved_region \<Rightarrow> int" where
  "start_idx start r = sint (ucast ((fst r - start) div 4096) :: u32)"

definition end_idx :: "u64 \<Rightarrow> reserved_region \<Rightarrow> int" where
  "end_idx start r = sint (ucast ((snd r - start + 4096 - 1) div 4096) :: u32)"

definition reserve_region :: "u64 \<Rightarrow> reserved_region \<Rightarrow> buddy_allocator \<Rightarrow> buddy_allocator" where
  "reserve_region start r b = fold reserve_frame [start_idx start r..end_idx start r - 1] b"

fun release_pages :: "u64 \<Rightarrow> nat list \<Rightarrow> buddy_allocator \<Rightarrow> buddy_allocator option" where
  "release_pages start [] b = Some b"
| "release_pages start (i # is) b =
     (if f_status (frame_array b ! i) \<noteq> FRAME_RESERVED
      then do { b1 \<leftarrow> buddy_free (start + of_nat i * 4096) b; release_pages start is b1 }
      else release_pages start is b)"

definition startup_buddy :: "u64 \<Rightarrow> nat \<Rightarrow> reserved_region list \<Rightarrow> buddy_allocator option" where
  "startup_buddy start n rg = release_pages start [0..<n] (fold (reserve_region start) rg (buddy_init start n))"

definition startup_allocator ::
    "u64 \<Rightarrow> u64 \<Rightarrow> u64 \<Rightarrow> u64 \<Rightarrow> u64 \<Rightarrow> 'a mm_scheme \<Rightarrow> 'a mm_scheme option" where
  "startup_allocator kstart kend start sz fdt s = do {
     (rg, s1) \<leftarrow> reserved_regions kstart kend fdt s;
     let n = (ucast (sz div 4096) :: u32);
     ms \<leftarrow> place_loop rg (ucast n * frame_bytes) (page_up kend);
     let rg' = rg @ [(ms, ms + ucast n * frame_bytes)];
     lines \<leftarrow> those (map (\<lambda>r. printf_bytes (str8 ''index %d to %d is reserved!\<newline>'')
       [W (of_int (start_idx start r)), W (of_int (end_idx start r))]) rg');
     b \<leftarrow> startup_buddy start (unat n) rg';
     if 64 < length rg' then None
     else Some (put_text ''End of startup allocator!\<newline>'' (put_bytes (concat lines)
       (s1\<lparr>heap := (heap s)\<lparr>page_allocator := b\<rparr>\<rparr>)))
   }"

definition memory_init :: "u64 \<Rightarrow> u64 \<Rightarrow> u64 \<Rightarrow> 'a mm_scheme \<Rightarrow> 'a mm_scheme option" where
  "memory_init kstart kend fdt s = do {
     offset \<leftarrow> fdt_path_offset (mem s) fdt (lit ''/memory'');
     r \<leftarrow> fdt_getprop (mem s) fdt offset (lit ''reg'');
     (prop, len) \<leftarrow> r;
     let mm_start = phys_to_virt (be64 (mem s) prop);
     let mm_size = be64 (mem s) (prop + 8);
     s1 \<leftarrow> uart_printf ''mm_start: %x\<newline>'' [W mm_start] s;
     s2 \<leftarrow> uart_printf ''mm_size: %x\<newline>'' [W mm_size] s1;
     s3 \<leftarrow> startup_allocator kstart kend mm_start mm_size fdt s2;
     print_mm_buddy (s3\<lparr>heap := (heap s3)\<lparr>pools := malloc_init (pools (heap s3))\<rparr>\<rparr>)
   }"


subsection \<open>The frame array overlaps nothing\<close>

lemma unat_page_up:
  assumes "unat a + 4096 \<le> 2 ^ 64"
  shows "unat (page_up a) = (unat a + 4095) div 4096 * 4096" "unat a \<le> unat (page_up a)"
proof -
  have "page_up a = align a 4096" by (simp add: page_up_def align_def)
  then show e: "unat (page_up a) = (unat a + 4095) div 4096 * 4096" using align_page [OF assms] by simp
  show "unat a \<le> unat (page_up a)"
    using div_mult_mod_eq [of "unat a + 4095" 4096] mod_less_divisor [of 4096 "unat a + 4095"]
    unfolding e by linarith
qed

lemma find_overlap:
  "List.find P xs = Some r \<Longrightarrow> r \<in> set xs \<and> P r"
  "List.find P xs = None \<longleftrightarrow> (\<forall>r \<in> set xs. \<not> P r)"
proof -
  show "List.find P xs = Some r \<Longrightarrow> r \<in> set xs \<and> P r"
    by (induction xs) (simp_all split: if_splits)
  show "List.find P xs = None \<longleftrightarrow> (\<forall>r \<in> set xs. \<not> P r)"
    by (induction xs) simp_all
qed

lemma place_loop_ok:
  assumes top: "\<And>r. r \<in> set rg \<Longrightarrow> unat (snd r) + 4096 \<le> 2 ^ 64"
  shows "4096 dvd unat ms \<Longrightarrow>
    \<exists>ms'. place_loop rg n ms = Some ms' \<and> unat ms \<le> unat ms' \<and> 4096 dvd unat ms' \<and>
      (\<forall>r \<in> set rg. \<not> overlaps ms' (ms' + n) r)"
proof (induction "length (filter (\<lambda>r. unat ms < unat (snd r)) rg)" arbitrary: ms rule: less_induct)
  case less
  show ?case
  proof (cases "List.find (overlaps ms (ms + n)) rg")
    case None
    then have "place_loop rg n ms = Some ms" by (subst place_loop.simps) simp
    moreover have "\<forall>r \<in> set rg. \<not> overlaps ms (ms + n) r"
      by (rule find_overlap(2) [THEN iffD1, OF None])
    ultimately show ?thesis using less.prems by blast
  next
    case (Some r)
    then have r: "r \<in> set rg" "overlaps ms (ms + n) r" using find_overlap(1) [OF Some] by blast+
    let ?m = "page_up (snd r)"
    have up: "unat (snd r) \<le> unat ?m" "4096 dvd unat ?m"
      using unat_page_up [OF top [OF r(1)]] by (simp_all only: dvd_triv_right)
    have lt: "unat ms < unat (snd r)" using r(2) by (simp add: overlaps_def word_le_nat_alt)
    have "length (filter (\<lambda>r. unat ?m < unat (snd r)) rg) < length (filter (\<lambda>r. unat ms < unat (snd r)) rg)"
    proof -
      have "filter (\<lambda>r. unat ?m < unat (snd r)) rg =
          filter (\<lambda>r. unat ?m < unat (snd r)) (filter (\<lambda>r. unat ms < unat (snd r)) rg)"
        using lt up(1) unfolding filter_filter by (intro filter_cong refl) linarith
      moreover have "r \<in> set (filter (\<lambda>r. unat ms < unat (snd r)) rg)" using r(1) lt by simp
      moreover have "\<not> unat ?m < unat (snd r)" using up(1) by simp
      ultimately show ?thesis
        using length_filter_less [of r "filter (\<lambda>r. unat ms < unat (snd r)) rg" "\<lambda>r. unat ?m < unat (snd r)"]
        by simp
    qed
    from less.hyps [OF this up(2)] obtain ms' where m: "place_loop rg n ?m = Some ms'" "unat ?m \<le> unat ms'"
      "4096 dvd unat ms'" "\<forall>r \<in> set rg. \<not> overlaps ms' (ms' + n) r" by blast
    have "place_loop rg n ms = Some ms'" using Some m(1) by (subst place_loop.simps) simp
    moreover have "unat ms \<le> unat ms'" using lt up(1) m(2) by linarith
    ultimately show ?thesis using m(3,4) by blast
  qed
qed

subsection \<open>The frames after marking\<close>

definition marked :: "u64 \<Rightarrow> nat \<Rightarrow> nat set \<Rightarrow> buddy_allocator" where
  "marked base n R = (buddy_init base n)\<lparr>frame_array :=
     map (\<lambda>x. \<lparr>f_order = 0, f_status = if x \<in> R then FRAME_RESERVED else FRAME_ALLOC\<rparr>) [0..<n]\<rparr>"

lemma marked_init: "buddy_init base n = marked base n {}"
  by (simp add: marked_def buddy_init_def map_replicate_const)

lemma marked_sel:
  "length (frame_array (marked base n R)) = n" "total_pages (marked base n R) = n"
  "base_addr (marked base n R) = base"
  "x < n \<Longrightarrow> frame_array (marked base n R) ! x =
     \<lparr>f_order = 0, f_status = if x \<in> R then FRAME_RESERVED else FRAME_ALLOC\<rparr>"
  by (simp_all add: marked_def buddy_init_def)

lemma marked_upd:
  "k < n \<Longrightarrow> (marked base n R)\<lparr>frame_array := (frame_array (marked base n R))
     [k := (frame_array (marked base n R) ! k)\<lparr>f_status := FRAME_RESERVED\<rparr>]\<rparr> = marked base n (insert k R)"
proof -
  assume k: "k < n"
  let ?f = "\<lambda>R x. \<lparr>f_order = 0, f_status = if x \<in> R then FRAME_RESERVED else FRAME_ALLOC\<rparr>"
  have "(map (?f R) [0..<n])[k := (map (?f R) [0..<n] ! k)\<lparr>f_status := FRAME_RESERVED\<rparr>] = map (?f (insert k R)) [0..<n]"
    using k by (intro nth_equalityI) (auto simp: nth_list_update)
  then show ?thesis by (simp add: marked_def)
qed

lemma reserve_frame_marked:
  assumes "n < 2 ^ 31" and "- (2 ^ 31) \<le> j" and "j < 2 ^ 31"
  shows "reserve_frame j (marked base n R) = marked base n (if 0 \<le> j \<and> j < int n then insert (nat j) R else R)"
proof (cases "0 \<le> j")
  case True
  then have "unat (of_int j :: u32) = nat j"
    using assms(3) by (simp add: nat_take_bit_eq [symmetric] unsigned_of_int take_bit_int_eq_self flip: nat_uint_eq)
  then show ?thesis using True marked_upd [of "nat j" n base R]
    by (auto simp: reserve_frame_def marked_sel nat_less_iff)
next
  case False
  then have "uint (of_int j :: u32) = j + 2 ^ 32"
  proof -
    have "uint (of_int j :: u32) = j mod 2 ^ 32" by (simp add: unsigned_of_int take_bit_eq_mod)
    also have "\<dots> = (j + 2 ^ 32) mod 2 ^ 32" by simp
    also have "\<dots> = j + 2 ^ 32" using False assms(2) by (intro mod_pos_pos_trivial) simp_all
    finally show ?thesis .
  qed
  then have "2 ^ 31 \<le> unat (of_int j :: u32)" using assms(2) by (simp flip: nat_uint_eq)
  then show ?thesis using False assms(1) by (simp add: reserve_frame_def marked_sel Let_def)
qed

lemma fold_reserve_marked:
  assumes "n < 2 ^ 31"
  shows "\<forall>j \<in> set js. - (2 ^ 31) \<le> j \<and> j < 2 ^ 31 \<Longrightarrow>
    fold reserve_frame js (marked base n R) =
      marked base n (R \<union> {x. x < n \<and> int x \<in> set js})"
proof (induction js arbitrary: R)
  case (Cons j js)
  have "fold reserve_frame (j # js) (marked base n R) =
      fold reserve_frame js (marked base n (if 0 \<le> j \<and> j < int n then insert (nat j) R else R))"
    using Cons.prems reserve_frame_marked [OF assms, of j] by simp
  also have "\<dots> = marked base n ((if 0 \<le> j \<and> j < int n then insert (nat j) R else R) \<union>
      {x. x < n \<and> int x \<in> set js})"
    using Cons by simp
  also have "(if 0 \<le> j \<and> j < int n then insert (nat j) R else R) \<union> {x. x < n \<and> int x \<in> set js} =
      R \<union> {x. x < n \<and> int x \<in> set (j # js)}"
    by auto
  finally show ?case .
qed simp

text \<open>The pages that a region covers, as the code counts them.\<close>

definition region_pages :: "u64 \<Rightarrow> reserved_region \<Rightarrow> nat set" where
  "region_pages start r = {x. start_idx start r \<le> int x \<and> int x < end_idx start r}"

lemma sint32_range: "- (2 ^ 31) \<le> sint (w :: u32)" "sint (w :: u32) < 2 ^ 31"
  using sint_greater_eq [of w] sint_less [of w] by simp_all

lemma reserve_regions_marked:
  assumes "n < 2 ^ 31"
  shows "fold (reserve_region start) rg (marked base n R) =
    marked base n (R \<union> {x. x < n \<and> (\<exists>r \<in> set rg. x \<in> region_pages start r)})"
proof (induction rg arbitrary: R)
  case (Cons r rg)
  have "reserve_region start r (marked base n R) = marked base n (R \<union> {x. x < n \<and> x \<in> region_pages start r})"
    unfolding reserve_region_def
  proof (subst fold_reserve_marked [OF assms])
    show "\<forall>j \<in> set [start_idx start r..end_idx start r - 1]. - (2 ^ 31) \<le> j \<and> j < 2 ^ 31"
      using sint32_range [of "ucast ((fst r - start) div 4096)"]
        sint32_range [of "ucast ((snd r - start + 4096 - 1) div 4096)"]
      by (auto simp: start_idx_def end_idx_def)
  qed (auto simp: region_pages_def intro!: arg_cong [where f = "marked base n"])
  then show ?case using Cons by (auto intro!: arg_cong [where f = "marked base n"])
qed simp


subsection \<open>After boot exactly the reserved pages are in use\<close>

lemma marked_inv:
  assumes "n < 2 ^ 31" and "0 < unat base" and "4096 dvd unat base" and "unat base + n * 4096 \<le> 2 ^ 64"
  shows "buddy_inv (marked base n R)"
    "used_blocks (marked base n R) = (\<lambda>x. (x, 0, if x \<in> R then FRAME_RESERVED else FRAME_ALLOC)) ` {..<n}"
proof -
  let ?b = "marked base n R"
  note sel = marked_sel [where base = base and n = n and R = R]
  have h: "heads (frame_array ?b) {} = {..<n}"
    by (auto simp: heads_def sel split: if_splits)
  have bl: "blk (frame_array ?b) x = {x}" if "x < n" for x
    using that by (auto simp: blk_def block_def sel)
  have "parts (frame_array ?b) {}"
    unfolding parts_def h using bl by (simp add: fits_def sel MAX_ORDER_def Suc_le_eq)
  moreover have "free_at (frame_array ?b) {} i = {}" for i
    unfolding free_at_def h by (auto simp: sel split: if_splits)
  then have "lists_ok ?b {}"
    by (simp add: lists_ok_def marked_def buddy_init_def MAX_ORDER_def nth_Cons' numeral_eq_Suc)
  moreover have "region_ok ?b" using assms by (simp add: region_ok_def sel)
  ultimately show "buddy_inv ?b" by (simp add: buddy_inv_def)
  show "used_blocks ?b = (\<lambda>x. (x, 0, if x \<in> R then FRAME_RESERVED else FRAME_ALLOC)) ` {..<n}"
    unfolding in_use_def h by (auto simp: sel)
qed

lemma release_pages_ok:
  "buddy_inv b \<Longrightarrow> base_addr b = base \<Longrightarrow> distinct is \<Longrightarrow>
   used_blocks b = (\<lambda>x. (x, 0, FRAME_RESERVED)) ` A \<union>
     (\<lambda>x. (x, 0, if x \<in> R then FRAME_RESERVED else FRAME_ALLOC)) ` set is \<Longrightarrow>
   \<exists>b'. release_pages base is b = Some b' \<and> buddy_inv b' \<and> base_addr b' = base \<and>
     total_pages b' = total_pages b \<and>
     used_blocks b' = (\<lambda>x. (x, 0, FRAME_RESERVED)) ` (A \<union> (set is \<inter> R))"
proof (induction "is" arbitrary: b A)
  case (Cons i "is")
  show ?case
  proof (cases "i \<in> R")
    case True
    have "(i, 0, FRAME_RESERVED) \<in> used_blocks b" using Cons.prems(4) True by simp
    then have "f_status (frame_array b ! i) = FRAME_RESERVED" by (rule used_blockD(4) [OF Cons.prems(1)])
    moreover have "used_blocks b = (\<lambda>x. (x, 0, FRAME_RESERVED)) ` (insert i A) \<union>
        (\<lambda>x. (x, 0, if x \<in> R then FRAME_RESERVED else FRAME_ALLOC)) ` set is"
      using Cons.prems(4) True by simp
    ultimately show ?thesis using Cons.IH [OF Cons.prems(1,2), of "insert i A"] Cons.prems(3) True by simp
  next
    case False
    have u: "(i, 0, FRAME_ALLOC) \<in> used_blocks b" using Cons.prems(4) False by simp
    then have st: "f_status (frame_array b ! i) = FRAME_ALLOC" by (rule used_blockD(4) [OF Cons.prems(1)])
    obtain b1 where b1: "buddy_free (page_addr b i) b = Some b1" "buddy_inv b1"
      "used_blocks b1 = used_blocks b - {(i, 0, FRAME_ALLOC)}" "base_addr b1 = base_addr b"
      "total_pages b1 = total_pages b"
      using buddy_free_used [OF Cons.prems(1) u] by blast
    have pa: "page_addr b i = base + of_nat i * 4096" using Cons.prems(2) by (simp add: page_addr_def)
    have "(i, 0, FRAME_ALLOC) \<notin> (\<lambda>x. (x, 0, FRAME_RESERVED)) ` A" by auto
    moreover have "(i, 0, FRAME_ALLOC) \<notin> (\<lambda>x. (x, 0, if x \<in> R then FRAME_RESERVED else FRAME_ALLOC)) ` set is"
      using Cons.prems(3) by auto
    ultimately have "used_blocks b1 = (\<lambda>x. (x, 0, FRAME_RESERVED)) ` A \<union>
        (\<lambda>x. (x, 0, if x \<in> R then FRAME_RESERVED else FRAME_ALLOC)) ` set is"
      using b1(3) Cons.prems(4) False by auto
    then show ?thesis
      using Cons.IH [OF b1(2), of A] b1(1,4,5) Cons.prems(2,3) st False by (simp add: pa)
  qed
qed simp

lemma startup_buddy_ok:
  assumes "n < 2 ^ 31" and "0 < unat start" and "4096 dvd unat start" and "unat start + n * 4096 \<le> 2 ^ 64"
  shows "\<exists>b. startup_buddy start n rg = Some b \<and> buddy_inv b \<and> base_addr b = start \<and> total_pages b = n \<and>
    used_blocks b = (\<lambda>x. (x, 0, FRAME_RESERVED)) ` {x. x < n \<and> (\<exists>r \<in> set rg. x \<in> region_pages start r)}"
proof -
  let ?R = "{x. x < n \<and> (\<exists>r \<in> set rg. x \<in> region_pages start r)}"
  note mi = marked_inv [OF assms, of ?R]
  have "used_blocks (marked start n ?R) = (\<lambda>x. (x, 0, FRAME_RESERVED)) ` {} \<union>
      (\<lambda>x. (x, 0, if x \<in> ?R then FRAME_RESERVED else FRAME_ALLOC)) ` set [0..<n]"
    unfolding mi(2) by (simp add: lessThan_atLeast0)
  from release_pages_ok [OF mi(1) marked_sel(3) distinct_upt this]
  obtain b' where b': "release_pages start [0..<n] (marked start n ?R) = Some b'" "buddy_inv b'"
    "base_addr b' = start" "total_pages b' = n"
    "used_blocks b' = (\<lambda>x. (x, 0, FRAME_RESERVED)) ` ({} \<union> (set [0..<n] \<inter> ?R))"
    by (auto simp: marked_sel)
  have "set [0..<n] \<inter> ?R = ?R" by auto
  moreover have "startup_buddy start n rg = release_pages start [0..<n] (marked start n ?R)"
    unfolding startup_buddy_def marked_init reserve_regions_marked [OF assms(1)] by simp
  ultimately show ?thesis using b' by simp
qed

text \<open>What a region covers: the pages that it intersects.\<close>

lemma page_index:
  fixes w :: u64
  assumes "unat w < 2 ^ 43"
  shows "sint (ucast (w div 4096) :: u32) = int (unat w div 4096)"
proof -
  let ?q = "unat w div 4096"
  have q: "?q < 2 ^ 31" using assms by (simp add: div_less_iff_less_mult)
  have "unat (w div 4096) = ?q" by (simp add: unat_div)
  then have "w div 4096 = of_nat ?q" by (metis of_nat_unat ucast_id)
  then have "(ucast (w div 4096) :: u32) = of_nat ?q"
    by (simp add: word_unat_eq_iff unsigned_ucast_eq unsigned_of_nat)
  then show ?thesis using q by (simp add: signed_of_nat signed_take_bit_int_eq_self)
qed

lemma region_pages_meets:
  assumes "unat start \<le> unat (fst r)" and "fst r < snd r" and "unat (snd r) < unat start + 2 ^ 42"
  shows "x \<in> region_pages start r \<longleftrightarrow>
    unat (fst r) < unat start + 4096 * (x + 1) \<and> unat start + 4096 * x < unat (snd r)"
proof -
  let ?a = "unat (fst r) - unat start" and ?e = "unat (snd r) - unat start"
  have lt: "unat (fst r) < unat (snd r)" using assms(2) by (simp add: word_less_nat_alt)
  have u: "unat (fst r - start) = ?a" "unat (snd r - start) = ?e"
    using assms(1) lt by (simp_all add: unat_sub word_le_nat_alt)
  have e: "?e < 2 ^ 42" using assms(1,3) lt by simp
  have "unat (snd r - start + 4095) = ?e + 4095"
    using u(2) e by (simp add: unat_word_ariths)
  then have ue: "unat (snd r - start + 4096 - 1) = ?e + 4095" by (simp add: add.commute)
  have s: "start_idx start r = int (?a div 4096)" "end_idx start r = int ((?e + 4095) div 4096)"
    unfolding start_idx_def end_idx_def
    using page_index [of "fst r - start"] page_index [of "snd r - start + 4096 - 1"] u(1) ue e lt by simp_all
  have d1: "y div 4096 \<le> x \<longleftrightarrow> y < 4096 * (x + 1)" for y :: nat
    using div_less_iff_less_mult [of 4096 y "x + 1"] by (simp add: less_Suc_eq_le mult.commute)
  have d2: "x < (y + 4095) div 4096 \<longleftrightarrow> 4096 * x < y" for y :: nat
    using less_eq_div_iff_mult_less_eq [of 4096 "x + 1" "y + 4095"] by (simp add: Suc_le_eq) linarith
  have "x \<in> region_pages start r \<longleftrightarrow> ?a div 4096 \<le> x \<and> x < (?e + 4095) div 4096"
    unfolding region_pages_def s by simp
  also have "\<dots> \<longleftrightarrow> ?a < 4096 * (x + 1) \<and> 4096 * x < ?e" unfolding d1 d2 by simp
  also have "\<dots> \<longleftrightarrow> unat (fst r) < unat start + 4096 * (x + 1) \<and> unat start + 4096 * x < unat (snd r)"
    using assms(1) lt by linarith
  finally show ?thesis .
qed


subsection \<open>Properties\<close>

text \<open>C25: The boot-time allocator ends with a consistent buddy system in which exactly the pages
  that the reserved regions cover are in use, each marked reserved; every other page is free.\<close>

theorem startup_reserves:
  assumes "n < 2 ^ 31" and "0 < unat start" and "4096 dvd unat start" and "unat start + n * 4096 \<le> 2 ^ 64"
    and "\<forall>r \<in> set rg. unat start \<le> unat (fst r) \<and> fst r < snd r \<and> unat (snd r) < unat start + 2 ^ 42"
  shows "\<exists>b. startup_buddy start n rg = Some b \<and> buddy_inv b \<and>
    used_blocks b = (\<lambda>x. (x, 0, FRAME_RESERVED)) ` {x. x < n \<and> (\<exists>r \<in> set rg.
      unat (fst r) < unat start + 4096 * (x + 1) \<and> unat start + 4096 * x < unat (snd r))}"
proof -
  have "{x. x < n \<and> (\<exists>r \<in> set rg. x \<in> region_pages start r)} = {x. x < n \<and> (\<exists>r \<in> set rg.
      unat (fst r) < unat start + 4096 * (x + 1) \<and> unat start + 4096 * x < unat (snd r))}"
    using region_pages_meets assms(5) by blast
  then show ?thesis using startup_buddy_ok [OF assms(1-4), of rg] by auto
qed

lemma startup_reserves_witness:
  "\<exists>b. startup_buddy 0x80000000 4 [(0x80000010, 0x80001001)] = Some b \<and> buddy_inv b \<and>
    used_blocks b = {(0, 0, FRAME_RESERVED), (1, 0, FRAME_RESERVED)}"
proof -
  have "{x. x < 4 \<and> (\<exists>r \<in> set [(0x80000010 :: u64, 0x80001001 :: u64)].
      unat (fst r) < unat (0x80000000 :: u64) + 4096 * (x + 1) \<and> unat (0x80000000 :: u64) + 4096 * x < unat (snd r))} = {0, 1}"
  proof -
    have "x = 0 \<or> x = 1 \<or> x = 2 \<or> x = 3" if "x < 4" for x :: nat using that by linarith
    then show ?thesis by auto
  qed
  then show ?thesis
    using startup_reserves [of 4 "0x80000000" "[(0x80000010, 0x80001001)]"] by simp
qed



end
