(* ===== verification/Tasks.thy ===== *)
theory Tasks
  imports Memory
begin

text \<open>
  src/lab7/src/task.c: the bottom halves of interrupts, a priority queue of 64 statically
  allocated nodes linked by their \<open>next\<close> pointers.  A pointer to a node is its index in
  \<open>task_pool\<close>; NULL is \<open>None\<close>.  A callback is its code address; calling it is the parameter
  \<open>call\<close> of \<open>run_preemptive_tasks\<close>, because the callbacks belong to other components.

  The lemmas relate the pointers to the list of queued nodes (\<open>pchain\<close>): the queue is sorted by
  priority, first come first served within a priority, and the queued nodes are exactly the
  used ones that are not running.
\<close>

definition MAX_TASKS :: nat where "MAX_TASKS = 64"

record interrupt_task =
  t_priority :: int
  t_callback :: u64
  t_arg :: u64
  t_next :: "nat option"

record tasks = mm +
  task_pool :: "interrupt_task list"
  task_used :: "bool list"
  task_queue_head :: "nat option"
  current_task_priority :: int

subsection \<open>The operations\<close>

text \<open>\<open>while (curr->next && curr->next->priority <= priority) curr = curr->next\<close>\<close>

partial_function (option) find_pos :: "interrupt_task list \<Rightarrow> int \<Rightarrow> nat \<Rightarrow> nat option" where
  "find_pos pool p cur =
     (case t_next (pool ! cur) of
        None \<Rightarrow> Some cur
      | Some n \<Rightarrow> if t_priority (pool ! n) \<le> p then find_pos pool p n else Some cur)"

definition add_task :: "u64 \<Rightarrow> u64 \<Rightarrow> int \<Rightarrow> 'a tasks_scheme \<Rightarrow> 'a tasks_scheme option" where
  "add_task callback arg priority st0 =
     (case disable_and_save_sstatus st0 of (s, st) \<Rightarrow>
        (case free_slot (task_used st) of
           None \<Rightarrow> Some (restore_sstatus s st)
         | Some new \<Rightarrow> do {
             let pool = task_pool st;
             let node = \<lparr>t_priority = priority, t_callback = callback, t_arg = arg, t_next = t_next (pool ! new)\<rparr>;
             let st1 = st\<lparr>task_used := (task_used st)[new := True], task_pool := pool[new := node]\<rparr>;
             st2 \<leftarrow>
               (case task_queue_head st of
                  Some h \<Rightarrow>
                    if priority < t_priority (task_pool st1 ! h)
                    then Some (st1\<lparr>task_pool := (task_pool st1)[new := node\<lparr>t_next := Some h\<rparr>],
                                   task_queue_head := Some new\<rparr>)
                    else do {
                      cur \<leftarrow> find_pos (task_pool st1) priority h;
                      let c = task_pool st1 ! cur;
                      Some (st1\<lparr>task_pool := (task_pool st1)[new := node\<lparr>t_next := t_next c\<rparr>,
                                   cur := c\<lparr>t_next := Some new\<rparr>]\<rparr>)
                    }
                | None \<Rightarrow> Some (st1\<lparr>task_pool := (task_pool st1)[new := node\<lparr>t_next := None\<rparr>],
                                   task_queue_head := Some new\<rparr>));
             Some (restore_sstatus s st2)
           }))"

text \<open>One pass of \<open>run_preemptive_tasks\<close> that finds a task: take it off the queue and raise the
  current priority; after the callback, restore both and release the node.\<close>

definition begin_task :: "'a tasks_scheme \<Rightarrow> (nat \<times> 'a tasks_scheme) option" where
  "begin_task st =
     (case task_queue_head st of
        None \<Rightarrow> None
      | Some t \<Rightarrow>
          if current_task_priority st \<le> t_priority (task_pool st ! t) then None
          else Some (t, irq_enable (st\<lparr>task_queue_head := t_next (task_pool st ! t),
                                       current_task_priority := t_priority (task_pool st ! t)\<rparr>)))"

definition end_task :: "u64 \<Rightarrow> u64 \<Rightarrow> u64 \<Rightarrow> int \<Rightarrow> nat \<Rightarrow> 'a tasks_scheme \<Rightarrow> 'a tasks_scheme" where
  "end_task timer_task s cb old_priority t st =
     (let st1 = irq_disable st;
          st2 = (if cb = timer_task then enable_timer_interrupt st1 else st1)
      in restore_sstatus s (st2\<lparr>current_task_priority := old_priority,
           task_used := (task_used st2)[t := False]\<rparr>))"

partial_function (option) run_preemptive_tasks ::
    "u64 \<Rightarrow> (u64 \<Rightarrow> u64 \<Rightarrow> 'a tasks_scheme \<Rightarrow> 'a tasks_scheme option) \<Rightarrow>
     'a tasks_scheme \<Rightarrow> 'a tasks_scheme option" where
  "run_preemptive_tasks timer_task call st0 =
     (case disable_and_save_sstatus st0 of (s, st) \<Rightarrow>
        (case begin_task st of
           None \<Rightarrow> Some (restore_sstatus s st)
         | Some (t, st1) \<Rightarrow>
             Option.bind (call (t_callback (task_pool st ! t)) (t_arg (task_pool st ! t)) st1) (\<lambda>st2.
               run_preemptive_tasks timer_task call
                 (end_task timer_task s (t_callback (task_pool st ! t)) (current_task_priority st) t st2))))"

subsection \<open>The queue\<close>

definition nexts :: "'a tasks_scheme \<Rightarrow> nat \<Rightarrow> nat option" where
  "nexts st = (\<lambda>i. t_next (task_pool st ! i))"

definition prio :: "'a tasks_scheme \<Rightarrow> nat \<Rightarrow> int" where
  "prio st i = t_priority (task_pool st ! i)"

text \<open>\<open>task_inv st q run\<close>: q is the queue in order, run the nodes whose callbacks are running.\<close>

definition task_inv :: "'a tasks_scheme \<Rightarrow> nat list \<Rightarrow> nat set \<Rightarrow> bool" where
  "task_inv st q run \<longleftrightarrow>
     length (task_pool st) = MAX_TASKS \<and> length (task_used st) = MAX_TASKS \<and>
     pchain (nexts st) (task_queue_head st) q \<and> distinct q \<and> sorted (map (prio st) q) \<and>
     set q \<inter> run = {} \<and> set q \<union> run = {i. i < MAX_TASKS \<and> task_used st ! i}"

text \<open>The position search stops at the last node whose priority is not above the new one.\<close>

lemma find_pos_prefix:
  assumes c: "pchain (\<lambda>i. t_next (pool ! i)) h (xs @ ys)" and ne: "xs \<noteq> []"
    and le: "\<forall>x \<in> set xs. t_priority (pool ! x) \<le> p"
    and gt: "ys = [] \<or> p < t_priority (pool ! hd ys)"
  shows "find_pos pool p (hd xs) = Some (last xs)"
  using c ne le
proof (induction xs arbitrary: h)
  case (Cons x xs)
  show ?case
  proof (cases xs)
    case Nil
    then have "t_next (pool ! x) = (case ys of [] \<Rightarrow> None | y # _ \<Rightarrow> Some y)"
      using Cons.prems(1) by (cases ys) auto
    then show ?thesis using gt Nil by (subst find_pos.simps) (auto split: list.splits)
  next
    case (Cons x' xs')
    then have n: "t_next (pool ! x) = Some x'" "pchain (\<lambda>i. t_next (pool ! i)) (Some x') (xs @ ys)"
      using Cons.prems(1) by auto
    have "find_pos pool p (hd xs) = Some (last xs)"
      using Cons.IH [OF n(2)] Cons Cons.prems(3) by simp
    moreover have "find_pos pool p x = find_pos pool p x'"
      using n(1) Cons Cons.prems(3) by (subst find_pos.simps) simp
    ultimately show ?thesis using Cons by simp
  qed
qed simp

lemma restore_tasks [simp]:
  "task_pool (restore_sstatus v st) = task_pool st" "task_used (restore_sstatus v st) = task_used st"
  "task_queue_head (restore_sstatus v st) = task_queue_head st"
  "current_task_priority (restore_sstatus v st) = current_task_priority st"
  for st :: "'a tasks_scheme"
  by (simp_all add: restore_sstatus_def)

text \<open>The assignments of \<open>add_task\<close> to the pool, on an empty queue, at the front and behind a
  node, seen as updates of the chain.\<close>

lemma add_task_ok:
  assumes inv: "task_inv st q run" and slot: "free_slot (task_used st) = Some new"
  shows "\<exists>st'. add_task cb arg p st = Some st' \<and> task_inv st' (insert_at (\<lambda>x. prio st x \<le> p) new q) run \<and>
    t_callback (task_pool st' ! new) = cb \<and> t_arg (task_pool st' ! new) = arg \<and> prio st' new = p \<and>
    (\<forall>x \<in> set q. prio st' x = prio st x \<and> t_callback (task_pool st' ! x) = t_callback (task_pool st ! x) \<and>
       t_arg (task_pool st' ! x) = t_arg (task_pool st ! x)) \<and>
    current_task_priority st' = current_task_priority st \<and> sstatus st' = sstatus st"
proof -
  let ?pool = "task_pool st"
  let ?node = "\<lparr>t_priority = p, t_callback = cb, t_arg = arg, t_next = t_next (?pool ! new)\<rparr>"
  let ?pool1 = "?pool[new := ?node]"
  have len: "length ?pool = MAX_TASKS" "length (task_used st) = MAX_TASKS"
    and ch: "pchain (nexts st) (task_queue_head st) q" and d: "distinct q" and so: "sorted (map (prio st) q)"
    and dj: "set q \<inter> run = {}" and us: "set q \<union> run = {i. i < MAX_TASKS \<and> task_used st ! i}"
    using inv by (simp_all add: task_inv_def)
  have new: "new < MAX_TASKS" "\<not> task_used st ! new" using free_slot_some [OF slot] len(2) by simp_all
  then have nq: "new \<notin> set q" "new \<notin> run" using us by blast+
  have old: "?pool1 ! x = ?pool ! x" if "x \<in> set q" for x using that nq by (cases "x = new") auto
  define A B where "A = takeWhile (\<lambda>x. prio st x \<le> p) q" and "B = dropWhile (\<lambda>x. prio st x \<le> p) q"
  have q: "q = A @ B" by (simp add: A_def B_def)
  have ins: "insert_at (\<lambda>x. prio st x \<le> p) new q = A @ new # B" by (simp add: insert_at_def A_def B_def)
  have le: "\<forall>x \<in> set A. prio st x \<le> p" by (auto simp: A_def dest: set_takeWhileD)
  have gt: "B = [] \<or> p < prio st (hd B)" 
    using hd_dropWhile [of "\<lambda>x. prio st x \<le> p" q] unfolding B_def by (meson not_le)
  define nx where "nx = (if A = [] then task_queue_head st else nexts st (last A))"
  define pool' where "pool' = (let P = ?pool1[new := ?node\<lparr>t_next := nx\<rparr>]
    in if A = [] then P else P[last A := (?pool ! last A)\<lparr>t_next := Some new\<rparr>])"
  define head' where "head' = (if A = [] then Some new else task_queue_head st)"
  define st' where "st' = st\<lparr>task_used := (task_used st)[new := True], task_pool := pool', task_queue_head := head'\<rparr>"
  have la: "last A \<in> set q" "last A < MAX_TASKS" if "A \<noteq> []"
  proof -
    show "last A \<in> set q" using that q by (metis Un_iff last_in_set set_append)
    then show "last A < MAX_TASKS" using us by blast
  qed
  \<comment> \<open>what the code does\<close>
  have run: "add_task cb arg p st = Some st'"
  proof (cases "task_queue_head st")
    case None
    then have "q = []" using ch by (cases q) auto
    then have a: "A = []" by (simp add: A_def)
    show ?thesis
      using None slot a unfolding add_task_def disable_and_save_sstatus_def st'_def pool'_def head'_def nx_def
      by (simp add: Let_def) (rule restore_bracket; simp)
  next
    case (Some h)
    then obtain q' where hq: "q = h # q'" using ch by (cases q) auto
    have hp: "t_priority (?pool1 ! h) = prio st h" using old [of h] hq by (simp add: prio_def)
    show ?thesis
    proof (cases "p < prio st h")
      case True
      then have a: "A = []" using hq by (simp add: A_def)
      show ?thesis
        using Some slot a True hp unfolding add_task_def disable_and_save_sstatus_def st'_def pool'_def head'_def nx_def
        by (simp add: Let_def) (rule restore_bracket; simp)
    next
      case False
      then have a: "A \<noteq> []" "hd A = h" using hq by (simp_all add: A_def)
      have "pchain (\<lambda>i. t_next (?pool1 ! i)) (Some h) (A @ B)"
        using ch Some old unfolding q by (subst pchain_cong [of _ _ "nexts st"]) (auto simp: nexts_def q)
      moreover have "\<forall>x \<in> set A. t_priority (?pool1 ! x) \<le> p" using le old q by (auto simp: prio_def)
      moreover have "B = [] \<or> p < t_priority (?pool1 ! hd B)"
        using gt old [of "hd B"] q by (cases B) (auto simp: prio_def)
      ultimately have fp: "find_pos ?pool1 p h = Some (last A)" using find_pos_prefix a by blast
      have ol: "?pool1 ! last A = ?pool ! last A" by (rule old [OF la(1) [OF a(1)]])
      show ?thesis
        using Some slot a False hp fp ol unfolding add_task_def disable_and_save_sstatus_def st'_def pool'_def head'_def nx_def
        by (simp add: Let_def nexts_def) (rule restore_bracket; simp)
    qed
  qed
  \<comment> \<open>the new chain\<close>
  have nx': "nexts st' = (if A = [] then (nexts st)(new := task_queue_head st)
      else (nexts st)(new := nexts st (last A), last A := Some new))"
    using new(1) len(1) nq la
    by (auto simp: fun_eq_iff nexts_def st'_def pool'_def nx_def Let_def nth_list_update)
  have chain: "pchain (nexts st') head' (A @ new # B)"
    using pchain_insert_at [of "nexts st" "task_queue_head st" A B new] ch d nq q nx'
    by (simp add: head'_def)
  have content: "t_priority (task_pool st' ! x) = (if x = new then p else t_priority (?pool ! x))"
    "t_callback (task_pool st' ! x) = (if x = new then cb else t_callback (?pool ! x))"
    "t_arg (task_pool st' ! x) = (if x = new then arg else t_arg (?pool ! x))" for x
    using new(1) len(1) nq la by (auto simp: st'_def pool'_def Let_def nth_list_update)
  have pr: "prio st' x = prio st x" if "x \<in> set q" for x
    using that nq content(1) [of x] by (auto simp: prio_def)
  have pn: "prio st' new = p" using content(1) [of new] by (simp add: prio_def)
  have "sorted (map (prio st') (insert_at (\<lambda>x. prio st x \<le> p) new q))"
    using so pr pn by (intro sorted_insert_at [where pr = "prio st"]) auto
  then have "task_inv st' (A @ new # B) run"
    using chain d nq q len dj us new unfolding ins task_inv_def
    by (auto simp: st'_def pool'_def Let_def nth_list_update)
  then show ?thesis
    using run content nq pr pn unfolding ins
    by (intro exI [of _ st']) (auto simp: st'_def)
qed


text \<open>A full pool drops the request without a trace.\<close>

lemma add_task_full:
  assumes "free_slot (task_used st) = None"
  shows "add_task cb arg p st = Some st"
  using assms unfolding add_task_def disable_and_save_sstatus_def
  by simp

subsection \<open>Running the tasks\<close>

lemma pool_funs:
  assumes "task_pool st' = task_pool st"
  shows "nexts st' = nexts st" "prio st' = prio st"
  by (simp_all add: fun_eq_iff nexts_def prio_def assms)

lemma task_inv_cong:
  assumes "task_pool st' = task_pool st" and "task_used st' = task_used st"
    and "task_queue_head st' = task_queue_head st"
  shows "task_inv st' q run = task_inv st q run"
  unfolding task_inv_def pool_funs [OF assms(1)] assms by (rule refl)

lemma begin_task_ok:
  assumes "task_inv st (t # q) run" and "prio st t < current_task_priority st"
  shows "\<exists>st1. begin_task st = Some (t, st1) \<and> task_inv st1 q (insert t run) \<and>
    task_pool st1 = task_pool st \<and> current_task_priority st1 = prio st t \<and>
    st1 = irq_enable (st\<lparr>task_queue_head := t_next (task_pool st ! t), current_task_priority := prio st t\<rparr>)"
proof -
  let ?st1 = "irq_enable (st\<lparr>task_queue_head := t_next (task_pool st ! t), current_task_priority := prio st t\<rparr>)"
  have h: "task_queue_head st = Some t" using assms(1) by (simp add: task_inv_def)
  have "begin_task st = Some (t, ?st1)" using h assms(2) by (simp add: begin_task_def prio_def)
  moreover have "task_inv ?st1 q (insert t run)"
  proof -
    have f: "nexts ?st1 = nexts st" "prio ?st1 = prio st"
      by (rule pool_funs; simp add: irq_enable_def)+
    have "t_next (task_pool st ! t) = nexts st t" by (simp add: nexts_def)
    then show ?thesis using assms(1) unfolding task_inv_def f by (auto simp: irq_enable_def)
  qed
  ultimately show ?thesis by (simp add: irq_enable_def)
qed

lemma end_task_ok:
  assumes "task_inv st q (insert t run)" and "t \<notin> run"
  shows "task_inv (end_task tt s cb old t st) q run"
proof -
  have "t < MAX_TASKS" "t \<notin> set q" using assms(1) by (auto simp: task_inv_def)
  moreover have e: "task_pool (end_task tt s cb old t st) = task_pool st"
    "task_used (end_task tt s cb old t st) = (task_used st)[t := False]"
    "task_queue_head (end_task tt s cb old t st) = task_queue_head st"
    by (simp_all add: end_task_def Let_def irq_disable_def enable_timer_interrupt_def)
  moreover have "{i. i < MAX_TASKS \<and> (task_used st)[t := False] ! i} = {i. i < MAX_TASKS \<and> task_used st ! i} - {t}"
    using assms(1) by (auto simp: task_inv_def nth_list_update)
  ultimately show ?thesis
    using assms unfolding task_inv_def pool_funs [OF e(1)] e by auto
qed

text \<open>Callbacks that only write to the console: the tasks above the current priority run in the
  order of the queue, the others stay queued.\<close>

lemma toggle_sie: "(((v AND NOT SIE) OR SIE) AND NOT SIE) = (v AND NOT SIE)"
  by (rule bit_word_eqI) (auto simp: bit_simps)

lemma run_tasks_ok:
  assumes call: "\<And>cb arg st. call cb arg st = Some (st\<lparr>console := console st @ log cb arg\<rparr>)"
  shows "task_inv st q run \<Longrightarrow>
    \<exists>st'. run_preemptive_tasks tt call st = Some st' \<and>
      task_inv st' (dropWhile (\<lambda>x. prio st x < current_task_priority st) q) run \<and>
      console st' = console st @ concat (map (\<lambda>x. log (t_callback (task_pool st ! x)) (t_arg (task_pool st ! x)))
        (takeWhile (\<lambda>x. prio st x < current_task_priority st) q)) \<and>
      task_pool st' = task_pool st \<and> current_task_priority st' = current_task_priority st \<and>
      sstatus st' = sstatus st"
proof (induction q arbitrary: st)
  case Nil
  let ?st = "st\<lparr>sstatus := sstatus st AND NOT SIE\<rparr>"
  have "begin_task ?st = None" using Nil by (simp add: begin_task_def task_inv_def)
  then have "run_preemptive_tasks tt call st = Some st"
    by (subst run_preemptive_tasks.simps) (simp add: disable_and_save_sstatus_def)
  then show ?case using Nil by simp
next
  case (Cons t q)
  let ?st = "st\<lparr>sstatus := sstatus st AND NOT SIE\<rparr>"
  have inv: "task_inv ?st (t # q) run" using Cons.prems task_inv_cong [of ?st st "t # q" run] by simp
  have pr: "prio ?st = prio st" by (simp add: fun_eq_iff prio_def)
  show ?case
  proof (cases "prio st t < current_task_priority st")
    case True
    then have "prio ?st t < current_task_priority ?st" by (simp add: pr)
    from begin_task_ok [OF inv this] obtain st1 where b: "begin_task ?st = Some (t, st1)"
      "task_inv st1 q (insert t run)"
      and st1: "st1 = irq_enable (?st\<lparr>task_queue_head := t_next (task_pool ?st ! t), current_task_priority := prio ?st t\<rparr>)"
      by blast
    let ?cb = "t_callback (task_pool st ! t)" and ?arg = "t_arg (task_pool st ! t)"
    define st2 where "st2 = st1\<lparr>console := console st1 @ log ?cb ?arg\<rparr>"
    define st3 where "st3 = end_task tt (sstatus st) ?cb (current_task_priority st) t st2"
    have "t \<notin> run" using Cons.prems by (auto simp: task_inv_def)
    moreover have "task_inv st2 q (insert t run)" using b(2) task_inv_cong [of st2 st1] by (simp add: st2_def)
    ultimately have i3: "task_inv st3 q run" unfolding st3_def by (intro end_task_ok)
    have s3: "task_pool st3 = task_pool st" "current_task_priority st3 = current_task_priority st"
      "console st3 = console st @ log ?cb ?arg" "sstatus st3 = sstatus st"
      by (simp_all add: st3_def end_task_def Let_def st2_def st1 irq_disable_def irq_enable_def
        enable_timer_interrupt_def restore_sstatus_other toggle_sie)
    have run: "run_preemptive_tasks tt call st = run_preemptive_tasks tt call st3"
      using b(1) call by (subst run_preemptive_tasks.simps)
        (simp add: disable_and_save_sstatus_def st2_def st3_def)
    have p3: "prio st3 = prio st" by (simp add: fun_eq_iff prio_def s3(1))
    show ?thesis using Cons.IH [OF i3] True unfolding run p3 s3 by simp
  next
    case False
    then have "begin_task ?st = None" using inv pr by (simp add: begin_task_def task_inv_def prio_def)
    then have "run_preemptive_tasks tt call st = Some st"
      by (subst run_preemptive_tasks.simps) (simp add: disable_and_save_sstatus_def)
    then show ?thesis using Cons.prems False by simp
  qed
qed

subsection \<open>Properties\<close>

text \<open>C39: \<open>add_task\<close> links the new task behind all queued tasks of the same or a more urgent
  priority and before all others, keeps the queue sorted and the free nodes apart, and leaves
  the interrupt-enable bit as it was.\<close>

theorem add_task_sorted:
  assumes "task_inv st q run" and "free_slot (task_used st) = Some new"
  shows "\<exists>st'. add_task cb arg p st = Some st' \<and>
    task_inv st' (takeWhile (\<lambda>x. prio st x \<le> p) q @ new # dropWhile (\<lambda>x. prio st x \<le> p) q) run \<and>
    t_callback (task_pool st' ! new) = cb \<and> t_arg (task_pool st' ! new) = arg \<and>
    t_priority (task_pool st' ! new) = p \<and> sstatus st' = sstatus st"
  using add_task_ok [OF assms, of cb arg p] unfolding insert_at_def prio_def by blast

definition idle_tasks :: tasks where
  "idle_tasks = \<lparr>sstatus = 2, sie = 0, satp = 0, stval = 0, tp = 0, mtime = 0, timer_cmp = 0,
     mem = (\<lambda>_. 0), console = [], input = [], heap = one_page,
     task_pool = replicate MAX_TASKS \<lparr>t_priority = 0, t_callback = 0, t_arg = 0, t_next = None\<rparr>,
     task_used = replicate MAX_TASKS False, task_queue_head = None, current_task_priority = 999\<rparr>"

lemma idle_tasks_inv: "task_inv idle_tasks [] {}"
  by (auto simp: task_inv_def idle_tasks_def)

lemma idle_tasks_slot: "free_slot (task_used idle_tasks) = Some 0"
  by (simp add: idle_tasks_def free_slot_def MAX_TASKS_def upt_conv_Cons)

lemma add_task_sorted_witness:
  "\<exists>st'. add_task 100 7 5 idle_tasks = Some st' \<and> task_inv st' [0] {} \<and> t_priority (task_pool st' ! 0) = 5"
  using add_task_sorted [OF idle_tasks_inv idle_tasks_slot, of 100 7 5] by auto



end
