(* ===== verification/Timer.thy ===== *)
theory Timer
  imports Tasks
begin

text \<open>
  src/lab7/src/timer.c: one-shot timers in a static pool of 20 events, linked by their
  \<open>next\<close> pointers in the order of their expiry, and the comparator of the hart, which is
  programmed for the first of them.  As in the theory Tasks a pointer to an event is its index
  in \<open>timer_pool\<close>, a callback is its code address, and calling it is the parameter \<open>call\<close>.

  The lemmas show that the list is sorted by expiry, that its events are exactly the used ones
  that have not fired, and that the comparator follows its head.
\<close>

definition MAX_TIMERS :: nat where "MAX_TIMERS = 20"

record timer_event =
  timeout_tick :: u64
  te_callback :: u64
  te_arg :: u64
  te_next :: "nat option"

record timers = tasks +
  timer_pool :: "timer_event list"
  timer_used :: "bool list"
  timer_list_head :: "nat option"
  cpu_freq :: u64
  boot_t :: u32

subsection \<open>The operations\<close>

definition my_timeout_callback :: "u64 \<Rightarrow> 'a machine_scheme \<Rightarrow> 'a machine_scheme option" where
  "my_timeout_callback arg s =
     (if arg = 0 then uart_printf ''\<newline>[Timeout] NULL\<newline>'' [] s
      else uart_printf ''\<newline>[Timeout] %s\<newline>'' [S (at (mem s) arg)] s)"

definition set_freq :: "u64 \<Rightarrow> 'a timers_scheme \<Rightarrow> 'a timers_scheme option" where
  "set_freq fdt s = do {
     offset \<leftarrow> fdt_path_offset (mem s) fdt (lit ''/cpus'');
     r \<leftarrow> fdt_getprop (mem s) fdt offset (lit ''timebase-frequency'');
     (prop, len) \<leftarrow> r;
     Some (s\<lparr>cpu_freq := ucast (be32 (mem s) prop)\<rparr>)
   }"

definition init_timer :: "'a timers_scheme \<Rightarrow> 'a timers_scheme" where
  "init_timer s = s\<lparr>timer_used := replicate MAX_TIMERS False, timer_list_head := None\<rparr>"

text \<open>The pointer to pointer \<open>p\<close> of the insertion: \<open>None\<close> is \<open>&timer_list_head\<close>, \<open>Some i\<close> is
  \<open>&timer_pool[i].next\<close>.\<close>

definition link_target :: "timer_event list \<Rightarrow> nat option \<Rightarrow> nat option \<Rightarrow> nat option" where
  "link_target pool first p = (case p of None \<Rightarrow> first | Some i \<Rightarrow> te_next (pool ! i))"

partial_function (option) find_link ::
    "timer_event list \<Rightarrow> nat option \<Rightarrow> u64 \<Rightarrow> nat option \<Rightarrow> nat option option" where
  "find_link pool first t p =
     (case link_target pool first p of
        None \<Rightarrow> Some p
      | Some n \<Rightarrow> if timeout_tick (pool ! n) < t then find_link pool first t (Some n) else Some p)"

definition add_timer :: "u64 \<Rightarrow> u64 \<Rightarrow> int \<Rightarrow> 'a timers_scheme \<Rightarrow> 'a timers_scheme option" where
  "add_timer callback arg sec st0 =
     (case disable_and_save_sstatus st0 of (s, st) \<Rightarrow>
        (case free_slot (timer_used st) of
           None \<Rightarrow> Some (restore_sstatus s (put_text ''Error: No free timer slot!\<newline>'' st))
         | Some new \<Rightarrow> do {
             let tick = get_ticks st + of_int sec * cpu_freq st;
             let ev = \<lparr>timeout_tick = tick, te_callback = callback, te_arg = arg, te_next = None\<rparr>;
             let pool = (timer_pool st)[new := ev];
             p \<leftarrow> find_link pool (timer_list_head st) tick None;
             let pool1 = pool[new := ev\<lparr>te_next := link_target pool (timer_list_head st) p\<rparr>];
             let st1 = st\<lparr>timer_used := (timer_used st)[new := True]\<rparr>;
             let st2 = (case p of
                 None \<Rightarrow> st1\<lparr>timer_pool := pool1, timer_list_head := Some new\<rparr>
               | Some i \<Rightarrow> st1\<lparr>timer_pool := pool1[i := (pool1 ! i)\<lparr>te_next := Some new\<rparr>]\<rparr>);
             let st3 = (if timer_list_head st2 = Some new then sbi_set_timer tick st2 else st2);
             Some (restore_sstatus s st3)
           }))"

text \<open>One pass of the loop of \<open>handle_timer_interrupt_task\<close> that finds an expired event: its
  removal from the list, and the release of its node after the callback.\<close>

definition pop_timer :: "u64 \<Rightarrow> 'a timers_scheme \<Rightarrow> (nat \<times> 'a timers_scheme) option" where
  "pop_timer now st =
     (case timer_list_head st of
        None \<Rightarrow> None
      | Some t \<Rightarrow>
          if now < timeout_tick (timer_pool st ! t) then None
          else Some (t, st\<lparr>timer_list_head := te_next (timer_pool st ! t)\<rparr>))"

definition fire_timer ::
    "(u64 \<Rightarrow> u64 \<Rightarrow> 'a timers_scheme \<Rightarrow> 'a timers_scheme option) \<Rightarrow> timer_event \<Rightarrow>
     'a timers_scheme \<Rightarrow> 'a timers_scheme option" where
  "fire_timer call ev st =
     (if te_callback ev \<noteq> 0 then call (te_callback ev) (te_arg ev) st
      else Some (put_text ''Nothing to execute!\<newline>'' st))"

definition release_timer :: "nat \<Rightarrow> 'a timers_scheme \<Rightarrow> 'a timers_scheme" where
  "release_timer t st =
     st\<lparr>timer_used := (timer_used st)[t := False],
        timer_pool := (timer_pool st)[t := (timer_pool st ! t)\<lparr>te_next := None\<rparr>]\<rparr>"

partial_function (option) timer_loop ::
    "(u64 \<Rightarrow> u64 \<Rightarrow> 'a timers_scheme \<Rightarrow> 'a timers_scheme option) \<Rightarrow> u64 \<Rightarrow>
     'a timers_scheme \<Rightarrow> 'a timers_scheme option" where
  "timer_loop call now st0 =
     (case disable_and_save_sstatus st0 of (s, st) \<Rightarrow>
        (case pop_timer now st of
           None \<Rightarrow> Some (restore_sstatus s st)
         | Some (t, st1) \<Rightarrow>
             Option.bind (fire_timer call (timer_pool st ! t) (restore_sstatus s st1)) (\<lambda>st2.
               timer_loop call now (release_timer t st2))))"

definition next_alarm :: "'a timers_scheme \<Rightarrow> u64" where
  "next_alarm st = (case timer_list_head st of
     Some t \<Rightarrow> timeout_tick (timer_pool st ! t) | None \<Rightarrow> 0xffffffffffffffff)"

definition handle_timer_interrupt_task ::
    "(u64 \<Rightarrow> u64 \<Rightarrow> 'a timers_scheme \<Rightarrow> 'a timers_scheme option) \<Rightarrow>
     'a timers_scheme \<Rightarrow> 'a timers_scheme option" where
  "handle_timer_interrupt_task call st0 = do {
     st1 \<leftarrow> timer_loop call (get_ticks st0) st0;
     let (s, st) = disable_and_save_sstatus st1;
     Some (restore_sstatus s (sbi_set_timer (next_alarm st) st))
   }"

text \<open>The periodic callback: \<open>self\<close> is the address of \<open>boot_time\<close>.\<close>

definition boot_time :: "u64 \<Rightarrow> 'a timers_scheme \<Rightarrow> 'a timers_scheme option" where
  "boot_time self st = do {
     st1 \<leftarrow> uart_printf ''\<newline>boot time: %d\<newline>'' [W (scast (boot_t st))] st;
     add_timer self 0 2 (st1\<lparr>boot_t := boot_t st1 + 2\<rparr>)
   }"

subsection \<open>The list of pending events\<close>

definition tnexts :: "'a timers_scheme \<Rightarrow> nat \<Rightarrow> nat option" where
  "tnexts st = (\<lambda>i. te_next (timer_pool st ! i))"

definition tick_of :: "'a timers_scheme \<Rightarrow> nat \<Rightarrow> u64" where
  "tick_of st i = timeout_tick (timer_pool st ! i)"

text \<open>\<open>timer_inv st q run\<close>: q is the list in order, run the events whose callbacks are running.\<close>

definition timer_inv :: "'a timers_scheme \<Rightarrow> nat list \<Rightarrow> nat set \<Rightarrow> bool" where
  "timer_inv st q run \<longleftrightarrow>
     length (timer_pool st) = MAX_TIMERS \<and> length (timer_used st) = MAX_TIMERS \<and>
     pchain (tnexts st) (timer_list_head st) q \<and> distinct q \<and> sorted (map (tick_of st) q) \<and>
     set q \<inter> run = {} \<and> set q \<union> run = {i. i < MAX_TIMERS \<and> timer_used st ! i}"

lemma timer_inv_cong:
  assumes "timer_pool st' = timer_pool st" and "timer_used st' = timer_used st"
    and "timer_list_head st' = timer_list_head st"
  shows "timer_inv st' q run = timer_inv st q run"
proof -
  have "tnexts st' = tnexts st" "tick_of st' = tick_of st"
    by (simp_all add: fun_eq_iff tnexts_def tick_of_def assms(1))
  then show ?thesis unfolding timer_inv_def assms by simp
qed

lemma restore_timers [simp]:
  "timer_pool (restore_sstatus v st) = timer_pool st" "timer_used (restore_sstatus v st) = timer_used st"
  "timer_list_head (restore_sstatus v st) = timer_list_head st"
  "timer_cmp (restore_sstatus v st) = timer_cmp st" "mtime (restore_sstatus v st) = mtime st"
  "cpu_freq (restore_sstatus v st) = cpu_freq st"
  for st :: "'a timers_scheme"
  by (simp_all add: restore_sstatus_def)

text \<open>The search stops behind the last event that expires earlier.\<close>

lemma find_link_prefix:
  assumes "pchain (\<lambda>i. te_next (pool ! i)) (link_target pool first p) (xs @ ys)"
    and "\<forall>x \<in> set xs. timeout_tick (pool ! x) < t"
    and "ys = [] \<or> \<not> timeout_tick (pool ! hd ys) < t"
  shows "find_link pool first t p = Some (if xs = [] then p else Some (last xs))"
  using assms(1,2)
proof (induction xs arbitrary: p)
  case Nil
  then show ?case using assms(3) by (subst find_link.simps) (cases ys; simp)
next
  case (Cons x xs)
  then have "pchain (\<lambda>i. te_next (pool ! i)) (link_target pool first (Some x)) (xs @ ys)"
    by (simp add: link_target_def)
  with Cons show ?case by (subst find_link.simps) (simp add: Cons.IH [of "Some x"])
qed

lemma add_timer_ok:
  assumes inv: "timer_inv st q run" and slot: "free_slot (timer_used st) = Some new"
    and tick: "tick = mtime st + of_int sec * cpu_freq st"
  shows "\<exists>st'. add_timer cb arg sec st = Some st' \<and>
    timer_inv st' (insert_at (\<lambda>x. tick_of st x < tick) new q) run \<and>
    te_callback (timer_pool st' ! new) = cb \<and> te_arg (timer_pool st' ! new) = arg \<and> tick_of st' new = tick \<and>
    (\<forall>x \<in> set q. tick_of st' x = tick_of st x \<and> te_callback (timer_pool st' ! x) = te_callback (timer_pool st ! x) \<and>
       te_arg (timer_pool st' ! x) = te_arg (timer_pool st ! x)) \<and>
    timer_cmp st' = (if \<forall>x \<in> set q. tick \<le> tick_of st x then tick else timer_cmp st) \<and>
    mtime st' = mtime st \<and> cpu_freq st' = cpu_freq st \<and> sstatus st' = sstatus st \<and> console st' = console st"
proof -
  let ?pool = "timer_pool st"
  let ?ev = "\<lparr>timeout_tick = tick, te_callback = cb, te_arg = arg, te_next = None\<rparr>"
  let ?P = "\<lambda>x. tick_of st x < tick"
  let ?pool1 = "?pool[new := ?ev]"
  have len: "length ?pool = MAX_TIMERS" "length (timer_used st) = MAX_TIMERS"
    and ch: "pchain (tnexts st) (timer_list_head st) q" and d: "distinct q" and so: "sorted (map (tick_of st) q)"
    and dj: "set q \<inter> run = {}" and us: "set q \<union> run = {i. i < MAX_TIMERS \<and> timer_used st ! i}"
    using inv by (simp_all add: timer_inv_def)
  have new: "new < MAX_TIMERS" "\<not> timer_used st ! new" using free_slot_some [OF slot] len(2) by simp_all
  then have nq: "new \<notin> set q" "new \<notin> run" using us by blast+
  have old: "?pool1 ! x = ?pool ! x" if "x \<in> set q" for x using that nq by (cases "x = new") auto
  define A B where "A = takeWhile ?P q" and "B = dropWhile ?P q"
  have q: "q = A @ B" by (simp add: A_def B_def)
  have lt: "\<forall>x \<in> set A. tick_of st x < tick" by (auto simp: A_def dest: set_takeWhileD)
  have ge: "B = [] \<or> \<not> tick_of st (hd B) < tick" using hd_dropWhile [of ?P q] unfolding B_def by blast
  have la: "last A \<in> set q" "last A < MAX_TIMERS" "last A \<noteq> new" if "A \<noteq> []"
  proof -
    show "last A \<in> set q" using that q by (metis Un_iff last_in_set set_append)
    then show "last A < MAX_TIMERS" "last A \<noteq> new" using us nq by blast+
  qed
  have c1: "pchain (\<lambda>i. te_next (?pool1 ! i)) (timer_list_head st) q"
    using ch old by (subst pchain_cong [of _ _ "tnexts st"]) (auto simp: tnexts_def)
  have fl: "find_link ?pool1 (timer_list_head st) tick None = Some (if A = [] then None else Some (last A))"
  proof (rule find_link_prefix [where ys = B])
    show "pchain (\<lambda>i. te_next (?pool1 ! i)) (link_target ?pool1 (timer_list_head st) None) (A @ B)"
      using c1 q by (simp add: link_target_def)
    show "\<forall>x \<in> set A. timeout_tick (?pool1 ! x) < tick" using lt old q by (auto simp: tick_of_def)
    show "B = [] \<or> \<not> timeout_tick (?pool1 ! hd B) < tick"
      using ge old [of "hd B"] q by (cases B) (auto simp: tick_of_def)
  qed
  define nx where "nx = (if A = [] then timer_list_head st else tnexts st (last A))"
  define pool' where "pool' = (let P = ?pool1[new := ?ev\<lparr>te_next := nx\<rparr>]
    in if A = [] then P else P[last A := (?pool ! last A)\<lparr>te_next := Some new\<rparr>])"
  define head' where "head' = (if A = [] then Some new else timer_list_head st)"
  define st' where "st' = st\<lparr>timer_used := (timer_used st)[new := True], timer_pool := pool',
    timer_list_head := head', timer_cmp := (if A = [] then tick else timer_cmp st)\<rparr>"
  have first: "timer_list_head st \<noteq> Some new" using ch nq by (cases q) auto
  have run: "add_timer cb arg sec st = Some st'"
    using slot fl la old first tick
    unfolding add_timer_def disable_and_save_sstatus_def get_ticks_def st'_def pool'_def head'_def nx_def
    by (auto simp: Let_def link_target_def tnexts_def sbi_set_timer_def nth_list_update intro!: restore_bracket)
  have nx': "tnexts st' = (if A = [] then (tnexts st)(new := timer_list_head st)
      else (tnexts st)(new := tnexts st (last A), last A := Some new))"
    using new(1) len(1) nq la
    by (auto simp: fun_eq_iff tnexts_def st'_def pool'_def nx_def Let_def nth_list_update)
  have chain: "pchain (tnexts st') head' (A @ new # B)"
    using pchain_insert_at [of "tnexts st" "timer_list_head st" A B new] ch d nq q nx' by (simp add: head'_def)
  have content: "timeout_tick (timer_pool st' ! x) = (if x = new then tick else timeout_tick (?pool ! x))"
    "te_callback (timer_pool st' ! x) = (if x = new then cb else te_callback (?pool ! x))"
    "te_arg (timer_pool st' ! x) = (if x = new then arg else te_arg (?pool ! x))" for x
    using new(1) len(1) nq la by (auto simp: st'_def pool'_def Let_def nth_list_update)
  have tk: "tick_of st' x = tick_of st x" if "x \<in> set q" for x
    using that nq content(1) [of x] by (auto simp: tick_of_def)
  have tn: "tick_of st' new = tick" using content(1) [of new] by (simp add: tick_of_def)
  have "sorted (map (tick_of st') (insert_at ?P new q))"
    using so tk tn by (intro sorted_insert_at [where pr = "tick_of st"]) auto
  then have "timer_inv st' (insert_at ?P new q) run"
    using chain d nq q len dj us new unfolding insert_at_def A_def [symmetric] B_def [symmetric] timer_inv_def
    by (auto simp: st'_def pool'_def Let_def nth_list_update)
  moreover have "A = [] \<longleftrightarrow> (\<forall>x \<in> set q. tick \<le> tick_of st x)"
  proof (cases q)
    case (Cons y ys)
    then have "\<forall>x \<in> set q. tick_of st y \<le> tick_of st x" using so by simp
    moreover have "A = [] \<longleftrightarrow> \<not> tick_of st y < tick" using Cons by (simp add: A_def)
    ultimately show ?thesis using Cons by (meson leD leI list.set_intros(1) order_trans)
  qed (simp add: A_def)
  ultimately show ?thesis
    using run content nq tk tn by (intro exI [of _ st']) (auto simp: st'_def)
qed

text \<open>A full pool is reported and nothing else changes.\<close>

lemma add_timer_full:
  assumes "free_slot (timer_used st) = None"
  shows "add_timer cb arg sec st = Some (put_text ''Error: No free timer slot!\<newline>'' st)"
  using assms unfolding add_timer_def disable_and_save_sstatus_def put_text_def put_bytes_def
  by (auto intro!: restore_bracket)

subsection \<open>Firing\<close>

lemma pop_timer_ok:
  assumes "timer_inv st (t # q) run" and "tick_of st t \<le> now"
  shows "pop_timer now st = Some (t, st\<lparr>timer_list_head := te_next (timer_pool st ! t)\<rparr>)"
    "timer_inv (st\<lparr>timer_list_head := te_next (timer_pool st ! t)\<rparr>) q (insert t run)"
proof -
  let ?st1 = "st\<lparr>timer_list_head := te_next (timer_pool st ! t)\<rparr>"
  have h: "timer_list_head st = Some t" using assms(1) by (simp add: timer_inv_def)
  then show "pop_timer now st = Some (t, ?st1)" using assms(2) by (simp add: pop_timer_def tick_of_def)
  have "tnexts ?st1 = tnexts st" "tick_of ?st1 = tick_of st" "te_next (timer_pool st ! t) = tnexts st t"
    by (simp_all add: fun_eq_iff tnexts_def tick_of_def)
  then show "timer_inv ?st1 q (insert t run)" using assms(1) unfolding timer_inv_def by auto
qed

lemma pop_timer_none:
  assumes "timer_inv st q run" and "q = [] \<or> now < tick_of st (hd q)"
  shows "pop_timer now st = None"
  using assms by (cases q) (auto simp: pop_timer_def timer_inv_def tick_of_def)

lemma next_alarm_inv:
  "timer_inv st q run \<Longrightarrow> next_alarm st = (case q of [] \<Rightarrow> 0xffffffffffffffff | x # _ \<Rightarrow> tick_of st x)"
  by (cases q) (simp_all add: next_alarm_def timer_inv_def tick_of_def)

lemma release_timer_ok:
  assumes "timer_inv st q (insert t run)" and "t \<notin> run"
  shows "timer_inv (release_timer t st) q run" "tick_of (release_timer t st) = tick_of st"
    "te_callback (timer_pool (release_timer t st) ! x) = te_callback (timer_pool st ! x)"
    "te_arg (timer_pool (release_timer t st) ! x) = te_arg (timer_pool st ! x)"
proof -
  have t: "t < MAX_TIMERS" "t \<notin> set q" using assms(1) by (auto simp: timer_inv_def)
  have len: "length (timer_pool st) = MAX_TIMERS" "length (timer_used st) = MAX_TIMERS"
    using assms(1) by (simp_all add: timer_inv_def)
  show tk: "tick_of (release_timer t st) = tick_of st"
    using t len by (auto simp: fun_eq_iff tick_of_def release_timer_def nth_list_update)
  show "te_callback (timer_pool (release_timer t st) ! x) = te_callback (timer_pool st ! x)"
    "te_arg (timer_pool (release_timer t st) ! x) = te_arg (timer_pool st ! x)"
    using t len by (auto simp: release_timer_def nth_list_update)
  have "tnexts (release_timer t st) = (tnexts st)(t := None)"
    using t len by (auto simp: fun_eq_iff tnexts_def release_timer_def nth_list_update)
  then have "pchain (tnexts (release_timer t st)) (timer_list_head st) q"
    using assms(1) t by (simp add: pchain_upd timer_inv_def)
  moreover have "{i. i < MAX_TIMERS \<and> (timer_used st)[t := False] ! i} = {i. i < MAX_TIMERS \<and> timer_used st ! i} - {t}"
    using len t by (auto simp: nth_list_update split: if_splits)
  ultimately show "timer_inv (release_timer t st) q run"
    using assms len unfolding timer_inv_def tk by (auto simp: release_timer_def)
qed

text \<open>Callbacks that only write to the console: the events that are due fire in list order.\<close>

definition fired :: "(u64 \<Rightarrow> u64 \<Rightarrow> u8 list) \<Rightarrow> timer_event \<Rightarrow> u8 list" where
  "fired log ev = (if te_callback ev \<noteq> 0 then log (te_callback ev) (te_arg ev)
     else concat (map putc_bytes (str8 ''Nothing to execute!\<newline>'')))"

lemma fire_timer_ok:
  assumes "\<And>cb arg st. call cb arg st = Some (st\<lparr>console := console st @ log cb arg\<rparr>)"
  shows "fire_timer call ev st = Some (st\<lparr>console := console st @ fired log ev\<rparr>)"
  using assms by (simp add: fire_timer_def fired_def put_text_def put_bytes_def str8_def)

lemma timer_loop_ok:
  assumes call: "\<And>cb arg st. call cb arg st = Some (st\<lparr>console := console st @ log cb arg\<rparr>)"
  shows "timer_inv st q run \<Longrightarrow>
    \<exists>st'. timer_loop call now st = Some st' \<and>
      timer_inv st' (dropWhile (\<lambda>x. tick_of st x \<le> now) q) run \<and> tick_of st' = tick_of st \<and>
      console st' = console st @ concat (map (\<lambda>x. fired log (timer_pool st ! x))
        (takeWhile (\<lambda>x. tick_of st x \<le> now) q)) \<and> sstatus st' = sstatus st \<and> mtime st' = mtime st"
proof (induction q arbitrary: st)
  case Nil
  let ?st = "st\<lparr>sstatus := sstatus st AND NOT SIE\<rparr>"
  have "timer_inv ?st [] run" using Nil timer_inv_cong [of ?st st] by simp
  then have "pop_timer now ?st = None" by (rule pop_timer_none) simp
  then have "timer_loop call now st = Some st"
    by (subst timer_loop.simps) (simp add: disable_and_save_sstatus_def)
  then show ?case using Nil by simp
next
  case (Cons t q)
  let ?st = "st\<lparr>sstatus := sstatus st AND NOT SIE\<rparr>"
  have inv: "timer_inv ?st (t # q) run" using Cons.prems timer_inv_cong [of ?st st "t # q" run] by simp
  have tk: "tick_of ?st = tick_of st" by (simp add: fun_eq_iff tick_of_def)
  show ?case
  proof (cases "tick_of st t \<le> now")
    case True
    then have "tick_of ?st t \<le> now" by (simp add: tk)
    note pop = pop_timer_ok [OF inv this]
    let ?ev = "timer_pool st ! t"
    define st2 where "st2 = st\<lparr>timer_list_head := te_next ?ev, console := console st @ fired log ?ev\<rparr>"
    have bracket: "restore_sstatus (sstatus st) (?st\<lparr>timer_list_head := te_next ?ev\<rparr>) = st\<lparr>timer_list_head := te_next ?ev\<rparr>"
      by (rule restore_bracket) simp_all
    have "t \<notin> run" using Cons.prems by (auto simp: timer_inv_def)
    moreover have "timer_inv st2 q (insert t run)"
      using pop(2) timer_inv_cong [of st2 "?st\<lparr>timer_list_head := te_next ?ev\<rparr>"] by (simp add: st2_def)
    ultimately have i3: "timer_inv (release_timer t st2) q run" "tick_of (release_timer t st2) = tick_of st2"
      and same: "\<And>x. te_callback (timer_pool (release_timer t st2) ! x) = te_callback (timer_pool st2 ! x)"
        "\<And>x. te_arg (timer_pool (release_timer t st2) ! x) = te_arg (timer_pool st2 ! x)"
      using release_timer_ok [of st2 q t run] by simp_all
    have s2: "tick_of st2 = tick_of st" by (simp add: fun_eq_iff tick_of_def st2_def)
    have f: "fired log (timer_pool (release_timer t st2) ! x) = fired log (timer_pool st ! x)" for x
      by (simp add: fired_def same) (simp add: st2_def)
    have r: "console (release_timer t st2) = console st @ fired log ?ev" "sstatus (release_timer t st2) = sstatus st"
      "mtime (release_timer t st2) = mtime st" by (simp_all add: release_timer_def st2_def)
    have run: "timer_loop call now st = timer_loop call now (release_timer t st2)"
      using pop(1) fire_timer_ok [where call = call and log = log, OF call] bracket
      by (subst timer_loop.simps) (simp add: disable_and_save_sstatus_def st2_def)
    show ?thesis using Cons.IH [OF i3(1)] True unfolding run i3(2) s2 f r by simp
  next
    case False
    then have "pop_timer now ?st = None" using inv tk by (intro pop_timer_none) auto
    then have "timer_loop call now st = Some st"
      by (subst timer_loop.simps) (simp add: disable_and_save_sstatus_def)
    then show ?thesis using Cons.prems False by simp
  qed
qed

subsection \<open>Properties\<close>

text \<open>C37: \<open>add_timer\<close> queues the event behind all that expire earlier and before all others, so the
  list stays sorted by expiry, and programs the comparator for it exactly when no pending event
  expires before it; the interrupt-enable bit is as it was.\<close>

theorem add_timer_sorted:
  assumes "timer_inv st q run" and "free_slot (timer_used st) = Some new"
  shows "\<exists>st'. let tick = mtime st + of_int sec * cpu_freq st in
    add_timer cb arg sec st = Some st' \<and>
    timer_inv st' (takeWhile (\<lambda>x. tick_of st x < tick) q @ new # dropWhile (\<lambda>x. tick_of st x < tick) q) run \<and>
    timer_pool st' ! new = \<lparr>timeout_tick = tick, te_callback = cb, te_arg = arg, te_next = te_next (timer_pool st' ! new)\<rparr> \<and>
    timer_cmp st' = (if \<forall>x \<in> set q. tick \<le> tick_of st x then tick else timer_cmp st) \<and>
    sstatus st' = sstatus st"
  using add_timer_ok [OF assms refl, of cb arg sec] unfolding insert_at_def tick_of_def Let_def by auto

definition idle_timers :: timers where
  "idle_timers = tasks.extend idle_tasks
     \<lparr>timer_pool = replicate MAX_TIMERS \<lparr>timeout_tick = 0, te_callback = 0, te_arg = 0, te_next = None\<rparr>,
      timer_used = replicate MAX_TIMERS False, timer_list_head = None, cpu_freq = 10, boot_t = 0\<rparr>"

lemma idle_timers_inv: "timer_inv idle_timers [] {}" "free_slot (timer_used idle_timers) = Some 0"
  "mtime idle_timers = 0" "cpu_freq idle_timers = 10"
  by (auto simp: timer_inv_def idle_timers_def tasks.defs idle_tasks_def free_slot_def MAX_TIMERS_def upt_conv_Cons)

lemma add_timer_sorted_witness:
  "\<exists>st'. add_timer 100 7 3 idle_timers = Some st' \<and> timer_inv st' [0] {} \<and> timer_cmp st' = 30"
  using add_timer_sorted [OF idle_timers_inv(1,2), of 3 100 7] by (auto simp: Let_def idle_timers_inv(3,4))



end
