(* ===== verification/Kernel_State.thy ===== *)
theory Kernel_State
  imports Timer
begin

text \<open>
  The state of the kernel and the data types of its headers (sched.h, trap.h, vfs.h, tmpfs.h,
  ramfs.h, devfs.h, paging.h, plic.h under src/lab7/inc).

  The record \<open>kernel\<close> is the last link of the chain machine, mm, tasks, timers: every operation
  of the earlier theories applies to it.  A structure that the kernel allocates lives in a heap
  of its own type, a partial map from its address; an access through a pointer to nothing is
  undefined.  Pages (page tables, user pages, file data, the RAM disk) are bytes of \<open>mem\<close>.
  A structure that \<open>allocate\<close> returns keeps in its unassigned fields what the bytes of the
  chunk hold.  A trap frame is an object of the heap \<open>tframes\<close> at its address on the kernel
  stack.  The pointers to the static tables of operations are constructors.

  \<open>debug\<close> is the build configuration (\<open>make test\<close> for QEMU defines DEBUG).  \<open>plic_pending\<close> are
  the interrupts that the claim register will report.  \<open>flushed_lines\<close> records the cache lines
  written back, \<open>fw_cfg_buffer\<close> the stack address of the fw_cfg driver's buffers, \<open>fw_cfg_log\<close> the requests sent to the fw_cfg device with the contents of their
  buffers, and \<open>fw_cfg_device\<close> is the device: from all requests so far to the control word and the
  buffer that it leaves.  \<open>ret_from_exception\<close> is the label of start.S
  and \<open>cpu_ctx\<close> are the callee-saved
  registers of the hart that \<open>switch_to\<close> exchanges.
\<close>

subsection \<open>Tasks (sched.h) and trap frames (trap.h)\<close>

definition STACK_SIZE :: u64 where "STACK_SIZE = 0x4000"

datatype thread_state = THREAD_RUNNING | THREAD_ZOMBIE | THREAD_WAITING

record vm_area =
  vm_start :: u64
  vm_end :: u64
  vm_prot :: u32
  vm_flags :: u32

record thread_struct =
  th_ra :: u64
  th_sp :: u64
  th_s :: "u64 list"
  th_sstatus :: u64

definition MAX_FD :: nat where "MAX_FD = 16"

record task_struct =
  ts_thread :: thread_struct
  ts_pid :: u32
  ts_state :: thread_state
  ts_pgd :: u64
  ts_code_pa :: u64
  ts_code_size :: u64
  ts_kernel_sp :: u64
  ts_user_sp :: u64
  ts_stack :: u64
  ts_user_stack :: u64
  ts_sig_handlers :: "u64 list"
  ts_pending_signals :: u32
  ts_saved_regs :: u64
  ts_signal_stack :: u64
  ts_vmas :: "vm_area list"
  ts_vma_count :: nat
  ts_fds :: "u64 list"
  ts_cwd :: u64
  ts_next :: u64
  ts_prev :: u64

definition sizeof_task_struct :: u64 where "sizeof_task_struct = 1392"

definition zero_task :: task_struct where
  "zero_task = \<lparr>ts_thread = \<lparr>th_ra = 0, th_sp = 0, th_s = replicate 12 0, th_sstatus = 0\<rparr>,
     ts_pid = 0, ts_state = THREAD_RUNNING, ts_pgd = 0, ts_code_pa = 0, ts_code_size = 0,
     ts_kernel_sp = 0, ts_user_sp = 0, ts_stack = 0, ts_user_stack = 0,
     ts_sig_handlers = replicate 32 0, ts_pending_signals = 0, ts_saved_regs = 0, ts_signal_stack = 0,
     ts_vmas = replicate 32 \<lparr>vm_start = 0, vm_end = 0, vm_prot = 0, vm_flags = 0\<rparr>, ts_vma_count = 0,
     ts_fds = replicate MAX_FD 0, ts_cwd = 0, ts_next = 0, ts_prev = 0\<rparr>"

text \<open>A saved register by its index in \<open>struct pt_regs\<close>.\<close>

datatype reg = RA | SP | GP | TP | T0 | T1 | T2 | S0 | S1 | A0 | A1 | A2 | A3 | A4 | A5 | A6 | A7
  | S2 | S3 | S4 | S5 | S6 | S7 | S8 | S9 | S10 | S11 | T3 | T4 | T5 | T6 | EPC | SSTATUS | SCAUSE | STVAL

type_synonym pt_regs = "reg \<Rightarrow> u64"

definition sizeof_pt_regs :: u64 where "sizeof_pt_regs = 280"

subsection \<open>The virtual file system (vfs.h) and the nodes of its drivers\<close>

datatype vnode_type = VFS_TYPE_DIR | VFS_TYPE_FILE

datatype vnode_operations = tmpfs_v_ops | ramfs_v_ops | devfs_v_ops

datatype file_operations = no_f_ops | tmpfs_f_ops | ramfs_f_ops | devfs_uart_f_ops | devfs_fb_f_ops

datatype filesystem = tmpfs_driver | ramfs_driver | devfs_driver

record vnode =
  v_mount :: u64
  v_ops :: vnode_operations
  v_f_ops :: file_operations
  v_parent :: u64
  v_type :: vnode_type
  v_internal :: u64

definition sizeof_vnode :: u64 where "sizeof_vnode = 48"

record file_struct =
  f_vnode :: u64
  f_pos :: u64
  f_ops :: file_operations
  f_ref_count :: u32
  f_flags :: u32

definition sizeof_file :: u64 where "sizeof_file = 32"

record mount =
  m_root :: u64
  m_fs :: filesystem
  m_mountpoint :: u64

definition sizeof_mount :: u64 where "sizeof_mount = 24"

definition MAX_NAME :: nat where "MAX_NAME = 16"

definition MAX_ENTRIES :: nat where "MAX_ENTRIES = 16"

definition MAX_FILE_SIZE :: u64 where "MAX_FILE_SIZE = 4096"

text \<open>\<open>tmpfs_node\<close>, \<open>ramfs_node\<close> and \<open>devfs_node\<close> have the same members; the union of \<open>data\<close>
  and \<open>entries\<close> is the list of its sixteen words, the first of which is \<open>data\<close>.\<close>

datatype node_type = NODE_DIR | NODE_FILE

record fs_node =
  n_name :: "u8 list"
  n_type :: node_type
  n_size :: u64
  n_entries :: "u64 list"

definition n_data :: "fs_node \<Rightarrow> u64" where "n_data n = n_entries n ! 0"

definition sizeof_fs_node :: u64 where "sizeof_fs_node = 160"

text \<open>A request to the fw_cfg device of QEMU (\<open>FWCfgDmaAccess\<close> of src/lab7/src/video.c), big-endian
  as the driver writes it.\<close>

record fw_cfg_dma_access =
  dma_control :: u32
  dma_length :: u32
  dma_address :: u64

subsection \<open>The state\<close>

record kernel = timers +
  debug :: bool
  hart_id :: u64
  ret_from_exception :: u64
  cpu_ctx :: thread_struct
  task_structs :: "u64 \<rightharpoonup> task_struct"
  run_queue :: u64
  zombie_queue :: u64
  nr_threads :: u32
  tframes :: "u64 \<rightharpoonup> pt_regs"
  kernel_pgd :: u64
  active_user_pgd :: u64
  page_ref_counts :: "nat \<Rightarrow> u8"
  vnodes :: "u64 \<rightharpoonup> vnode"
  fs_nodes :: "u64 \<rightharpoonup> fs_node"
  files :: "u64 \<rightharpoonup> file_struct"
  mounts :: "u64 \<rightharpoonup> mount"
  rootfs :: u64
  registered_filesystems :: "filesystem list"
  active_mounts :: "u64 list"
  cpio_base :: u64
  plic_regs :: "u64 \<Rightarrow> u32"
  plic_pending :: "u32 list"
  shell_input :: "u8 list"
  flushed_lines :: "u64 list"
  fw_cfg_buffer :: u64
  fw_cfg_log :: "(fw_cfg_dma_access \<times> u8 list) list"
  fw_cfg_device :: "(fw_cfg_dma_access \<times> u8 list) list \<Rightarrow> u32 \<times> u8 list"

text \<open>What the unassigned fields of a fresh node hold.\<close>

definition raw_node :: "bytes \<Rightarrow> u64 \<Rightarrow> fs_node" where
  "raw_node m p = \<lparr>n_name = map (\<lambda>i. m (p + of_nat i)) [0..<MAX_NAME],
     n_type = (if m (p + 16) = 0 then NODE_DIR else NODE_FILE),
     n_size = load64 m (p + 24), n_entries = map (\<lambda>i. load64 m (p + 32 + of_nat (8 * i))) [0..<MAX_ENTRIES]\<rparr>"

text \<open>The name as a C string: behind its sixteen bytes lies the little-endian \<open>type\<close>.\<close>

definition name_of :: "fs_node \<Rightarrow> cptr" where
  "name_of n = (\<lambda>i. if i < MAX_NAME then n_name n ! i
     else if i = MAX_NAME \<and> n_type n = NODE_FILE then 1 else 0)"

definition update_task :: "u64 \<Rightarrow> (task_struct \<Rightarrow> task_struct) \<Rightarrow> kernel \<Rightarrow> kernel option" where
  "update_task p f s = do { t \<leftarrow> task_structs s p; Some (s\<lparr>task_structs := (task_structs s)(p \<mapsto> f t)\<rparr>) }"

definition update_vnode :: "u64 \<Rightarrow> (vnode \<Rightarrow> vnode) \<Rightarrow> kernel \<Rightarrow> kernel option" where
  "update_vnode p f s = do { v \<leftarrow> vnodes s p; Some (s\<lparr>vnodes := (vnodes s)(p \<mapsto> f v)\<rparr>) }"

definition update_node :: "u64 \<Rightarrow> (fs_node \<Rightarrow> fs_node) \<Rightarrow> kernel \<Rightarrow> kernel option" where
  "update_node p f s = do { n \<leftarrow> fs_nodes s p; Some (s\<lparr>fs_nodes := (fs_nodes s)(p \<mapsto> f n)\<rparr>) }"

definition update_file :: "u64 \<Rightarrow> (file_struct \<Rightarrow> file_struct) \<Rightarrow> kernel \<Rightarrow> kernel option" where
  "update_file p f s = do { h \<leftarrow> files s p; Some (s\<lparr>files := (files s)(p \<mapsto> f h)\<rparr>) }"

definition get_current :: "kernel \<Rightarrow> u64" where "get_current s = tp s"

text \<open>A kernel without tasks, files and mounts, over one free page.\<close>

definition blank_kernel :: kernel where
  "blank_kernel = timers.extend idle_timers
     \<lparr>debug = False, hart_id = 0, ret_from_exception = 0, cpu_ctx = ts_thread zero_task, task_structs = Map.empty,
      run_queue = 0, zombie_queue = 0, nr_threads = 0, tframes = Map.empty, kernel_pgd = 0,
      active_user_pgd = 0, page_ref_counts = (\<lambda>_. 0), vnodes = Map.empty, fs_nodes = Map.empty,
      files = Map.empty, mounts = Map.empty, rootfs = 0, registered_filesystems = [],
      active_mounts = [], cpio_base = 0, plic_regs = (\<lambda>_. 0), plic_pending = [], shell_input = [],
      flushed_lines = [], fw_cfg_buffer = 0, fw_cfg_log = [], fw_cfg_device = (\<lambda>_. (0, []))\<rparr>"

lemma blank_kernel_sel [simp]:
  "task_structs blank_kernel = Map.empty" "run_queue blank_kernel = 0" "zombie_queue blank_kernel = 0"
  "vnodes blank_kernel = Map.empty" "fs_nodes blank_kernel = Map.empty" "files blank_kernel = Map.empty"
  "mounts blank_kernel = Map.empty" "active_mounts blank_kernel = []" "rootfs blank_kernel = 0"
  "tp blank_kernel = 0" "sstatus blank_kernel = 2" "heap blank_kernel = one_page" "debug blank_kernel = False"
  "cpu_ctx blank_kernel = ts_thread zero_task" "tframes blank_kernel = Map.empty"
  "page_ref_counts blank_kernel = (\<lambda>_. 0)" "kernel_pgd blank_kernel = 0" "active_user_pgd blank_kernel = 0"
  "mem blank_kernel = (\<lambda>_. 0)"
  by (simp_all add: blank_kernel_def timers.defs idle_timers_def tasks.defs idle_tasks_def)

end
