(* ===== verification/Sched.thy ===== *)
theory Sched
  imports Kernel_State Linked_List
begin

text \<open>
  The scheduler of src/lab7/src/sched.c and \<open>switch_to\<close> of src/lab7/start.S: the run queue, a ring
  of tasks through their \<open>next\<close> and \<open>prev\<close> fields whose first element is \<open>run_queue\<close>, and the
  switch of the hart from one task to the next.  The functions of sched.c that create and
  reap threads are the theory Process.

  A call of \<open>schedule\<close> returns when some other thread switches back.  What the other threads do
  in between is the parameter \<open>env\<close>: it takes the state right after \<open>switch_to\<close> to the state in
  which the caller runs again, and it is \<open>None\<close> when the caller is never chosen again.

  The lemmas relate the ring to a HOL list (\<open>run_ring\<close>, on top of \<open>dlist\<close> of Linked_List): enqueue
  appends, dequeue removes, and a switch rotates.
\<close>

datatype queue = Run_queue | Zombie_queue

definition queue_head :: "queue \<Rightarrow> kernel \<Rightarrow> u64" where
  "queue_head q s = (case q of Run_queue \<Rightarrow> run_queue s | Zombie_queue \<Rightarrow> zombie_queue s)"

definition set_queue_head :: "queue \<Rightarrow> u64 \<Rightarrow> kernel \<Rightarrow> kernel" where
  "set_queue_head q v s = (case q of Run_queue \<Rightarrow> s\<lparr>run_queue := v\<rparr> | Zombie_queue \<Rightarrow> s\<lparr>zombie_queue := v\<rparr>)"

definition set_next :: "u64 \<Rightarrow> u64 \<Rightarrow> kernel \<Rightarrow> kernel option" where
  "set_next p v = update_task p (\<lambda>t. t\<lparr>ts_next := v\<rparr>)"

definition set_prev :: "u64 \<Rightarrow> u64 \<Rightarrow> kernel \<Rightarrow> kernel option" where
  "set_prev p v = update_task p (\<lambda>t. t\<lparr>ts_prev := v\<rparr>)"

definition enqueue :: "queue \<Rightarrow> u64 \<Rightarrow> kernel \<Rightarrow> kernel option" where
  "enqueue queue task st0 = do {
     let (s, st) = disable_and_save_sstatus st0;
     let q = queue_head queue st;
     st1 \<leftarrow>
       (if q = 0 then do {
          s1 \<leftarrow> set_next task task (set_queue_head queue task st);
          set_prev task task s1
        } else do {
          h \<leftarrow> task_structs st q;
          s1 \<leftarrow> set_next (ts_prev h) task st;
          s2 \<leftarrow> set_next task q s1;
          h' \<leftarrow> task_structs s2 q;
          s3 \<leftarrow> set_prev task (ts_prev h') s2;
          set_prev q task s3
        });
     Some (restore_sstatus s st1)
   }"

definition dequeue :: "u64 \<Rightarrow> kernel \<Rightarrow> kernel option" where
  "dequeue task st0 = do {
     let (s, st) = disable_and_save_sstatus st0;
     st1 \<leftarrow>
       (if task \<noteq> 0 then do {
          t \<leftarrow> task_structs st task;
          s1 \<leftarrow> set_prev (ts_next t) (ts_prev t) st;
          t1 \<leftarrow> task_structs s1 task;
          s2 \<leftarrow> set_next (ts_prev t1) (ts_next t1) s1;
          t2 \<leftarrow> task_structs s2 task;
          let s3 = (if run_queue s2 = task then s2\<lparr>run_queue := ts_next t2\<rparr> else s2);
          s4 \<leftarrow> set_next task 0 s3;
          set_prev task 0 s4
        } else Some st);
     Some (restore_sstatus s st1)
   }"

subsection \<open>The context switch\<close>

definition MAKE_SATP :: "u64 \<Rightarrow> u64" where
  "MAKE_SATP pgd_pa = push_bit 60 8 OR drop_bit 12 pgd_pa"

definition switch_to :: "u64 \<Rightarrow> u64 \<Rightarrow> kernel \<Rightarrow> kernel option" where
  "switch_to prv nxt s = do {
     s1 \<leftarrow> update_task prv (\<lambda>t. t\<lparr>ts_thread := (cpu_ctx s)\<lparr>th_sstatus := sstatus s\<rparr>\<rparr>) s;
     n \<leftarrow> task_structs s1 nxt;
     Some (s1\<lparr>cpu_ctx := ts_thread n, sstatus := th_sstatus (ts_thread n), tp := nxt\<rparr>)
   }"

text \<open>The part of \<open>schedule\<close> up to \<open>switch_to\<close>: the new head of the run queue, and, when it is not
  the current task, the state in which it continues.\<close>

definition next_head :: "kernel \<Rightarrow> kernel option" where
  "next_head s =
     (if get_current s = run_queue s
      then do { t \<leftarrow> task_structs s (run_queue s); Some (s\<lparr>run_queue := ts_next t\<rparr>) }
      else Some s)"

definition switch_away :: "kernel \<Rightarrow> kernel option" where
  "switch_away s = do {
     n \<leftarrow> task_structs s (run_queue s);
     switch_to (get_current s) (run_queue s)
       (s\<lparr>active_user_pgd := ts_pgd n, satp := MAKE_SATP (virt_to_phys (ts_pgd n))\<rparr>)
   }"

definition schedule :: "(kernel \<Rightarrow> kernel option) \<Rightarrow> kernel \<Rightarrow> kernel option" where
  "schedule env st0 = do {
     let (s, st) = disable_and_save_sstatus st0;
     let st1 = (if get_current st = 0 then put_text ''Panic: tp is zero!\<newline>'' st else st);
     if run_queue st1 = 0 then Some (restore_sstatus s st1)
     else do {
       st2 \<leftarrow> next_head st1;
       st3 \<leftarrow> (if get_current st2 \<noteq> run_queue st2
               then do { sw \<leftarrow> switch_away st2; env sw } else Some st2);
       Some (restore_sstatus s st3)
     }
   }"

text \<open>\<open>thread_exit\<close> up to its call of \<open>schedule\<close>.\<close>

definition retire :: "kernel \<Rightarrow> kernel option" where
  "retire st0 = do {
     let (s, st) = disable_and_save_sstatus (put_text ''Thread exiting!\<newline>'' st0);
     let curr = get_current st;
     st1 \<leftarrow> update_task curr (\<lambda>t. t\<lparr>ts_state := THREAD_ZOMBIE\<rparr>) st;
     st2 \<leftarrow> dequeue curr st1;
     st3 \<leftarrow> set_next curr (zombie_queue st2) st2;
     Some (restore_sstatus s (st3\<lparr>zombie_queue := curr\<rparr>))
   }"

definition thread_exit :: "(kernel \<Rightarrow> kernel option) \<Rightarrow> kernel \<Rightarrow> kernel option" where
  "thread_exit env st0 = do { st \<leftarrow> retire st0; schedule env st }"

subsection \<open>The run queue as a list\<close>

type_synonym task_heap = "u64 \<rightharpoonup> task_struct"

definition task_links :: "task_heap \<Rightarrow> links" where
  "task_links H =
     \<lparr>lnext = (\<lambda>p. case H p of None \<Rightarrow> 0 | Some t \<Rightarrow> ts_next t),
      lprev = (\<lambda>p. case H p of None \<Rightarrow> 0 | Some t \<Rightarrow> ts_prev t)\<rparr>"

definition ring :: "task_heap \<Rightarrow> u64 \<Rightarrow> u64 list \<Rightarrow> bool" where
  "ring H q xs \<longleftrightarrow>
     (case xs of [] \<Rightarrow> q = 0 | x # ys \<Rightarrow> q = x \<and> dlist (task_links H) x ys) \<and>
     0 \<notin> set xs \<and> set xs \<subseteq> dom H"

definition run_ring :: "kernel \<Rightarrow> u64 list \<Rightarrow> bool" where
  "run_ring s xs \<longleftrightarrow> ring (task_structs s) (run_queue s) xs"

text \<open>Two heaps that differ in the queue pointers only.\<close>

definition unlinked :: "task_struct \<Rightarrow> task_struct" where
  "unlinked t = t\<lparr>ts_next := 0, ts_prev := 0\<rparr>"

definition same_tasks :: "task_heap \<Rightarrow> task_heap \<Rightarrow> bool" where
  "same_tasks H H' \<longleftrightarrow> (\<forall>p. map_option unlinked (H' p) = map_option unlinked (H p))"

lemma same_tasks_refl [simp]: "same_tasks H H"
  by (simp add: same_tasks_def)

lemma same_tasks_trans [trans]: "same_tasks a b \<Longrightarrow> same_tasks b c \<Longrightarrow> same_tasks a c"
  by (simp add: same_tasks_def)

lemma same_tasks_dom:
  assumes "same_tasks H H'"
  shows "dom H' = dom H"
proof -
  have "H' p = None \<longleftrightarrow> H p = None" for p
    using assms unfolding same_tasks_def by (metis None_eq_map_option_iff)
  then show ?thesis by (auto simp: dom_def)
qed

lemma same_tasks_get:
  assumes "same_tasks H H'" and "H p = Some t"
  obtains t' where "H' p = Some t'" "unlinked t' = unlinked t"
proof -
  have "map_option unlinked (H' p) = Some (unlinked t)" using assms by (simp add: same_tasks_def)
  then show ?thesis using that by auto
qed

lemma unlinked_fields:
  assumes "unlinked t' = unlinked t"
  shows "ts_thread t' = ts_thread t" "ts_pid t' = ts_pid t" "ts_state t' = ts_state t" "ts_pgd t' = ts_pgd t"
    "ts_stack t' = ts_stack t" "ts_fds t' = ts_fds t" "ts_cwd t' = ts_cwd t" "ts_kernel_sp t' = ts_kernel_sp t"
  using assms by (cases t; cases t'; simp add: unlinked_def)+

text \<open>Outside the given tasks the \<open>next\<close> pointers are the same.\<close>

definition links_kept :: "u64 set \<Rightarrow> task_heap \<Rightarrow> task_heap \<Rightarrow> bool" where
  "links_kept A H H' \<longleftrightarrow> (\<forall>z. z \<notin> A \<longrightarrow> lnext (task_links H') z = lnext (task_links H) z)"

text \<open>The effect of one pointer assignment.\<close>

lemma set_next_ok:
  assumes "p \<in> dom (task_structs s)"
  obtains H where "set_next p v s = Some (s\<lparr>task_structs := H\<rparr>)" "same_tasks (task_structs s) H"
    "task_links H = (task_links (task_structs s))\<lparr>lnext := (lnext (task_links (task_structs s)))(p := v)\<rparr>"
proof -
  obtain t where t: "task_structs s p = Some t" using assms by blast
  show ?thesis
    by (rule that [of "(task_structs s)(p \<mapsto> t\<lparr>ts_next := v\<rparr>)"])
      (auto simp: set_next_def update_task_def task_links_def same_tasks_def unlinked_def t fun_eq_iff)
qed

lemma set_prev_ok:
  assumes "p \<in> dom (task_structs s)"
  obtains H where "set_prev p v s = Some (s\<lparr>task_structs := H\<rparr>)" "same_tasks (task_structs s) H"
    "task_links H = (task_links (task_structs s))\<lparr>lprev := (lprev (task_links (task_structs s)))(p := v)\<rparr>"
proof -
  obtain t where t: "task_structs s p = Some t" using assms by blast
  show ?thesis
    by (rule that [of "(task_structs s)(p \<mapsto> t\<lparr>ts_prev := v\<rparr>)"])
      (auto simp: set_prev_def update_task_def task_links_def same_tasks_def unlinked_def t fun_eq_iff)
qed

lemma links_get:
  assumes "p \<in> dom H"
  obtains t where "H p = Some t" "ts_next t = lnext (task_links H) p" "ts_prev t = lprev (task_links H) p"
  using assms by (auto simp: task_links_def)

text \<open>The first element of a ring is arbitrary.\<close>

lemma dlist_rotate:
  assumes "dlist l x (y # ys)"
  shows "dlist l y (ys @ [x])"
  using assms by (auto simp: dlist_def chain_append)

lemma ring_dom: "ring H q xs \<Longrightarrow> x \<in> set xs \<Longrightarrow> x \<in> dom H \<and> x \<noteq> 0"
  by (auto simp: ring_def)

lemma ring_distinct: "ring H q xs \<Longrightarrow> distinct xs"
  by (cases xs) (auto simp: ring_def dlist_def)

lemma ring_rotate: "ring H q (x # y # ys) \<Longrightarrow> ring H y (y # ys @ [x])"
  using dlist_rotate [of "task_links H" x y ys] by (auto simp: ring_def)

lemma enqueue_ok:
  assumes ring: "run_ring s xs" and t: "t \<in> dom (task_structs s)" "t \<noteq> 0" "t \<notin> set xs"
  shows "\<exists>H. enqueue Run_queue t s = Some (s\<lparr>task_structs := H, run_queue := hd (xs @ [t])\<rparr>) \<and>
    ring H (hd (xs @ [t])) (xs @ [t]) \<and> same_tasks (task_structs s) H \<and> links_kept (insert t (set xs)) (task_structs s) H"
proof (cases xs)
  case Nil
  define st where "st = s\<lparr>sstatus := sstatus s AND NOT SIE, run_queue := t\<rparr>"
  have "t \<in> dom (task_structs st)" using t by (simp add: st_def)
  from set_next_ok [OF this, of t] obtain H1 where H1: "set_next t t st = Some (st\<lparr>task_structs := H1\<rparr>)"
    "same_tasks (task_structs s) H1"
    "task_links H1 = (task_links (task_structs s))\<lparr>lnext := (lnext (task_links (task_structs s)))(t := t)\<rparr>"
    by (auto simp: st_def)
  have "t \<in> dom (task_structs (st\<lparr>task_structs := H1\<rparr>))" using same_tasks_dom [OF H1(2)] t by simp
  from set_prev_ok [OF this, of t] obtain H2 where H2: "set_prev t t (st\<lparr>task_structs := H1\<rparr>) = Some (st\<lparr>task_structs := H2\<rparr>)"
    "same_tasks H1 H2" "task_links H2 = (task_links H1)\<lparr>lprev := (lprev (task_links H1))(t := t)\<rparr>"
    by auto
  have "run_queue s = 0" using ring Nil by (simp add: run_ring_def ring_def)
  then have "enqueue Run_queue t s = Some (s\<lparr>task_structs := H2, run_queue := t\<rparr>)"
    using H1(1) H2(1) restore_bracket [of "st\<lparr>task_structs := H2\<rparr>" "sstatus s" "s\<lparr>task_structs := H2, run_queue := t\<rparr>"]
    by (simp add: enqueue_def disable_and_save_sstatus_def queue_head_def set_queue_head_def st_def)
  moreover have same: "same_tasks (task_structs s) H2" using H1(2) H2(2) by (rule same_tasks_trans)
  moreover have "ring H2 t [t]"
    using H1(3) H2(3) t same_tasks_dom [OF same] by (simp add: ring_def dlist_def)
  moreover have "links_kept (insert t (set xs)) (task_structs s) H2" by (simp add: links_kept_def H1(3) H2(3))
  ultimately show ?thesis using Nil by auto
next
  case (Cons q ys)
  define st where "st = s\<lparr>sstatus := sstatus s AND NOT SIE\<rparr>"
  let ?H = "task_structs s"
  let ?L = "task_links ?H"
  have q: "run_queue s = q" "q \<noteq> 0" "dlist ?L q ys" "q \<in> dom ?H" "q \<noteq> t"
    using ring Cons t by (auto simp: run_ring_def ring_def)
  have p: "lprev ?L q = last (q # ys)" using q(3) chain_last [of ?L q ys q] by (simp add: dlist_def)
  then have pd: "lprev ?L q \<in> dom ?H" "lprev ?L q \<noteq> t"
    using ring_dom [of ?H "run_queue s" xs "last (q # ys)"] ring Cons t last_in_set [of "q # ys"]
    by (auto simp: run_ring_def)
  obtain h where h: "?H q = Some h" "ts_prev h = lprev ?L q" using links_get [OF q(4)] by blast
  obtain H1 where H1: "set_next (lprev ?L q) t st = Some (st\<lparr>task_structs := H1\<rparr>)" "same_tasks ?H H1"
    "task_links H1 = ?L\<lparr>lnext := (lnext ?L)(lprev ?L q := t)\<rparr>"
    using set_next_ok [of "lprev ?L q" st t] pd by (auto simp: st_def)
  have d1: "dom H1 = dom ?H" by (rule same_tasks_dom [OF H1(2)])
  obtain H2 where H2: "set_next t q (st\<lparr>task_structs := H1\<rparr>) = Some (st\<lparr>task_structs := H2\<rparr>)" "same_tasks H1 H2"
    "task_links H2 = (task_links H1)\<lparr>lnext := (lnext (task_links H1))(t := q)\<rparr>"
    using set_next_ok [of t "st\<lparr>task_structs := H1\<rparr>" q] d1 t by auto
  have d2: "dom H2 = dom ?H" using same_tasks_dom [OF H2(2)] d1 by simp
  obtain h' where h': "H2 q = Some h'" "ts_prev h' = lprev (task_links H2) q" using links_get [of q H2] d2 q(4) by blast
  obtain H3 where H3: "set_prev t (ts_prev h') (st\<lparr>task_structs := H2\<rparr>) = Some (st\<lparr>task_structs := H3\<rparr>)" "same_tasks H2 H3"
    "task_links H3 = (task_links H2)\<lparr>lprev := (lprev (task_links H2))(t := ts_prev h')\<rparr>"
    using set_prev_ok [of t "st\<lparr>task_structs := H2\<rparr>" "ts_prev h'"] d2 t by auto
  have d3: "dom H3 = dom ?H" using same_tasks_dom [OF H3(2)] d2 by simp
  obtain H4 where H4: "set_prev q t (st\<lparr>task_structs := H3\<rparr>) = Some (st\<lparr>task_structs := H4\<rparr>)" "same_tasks H3 H4"
    "task_links H4 = (task_links H3)\<lparr>lprev := (lprev (task_links H3))(q := t)\<rparr>"
    using set_prev_ok [of q "st\<lparr>task_structs := H3\<rparr>" t] d3 q by auto
  have same: "same_tasks ?H H4"
    using H1(2) H2(2) H3(2) H4(2) by (blast intro: same_tasks_trans)
  have "enqueue Run_queue t s = Some (s\<lparr>task_structs := H4\<rparr>)"
    using h h' q H1(1) H2(1) H3(1) H4(1) restore_bracket [of "st\<lparr>task_structs := H4\<rparr>" "sstatus s" "s\<lparr>task_structs := H4\<rparr>"]
    by (simp add: enqueue_def disable_and_save_sstatus_def queue_head_def st_def)
  moreover have "s\<lparr>task_structs := H4\<rparr> = s\<lparr>task_structs := H4, run_queue := q\<rparr>" using q(1) by simp
  moreover have l4: "task_links H4 = list_add_tail t q ?L"
    using pd(2) q(5) h' by (simp add: H4(3) H3(3) H2(3) H1(3) list_add_tail_def list_add_between_def Let_def fun_upd_twist)
  moreover have "links_kept (insert t (set xs)) ?H H4"
    using p last_in_set [of "q # ys"] Cons by (auto simp: links_kept_def l4 list_add_tail_def)
  moreover have "ring H4 q (q # ys @ [t])"
    using dlist_add_tail [OF q(3), of t] t Cons q(2) ring same_tasks_dom [OF same]
    by (auto simp: ring_def run_ring_def l4)
  ultimately show ?thesis using same Cons by (intro exI [of _ H4]) simp
qed

text \<open>\<open>dequeue\<close> performs the assignments of \<open>list_del\<close>.\<close>

lemma dequeue_links:
  assumes "t \<in> dom (task_structs s)" and "t \<noteq> 0"
    and "lnext (task_links (task_structs s)) t \<in> dom (task_structs s)" "lprev (task_links (task_structs s)) t \<in> dom (task_structs s)"
    and "lprev (task_links (task_structs s)) t = t \<longrightarrow> lnext (task_links (task_structs s)) t = t"
    and "lnext (task_links (task_structs s)) t = t \<longrightarrow> lprev (task_links (task_structs s)) t = t"
  shows "\<exists>H. dequeue t s = Some (s\<lparr>task_structs := H,
      run_queue := if run_queue s = t then lnext (task_links (task_structs s)) t else run_queue s\<rparr>) \<and>
    task_links H = list_del t (task_links (task_structs s)) \<and> same_tasks (task_structs s) H"
proof -
  define st where "st = s\<lparr>sstatus := sstatus s AND NOT SIE\<rparr>"
  let ?H = "task_structs s"
  let ?L = "task_links ?H"
  obtain h where h: "?H t = Some h" "ts_next h = lnext ?L t" "ts_prev h = lprev ?L t"
    using links_get [OF assms(1)] by blast
  obtain H1 where H1: "set_prev (lnext ?L t) (lprev ?L t) st = Some (st\<lparr>task_structs := H1\<rparr>)" "same_tasks ?H H1"
    "task_links H1 = ?L\<lparr>lprev := (lprev ?L)(lnext ?L t := lprev ?L t)\<rparr>"
    using set_prev_ok [of "lnext ?L t" st "lprev ?L t"] assms(3) by (auto simp: st_def)
  have d1: "dom H1 = dom ?H" by (rule same_tasks_dom [OF H1(2)])
  obtain h1 where h1: "H1 t = Some h1" "ts_next h1 = lnext ?L t" "ts_prev h1 = lprev ?L t"
    using links_get [of t H1] d1 assms H1(3) by (metis (no_types, lifting) fun_upd_apply links.select_convs links.update_convs links.surjective)
  obtain H2 where H2: "set_next (lprev ?L t) (lnext ?L t) (st\<lparr>task_structs := H1\<rparr>) = Some (st\<lparr>task_structs := H2\<rparr>)" "same_tasks H1 H2"
    "task_links H2 = (task_links H1)\<lparr>lnext := (lnext (task_links H1))(lprev ?L t := lnext ?L t)\<rparr>"
    using set_next_ok [of "lprev ?L t" "st\<lparr>task_structs := H1\<rparr>" "lnext ?L t"] d1 assms by auto
  have d2: "dom H2 = dom ?H" using same_tasks_dom [OF H2(2)] d1 by simp
  obtain h2 where h2: "H2 t = Some h2" "ts_next h2 = lnext (task_links H2) t" using links_get [of t H2] d2 assms(1) by blast
  have n2: "lnext (task_links H2) t = lnext ?L t" using H1(3) H2(3) assms(5) by simp
  define st2 where "st2 = (if run_queue s = t then st\<lparr>run_queue := lnext ?L t\<rparr> else st)"
  obtain H3 where H3: "set_next t 0 (st2\<lparr>task_structs := H2\<rparr>) = Some (st2\<lparr>task_structs := H3\<rparr>)" "same_tasks H2 H3"
    "task_links H3 = (task_links H2)\<lparr>lnext := (lnext (task_links H2))(t := 0)\<rparr>"
    using set_next_ok [of t "st2\<lparr>task_structs := H2\<rparr>" 0] d2 assms by auto
  have d3: "dom H3 = dom ?H" using same_tasks_dom [OF H3(2)] d2 by simp
  obtain H4 where H4: "set_prev t 0 (st2\<lparr>task_structs := H3\<rparr>) = Some (st2\<lparr>task_structs := H4\<rparr>)" "same_tasks H3 H4"
    "task_links H4 = (task_links H3)\<lparr>lprev := (lprev (task_links H3))(t := 0)\<rparr>"
    using set_prev_ok [of t "st2\<lparr>task_structs := H3\<rparr>" 0] d3 assms by auto
  let ?s = "s\<lparr>task_structs := H4, run_queue := if run_queue s = t then lnext ?L t else run_queue s\<rparr>"
  have st2: "(if run_queue s = t then st\<lparr>task_structs := H2, run_queue := lnext ?L t\<rparr> else st\<lparr>task_structs := H2\<rparr>)
      = st2\<lparr>task_structs := H2\<rparr>" by (simp add: st2_def)
  have br: "restore_sstatus (sstatus s) (st2\<lparr>task_structs := H4\<rparr>) = ?s"
    by (rule restore_bracket) (simp_all add: st2_def st_def)
  have "dequeue t s = Some ?s"
    unfolding dequeue_def disable_and_save_sstatus_def
    using h h1 h2 n2 assms(2) H1(1) H2(1) H3(1) H4(1) st2 br by (simp add: st_def split del: if_split cong: if_cong)
  moreover have "task_links H4 = list_del t ?L"
    using assms by (simp add: H4(3) H3(3) H2(3) H1(3) list_del_def Let_def)
  moreover have "same_tasks ?H H4"
    using H1(2) H2(2) H3(2) H4(2) by (blast intro: same_tasks_trans)
  ultimately show ?thesis by blast
qed

lemma dlist_rotate_to:
  assumes "dlist l x (as @ t # bs)"
  shows "dlist l t (bs @ x # as)"
  using assms by (auto simp: dlist_def chain_append)

lemma ring_neighbours:
  assumes "ring H q xs" and "t \<in> set xs" and "tl xs \<noteq> []"
  shows "lnext (task_links H) t \<in> set xs - {t}" "lprev (task_links H) t \<in> set xs - {t}"
proof -
  obtain x ys where xs: "xs = x # ys" using assms(2) by (cases xs) auto
  have d: "dlist (task_links H) x ys" using assms(1) unfolding xs ring_def list.case by blast
  have "\<exists>zs. dlist (task_links H) t zs \<and> set zs = set xs - {t}"
  proof (cases "t = x")
    case True
    have "set ys = set xs - {t}" using d True by (simp add: dlist_def xs)
    then show ?thesis using d True by blast
  next
    case False
    then obtain as bs where ys: "ys = as @ t # bs" using assms(2) unfolding xs by (metis set_ConsD split_list)
    have "dlist (task_links H) t (bs @ x # as)" using dlist_rotate_to [of "task_links H" x as t bs] d ys by simp
    moreover have "set (bs @ x # as) = set xs - {t}" using d False by (auto simp: dlist_def xs ys)
    ultimately show ?thesis by blast
  qed
  then obtain zs where z: "dlist (task_links H) t zs" "set zs = set xs - {t}" by blast
  obtain y ys' where ys: "ys = y # ys'" using assms(3) xs by (cases ys) auto
  then have "x \<noteq> y" using d by (auto simp: dlist_def)
  then have "x \<in> set zs \<or> y \<in> set zs" unfolding z(2) xs ys by simp metis
  then have "zs \<noteq> []" by (metis empty_iff empty_set)
  moreover have "chain (task_links H) t zs t" using z(1) by (simp add: dlist_def)
  ultimately have "lnext (task_links H) t = hd zs" "lprev (task_links H) t = last zs"
    using chain_first [of "task_links H" t zs t] chain_last [of "task_links H" t zs t] by simp_all
  then show "lnext (task_links H) t \<in> set xs - {t}" "lprev (task_links H) t \<in> set xs - {t}"
    using \<open>zs \<noteq> []\<close> z(2) hd_in_set [of zs] last_in_set [of zs] by simp_all
qed

lemma dequeue_ok:
  assumes ring: "run_ring s xs" and t: "t \<in> set xs" and two: "tl xs \<noteq> []"
  shows "\<exists>H. dequeue t s = Some (s\<lparr>task_structs := H, run_queue := hd (remove1 t xs)\<rparr>) \<and>
    ring H (hd (remove1 t xs)) (remove1 t xs) \<and> same_tasks (task_structs s) H \<and> links_kept (set xs) (task_structs s) H"
proof -
  let ?H = "task_structs s"
  let ?L = "task_links ?H"
  have r: "ring ?H (run_queue s) xs" using ring by (simp add: run_ring_def)
  note nb = ring_neighbours [OF r t two]
  have sub: "set xs \<subseteq> dom ?H" "0 \<notin> set xs" using r by (auto simp: ring_def)
  have "lnext ?L t \<in> dom ?H" "lprev ?L t \<in> dom ?H" using nb sub by blast+
  then obtain H where H: "dequeue t s = Some (s\<lparr>task_structs := H,
      run_queue := if run_queue s = t then lnext ?L t else run_queue s\<rparr>)"
    "task_links H = list_del t ?L" "same_tasks ?H H"
    using dequeue_links [of t s] t sub nb by blast
  obtain x ys where xs: "xs = x # ys" and d: "dlist ?L x ys" and x: "run_queue s = x"
    using r t by (cases xs) (auto simp: ring_def)
  have "ring H (hd (remove1 t xs)) (remove1 t xs) \<and>
      (if run_queue s = t then lnext ?L t else run_queue s) = hd (remove1 t xs)"
  proof (cases "t = x")
    case True
    then obtain y zs where ys: "ys = y # zs" using two xs by (cases ys) auto
    have "dlist (task_links H) y zs"
      using dlist_del [of ?L y zs t "[]"] dlist_rotate [of ?L x y zs] d True ys H(2) by simp
    then show ?thesis
      using True xs ys sub x d same_tasks_dom [OF H(3)] by (auto simp: ring_def dlist_def)
  next
    case False
    then obtain as bs where ys: "ys = as @ t # bs" using t xs by (metis set_ConsD split_list)
    have "dlist (task_links H) x (as @ bs)" using dlist_del [of ?L x as t bs] d ys H(2) by simp
    moreover have "remove1 t xs = x # as @ bs"
      using False xs ys ring_distinct [OF r] by (auto simp: remove1_append)
    ultimately show ?thesis using False xs ys sub x same_tasks_dom [OF H(3)] by (auto simp: ring_def)
  qed
  moreover have "links_kept (set xs) ?H H"
    using nb t by (auto simp: links_kept_def H(2) list_del_def Let_def)
  ultimately show ?thesis using H by auto
qed

text \<open>Removing the only element leaves the queue pointing to it.\<close>

lemma dequeue_last:
  assumes "run_ring s [t]"
  shows "\<exists>H. dequeue t s = Some (s\<lparr>task_structs := H, run_queue := t\<rparr>) \<and>
    lnext (task_links H) t = 0 \<and> same_tasks (task_structs s) H"
proof -
  let ?L = "task_links (task_structs s)"
  have "run_queue s = t" "lnext ?L t = t" "lprev ?L t = t" "t \<noteq> 0" "t \<in> dom (task_structs s)"
    using assms by (auto simp: run_ring_def ring_def dlist_def)
  then show ?thesis using dequeue_links [of t s] by (auto simp: list_del_def Let_def)
qed

subsection \<open>Switching\<close>

text \<open>The interrupts are off and the head of the queue is the current task: one switch hands the
  hart to the second task and rotates the ring.\<close>

definition switch_step :: "kernel \<Rightarrow> kernel option" where
  "switch_step s = do { st \<leftarrow> next_head (snd (disable_and_save_sstatus s)); switch_away st }"

lemma schedule_switch:
  assumes "run_ring s (c # n # zs)" and "get_current s = c"
  shows "schedule env s = do { sw \<leftarrow> switch_step s; st \<leftarrow> env sw; Some (restore_sstatus (sstatus s) st) }"
proof -
  have r: "ring (task_structs s) (run_queue s) (c # n # zs)" using assms(1) by (simp add: run_ring_def)
  then obtain tc where tc: "task_structs s c = Some tc" "ts_next tc = n" and c: "run_queue s = c" "c \<noteq> 0" "n \<noteq> c"
    by (auto simp: ring_def dlist_def task_links_def)
  then show ?thesis using assms(2)
    by (simp add: schedule_def switch_step_def disable_and_save_sstatus_def get_current_def next_head_def)
qed

lemma task_links_thread:
  "H p = Some t \<Longrightarrow> task_links (H(p \<mapsto> t\<lparr>ts_thread := v\<rparr>)) = task_links H"
  by (auto simp: task_links_def fun_eq_iff)

lemma switch_step_ok:
  assumes "run_ring s (c # n # zs)" and "get_current s = c" and "task_structs s c = Some tc" "task_structs s n = Some tn"
    and s': "s' = s\<lparr>run_queue := n, active_user_pgd := ts_pgd tn,
      satp := MAKE_SATP (virt_to_phys (ts_pgd tn)),
      task_structs := (task_structs s)(c \<mapsto> tc\<lparr>ts_thread := (cpu_ctx s)\<lparr>th_sstatus := sstatus s AND NOT SIE\<rparr>\<rparr>),
      cpu_ctx := ts_thread tn, sstatus := th_sstatus (ts_thread tn), tp := n\<rparr>"
  shows "switch_step s = Some s'" "run_ring s' (n # zs @ [c])"
proof -
  have r: "ring (task_structs s) (run_queue s) (c # n # zs)" using assms(1) by (simp add: run_ring_def)
  then have c: "ts_next tc = n" "run_queue s = c" "c \<noteq> 0" "n \<noteq> c"
    using assms(3) by (auto simp: ring_def dlist_def task_links_def)
  then show "switch_step s = Some s'"
    using assms(2-5) by (simp add: switch_step_def disable_and_save_sstatus_def get_current_def next_head_def
      switch_away_def switch_to_def update_task_def)
  have "ring (task_structs s) n (n # zs @ [c])" by (rule ring_rotate [OF r])
  then show "run_ring s' (n # zs @ [c])"
    using assms(3) by (auto simp: s' run_ring_def ring_def task_links_thread)
qed

fun switch_steps :: "nat \<Rightarrow> kernel \<Rightarrow> kernel option" where
  "switch_steps 0 s = Some s"
| "switch_steps (Suc k) s = do { s' \<leftarrow> switch_step s; switch_steps k s' }"

text \<open>k switches run the k-th task of the ring, and touch the saved context of no task behind it.\<close>

lemma switch_steps_ok:
  assumes "run_ring s (xs @ n # zs)" and "xs \<noteq> []" and "get_current s = hd xs"
  shows "\<exists>s' tn. switch_steps (length xs) s = Some s' \<and> run_ring s' (n # zs @ xs) \<and> get_current s' = n \<and>
    task_structs s n = Some tn \<and> cpu_ctx s' = ts_thread tn \<and> satp s' = MAKE_SATP (virt_to_phys (ts_pgd tn)) \<and>
    (\<forall>z \<in> set (n # zs). task_structs s' z = task_structs s z) \<and>
    (\<exists>tc. task_structs s (hd xs) = Some tc \<and>
      task_structs s' (hd xs) = Some (tc\<lparr>ts_thread := (cpu_ctx s)\<lparr>th_sstatus := sstatus s AND NOT SIE\<rparr>\<rparr>))"
  using assms
proof (induction xs arbitrary: s zs)
  case (Cons c xs)
  let ?rest = "xs @ n # zs"
  obtain m ms where m: "?rest = m # ms" by (cases "xs @ n # zs") auto
  have r: "run_ring s (c # m # ms)" using Cons.prems(1) m by simp
  then have dist: "distinct (c # m # ms)" unfolding run_ring_def by (rule ring_distinct)
  obtain tc tm where t: "task_structs s c = Some tc" "task_structs s m = Some tm"
    using r by (auto simp: run_ring_def ring_def)
  have cur: "get_current s = c" using Cons.prems(3) by simp
  define s1 where "s1 = s\<lparr>run_queue := m, active_user_pgd := ts_pgd tm,
      satp := MAKE_SATP (virt_to_phys (ts_pgd tm)),
      task_structs := (task_structs s)(c \<mapsto> tc\<lparr>ts_thread := (cpu_ctx s)\<lparr>th_sstatus := sstatus s AND NOT SIE\<rparr>\<rparr>),
      cpu_ctx := ts_thread tm, sstatus := th_sstatus (ts_thread tm), tp := m\<rparr>"
  have step: "switch_step s = Some s1" and r1: "run_ring s1 (m # ms @ [c])"
    using switch_step_ok [OF r cur t s1_def] by simp_all
  show ?case
  proof (cases xs)
    case Nil
    then have "m = n" "ms = zs" using m by simp_all
    then show ?thesis using step r1 t Nil dist by (auto simp: s1_def get_current_def)
  next
    case (Cons x xs')
    have "m # ms @ [c] = xs @ n # (zs @ [c])" using m by (metis append_Cons append_assoc)
    then have "run_ring s1 (xs @ n # (zs @ [c]))" using r1 by (simp only:)
    moreover have "get_current s1 = hd xs" using m Cons by (simp add: s1_def get_current_def)
    ultimately obtain s' tn where s': "switch_steps (length xs) s1 = Some s'" "run_ring s' (n # (zs @ [c]) @ xs)"
      "get_current s' = n" "task_structs s1 n = Some tn" "cpu_ctx s' = ts_thread tn"
      "satp s' = MAKE_SATP (virt_to_phys (ts_pgd tn))"
      "\<forall>z \<in> set (n # zs @ [c]). task_structs s' z = task_structs s1 z"
      using Cons.IH [of s1 "zs @ [c]"] Cons by blast
    have "c \<notin> set (n # zs)" using dist m by (metis Un_iff distinct.simps(2) set_append)
    then have old: "task_structs s1 z = task_structs s z" if "z \<in> set (n # zs)" for z using that by (auto simp: s1_def)
    then have "\<forall>z \<in> set (n # zs). task_structs s' z = task_structs s z" using s'(7) by simp
    moreover have "task_structs s n = Some tn" using s'(4) old [of n] by simp
    moreover have "task_structs s' c = Some (tc\<lparr>ts_thread := (cpu_ctx s)\<lparr>th_sstatus := sstatus s AND NOT SIE\<rparr>\<rparr>)"
      using s'(7) by (simp add: s1_def)
    moreover have "switch_steps (length (c # xs)) s = Some s'" using step s'(1) by simp
    moreover have "run_ring s' (n # zs @ c # xs)" using s'(2) by simp
    ultimately show ?thesis using s'(3,5,6) t(1) unfolding list.sel by blast
  qed
qed simp

lemma switch_steps_snoc: "switch_steps (Suc k) s = do { s' \<leftarrow> switch_steps k s; switch_step s' }"
proof (induction k arbitrary: s)
  case 0
  show ?case by (cases "switch_step s") simp_all
next
  case (Suc k)
  show ?case using Suc.IH by (cases "switch_step s") simp_all
qed

text \<open>A whole round brings the first task back with its own registers.\<close>

lemma switch_round:
  assumes "run_ring s xs" and "tl xs \<noteq> []" and "get_current s = hd xs"
  shows "\<exists>s'. switch_steps (length xs) s = Some s' \<and> run_ring s' xs \<and> get_current s' = hd xs \<and>
    cpu_ctx s' = (cpu_ctx s)\<lparr>th_sstatus := sstatus s AND NOT SIE\<rparr>"
proof -
  obtain c zs where "xs = c # zs" "zs \<noteq> []" using assms(2) by (cases xs) auto
  then obtain ys n where xs: "xs = (c # ys) @ n # []" by (cases zs rule: rev_cases) auto
  have "run_ring s ((c # ys) @ n # [])" "get_current s = hd (c # ys)" using assms(1,3) by (simp_all add: xs)
  from switch_steps_ok [OF this(1) list.distinct(2) this(2)] obtain s1 tn tc where
    s1: "switch_steps (length (c # ys)) s = Some s1" "run_ring s1 (n # c # ys)" "get_current s1 = n"
    "task_structs s1 n = Some tn"
    "task_structs s1 c = Some (tc\<lparr>ts_thread := (cpu_ctx s)\<lparr>th_sstatus := sstatus s AND NOT SIE\<rparr>\<rparr>)"
    unfolding list.sel append_Nil by (elim exE conjE) (simp only: list.set_intros Ball_def append_Nil)
  define s2 where "s2 = s1\<lparr>run_queue := c, active_user_pgd := ts_pgd tc,
      satp := MAKE_SATP (virt_to_phys (ts_pgd tc)),
      task_structs := (task_structs s1)(n \<mapsto> tn\<lparr>ts_thread := (cpu_ctx s1)\<lparr>th_sstatus := sstatus s1 AND NOT SIE\<rparr>\<rparr>),
      cpu_ctx := (cpu_ctx s)\<lparr>th_sstatus := sstatus s AND NOT SIE\<rparr>, sstatus := sstatus s AND NOT SIE, tp := c\<rparr>"
  have "switch_step s1 = Some s2" "run_ring s2 (c # ys @ [n])"
    using switch_step_ok [OF s1(2,3,4,5), of s2] by (simp_all add: s2_def)
  moreover have "switch_steps (length xs) s = switch_step s1"
    using switch_steps_snoc [of "length (c # ys)" s] s1(1) by (simp add: xs del: switch_steps.simps)
  ultimately show ?thesis by (intro exI [of _ s2]) (simp add: xs s2_def get_current_def)
qed

lemma schedule_other:
  assumes "get_current s = c" and "c \<noteq> 0" and "run_queue s = n" and "n \<noteq> 0" and "n \<noteq> c"
    and "task_structs s c = Some tc" and "task_structs s n = Some tn"
  shows "schedule env s = do { st \<leftarrow> env (s\<lparr>active_user_pgd := ts_pgd tn, satp := MAKE_SATP (virt_to_phys (ts_pgd tn)),
      task_structs := (task_structs s)(c \<mapsto> tc\<lparr>ts_thread := (cpu_ctx s)\<lparr>th_sstatus := sstatus s AND NOT SIE\<rparr>\<rparr>),
      cpu_ctx := ts_thread tn, sstatus := th_sstatus (ts_thread tn), tp := n\<rparr>);
    Some (restore_sstatus (sstatus s) st) }"
  using assms by (simp add: schedule_def disable_and_save_sstatus_def get_current_def next_head_def
      switch_away_def switch_to_def update_task_def)

text \<open>No task in the run queue has exited.\<close>

definition sched_inv :: "kernel \<Rightarrow> u64 list \<Rightarrow> bool" where
  "sched_inv s xs \<longleftrightarrow> run_ring s xs \<and>
     (\<forall>x \<in> set xs. \<forall>t. task_structs s x = Some t \<longrightarrow> ts_state t \<noteq> THREAD_ZOMBIE)"

lemma same_tasks_state:
  assumes "same_tasks H H'" and "H' x = Some t'"
  obtains t where "H x = Some t" "ts_state t = ts_state t'" "unlinked t = unlinked t'"
proof -
  have "map_option unlinked (H x) = map_option unlinked (H' x)" using assms(1) by (simp add: same_tasks_def)
  then obtain t where "H x = Some t" "unlinked t = unlinked t'" unfolding assms(2) by auto
  then show ?thesis using that unlinked_fields(3) by blast
qed

text \<open>The first half of \<open>thread_exit\<close>: the current task moves to the front of the zombie queue.\<close>

lemma retire_ok:
  assumes rr: "run_ring s (c # n # zs)" and cur: "get_current s = c" and tc: "task_structs s c = Some tc"
  shows "\<exists>H tc'. retire s = Some ((put_text ''Thread exiting!\<newline>'' s)\<lparr>task_structs := H, run_queue := n, zombie_queue := c\<rparr>) \<and>
    ring H n (n # zs) \<and> H c = Some tc' \<and> ts_next tc' = zombie_queue s \<and>
    unlinked tc' = unlinked (tc\<lparr>ts_state := THREAD_ZOMBIE\<rparr>) \<and>
    (\<forall>p. p \<noteq> c \<longrightarrow> map_option unlinked (H p) = map_option unlinked (task_structs s p)) \<and>
    links_kept (set (c # n # zs)) (task_structs s) H"
proof -
  have r: "ring (task_structs s) c (c # n # zs)" "run_queue s = c" using rr by (auto simp: run_ring_def ring_def)
  then have nz: "c \<noteq> 0" "n \<noteq> c" "c \<notin> set zs" using ring_distinct [OF r(1)] by (auto simp: ring_def)
  define H0 where "H0 = (task_structs s)(c \<mapsto> tc\<lparr>ts_state := THREAD_ZOMBIE\<rparr>)"
  define st where "st = put_text ''Thread exiting!\<newline>'' s"
  have st: "task_structs st = task_structs s" "run_queue st = run_queue s" "zombie_queue st = zombie_queue s"
    "sstatus st = sstatus s" "tp st = tp s" by (simp_all add: st_def put_text_def put_bytes_def)
  define s0 where "s0 = st\<lparr>sstatus := sstatus s AND NOT SIE, task_structs := H0\<rparr>"
  have l0: "task_links H0 = task_links (task_structs s)" using tc by (auto simp: H0_def task_links_def fun_eq_iff)
  then have "run_ring s0 (c # n # zs)" using r by (auto simp: run_ring_def ring_def s0_def st H0_def)
  from dequeue_ok [OF this, of c] obtain H1 where
    H1: "dequeue c s0 = Some (s0\<lparr>task_structs := H1, run_queue := n\<rparr>)" "ring H1 n (n # zs)" "same_tasks H0 H1"
    "links_kept (set (c # n # zs)) H0 H1"
    by (auto simp: s0_def)
  have "H0 c = Some (tc\<lparr>ts_state := THREAD_ZOMBIE\<rparr>)" by (simp add: H0_def)
  from same_tasks_get [OF H1(3) this] obtain tc1 where
    tc1: "H1 c = Some tc1" "unlinked tc1 = unlinked (tc\<lparr>ts_state := THREAD_ZOMBIE\<rparr>)" .
  define H2 where "H2 = H1(c \<mapsto> tc1\<lparr>ts_next := zombie_queue s\<rparr>)"
  have l2: "task_links H2 = (task_links H1)\<lparr>lnext := (lnext (task_links H1))(c := zombie_queue s)\<rparr>"
    using tc1 by (auto simp: H2_def task_links_def fun_eq_iff)
  have r2: "ring H2 n (n # zs)"
  proof -
    have "dlist (task_links H1) n zs" using H1(2) by (simp add: ring_def)
    then have "dlist (task_links H2) n zs" by (rule dlist_frame) (use nz in \<open>auto simp: l2\<close>)
    then show ?thesis using H1(2) by (auto simp: ring_def H2_def)
  qed
  have b3: "restore_sstatus (sstatus s) (s0\<lparr>run_queue := n, task_structs := H2, zombie_queue := c\<rparr>)
      = st\<lparr>task_structs := H2, run_queue := n, zombie_queue := c\<rparr>"
    by (rule restore_bracket) (simp_all add: s0_def st)
  have "retire s = Some (st\<lparr>task_structs := H2, run_queue := n, zombie_queue := c\<rparr>)"
    unfolding retire_def
    using tc cur H1(1) tc1(1) b3
    by (simp add: st_def [symmetric] disable_and_save_sstatus_def get_current_def st update_task_def set_next_def
      s0_def [symmetric] H0_def [symmetric] H2_def [symmetric]) (simp add: s0_def H2_def st)
  moreover have "map_option unlinked (H2 p) = map_option unlinked (task_structs s p)" if "p \<noteq> c" for p
    using H1(3) that by (simp add: H2_def same_tasks_def H0_def)
  moreover have "links_kept (set (c # n # zs)) (task_structs s) H2"
    using H1(4) by (auto simp: links_kept_def l2 l0)
  ultimately show ?thesis
    using r2 tc1(2) by (intro exI [of _ H2] exI [of _ "tc1\<lparr>ts_next := zombie_queue s\<rparr>"])
      (auto simp: H2_def st_def unlinked_def)
qed

lemma thread_exit_ok:
  assumes inv: "sched_inv s (c # n # zs)" and cur: "get_current s = c"
  shows "\<exists>s1. thread_exit env s = do { st \<leftarrow> env s1; Some (restore_sstatus (sstatus s) st) } \<and>
    sched_inv s1 (n # zs) \<and> get_current s1 = n \<and> zombie_queue s1 = c \<and>
    (\<exists>tc. task_structs s1 c = Some tc \<and> ts_state tc = THREAD_ZOMBIE \<and> ts_next tc = zombie_queue s)"
proof -
  have rr: "run_ring s (c # n # zs)" using inv by (simp add: sched_inv_def)
  then have r: "ring (task_structs s) c (c # n # zs)" by (auto simp: run_ring_def ring_def)
  then have nz: "c \<noteq> 0" "n \<noteq> 0" "n \<noteq> c" "c \<notin> set zs" and dom: "c \<in> dom (task_structs s)"
    using ring_distinct [OF r] by (auto simp: ring_def)
  then obtain tc where tc: "task_structs s c = Some tc" by blast
  define st where "st = put_text ''Thread exiting!\<newline>'' s"
  have st: "sstatus st = sstatus s" "tp st = c"
    using cur by (simp_all add: st_def put_text_def put_bytes_def get_current_def)
  obtain H tc' where H: "retire s = Some (st\<lparr>task_structs := H, run_queue := n, zombie_queue := c\<rparr>)"
    "ring H n (n # zs)" "H c = Some tc'" "ts_next tc' = zombie_queue s"
    "unlinked tc' = unlinked (tc\<lparr>ts_state := THREAD_ZOMBIE\<rparr>)"
    "\<forall>p. p \<noteq> c \<longrightarrow> map_option unlinked (H p) = map_option unlinked (task_structs s p)"
    using retire_ok [OF rr cur tc] unfolding st_def by blast
  have z: "ts_state tc' = THREAD_ZOMBIE" using unlinked_fields(3) [OF H(5)] by simp
  obtain tn where tn: "H n = Some tn" using H(2) by (auto simp: ring_def)
  define s3 where "s3 = st\<lparr>task_structs := H, run_queue := n, zombie_queue := c\<rparr>"
  define s1 where "s1 = s3\<lparr>active_user_pgd := ts_pgd tn, satp := MAKE_SATP (virt_to_phys (ts_pgd tn)),
      task_structs := (task_structs s3)(c \<mapsto> tc'\<lparr>ts_thread := (cpu_ctx s3)\<lparr>th_sstatus := sstatus s3 AND NOT SIE\<rparr>\<rparr>),
      cpu_ctx := ts_thread tn, sstatus := th_sstatus (ts_thread tn), tp := n\<rparr>"
  have sc: "schedule env s3 = do { st \<leftarrow> env s1; Some (restore_sstatus (sstatus s3) st) }"
    unfolding s1_def using st nz tn H(3) by (intro schedule_other) (simp_all add: s3_def get_current_def)
  define v where "v = (cpu_ctx s3)\<lparr>th_sstatus := sstatus s3 AND NOT SIE\<rparr>"
  have ts1: "task_structs s1 = H(c \<mapsto> tc'\<lparr>ts_thread := v\<rparr>)" by (simp add: s1_def s3_def v_def)
  have rest: "run_queue s1 = n" "tp s1 = n" "zombie_queue s1 = c" by (simp_all add: s1_def s3_def)
  have "ring (task_structs s1) n (n # zs)"
    using H(2) unfolding ring_def ts1 task_links_thread [of H c tc', OF H(3)] by auto
  moreover have "ts_state t \<noteq> THREAD_ZOMBIE" if "x \<in> set (n # zs)" "task_structs s1 x = Some t" for x t
  proof -
    have x: "x \<noteq> c" using that(1) nz by auto
    then have "map_option unlinked (task_structs s x) = map_option unlinked (H x)" and "H x = Some t"
      using H(6) that(2) by (metis, simp add: ts1)
    then have "map_option unlinked (task_structs s x) = Some (unlinked t)" by (simp only: option.map)
    then obtain t0 where "task_structs s x = Some t0" "unlinked t0 = unlinked t" by auto
    then show ?thesis using inv that(1) unlinked_fields(3) unfolding sched_inv_def by (metis list.set_intros(2))
  qed
  ultimately have "sched_inv s1 (n # zs)" unfolding sched_inv_def run_ring_def rest by blast
  moreover have "thread_exit env s = do { st \<leftarrow> env s1; Some (restore_sstatus (sstatus s) st) }"
    using H(1) sc by (simp add: thread_exit_def s3_def [symmetric]) (simp add: s3_def st)
  ultimately show ?thesis using rest z H(4) by (intro exI [of _ s1]) (simp add: get_current_def ts1)
qed

subsection \<open>Properties\<close>

text \<open>C7: Round robin: from the head of a queue of at least two tasks, the k-th switch runs the
  k-th task of the queue, on its own page table and with the registers it was saved with, and a
  whole round returns to the first task with exactly its own registers; the queue is rotated and
  loses nobody.\<close>

theorem schedule_round_robin:
  assumes "run_ring s xs" and "2 \<le> length xs" and "get_current s = hd xs"
  shows "(\<forall>k. 0 < k \<and> k < length xs \<longrightarrow> (\<exists>s' t. switch_steps k s = Some s' \<and>
      get_current s' = xs ! k \<and> run_ring s' (drop k xs @ take k xs) \<and> task_structs s (xs ! k) = Some t \<and>
      cpu_ctx s' = ts_thread t \<and> satp s' = MAKE_SATP (virt_to_phys (ts_pgd t)))) \<and>
    (\<exists>s'. switch_steps (length xs) s = Some s' \<and> get_current s' = hd xs \<and> run_ring s' xs \<and>
      cpu_ctx s' = (cpu_ctx s)\<lparr>th_sstatus := sstatus s AND NOT SIE\<rparr>)"
proof (intro conjI allI impI)
  fix k
  assume k: "0 < k \<and> k < length xs"
  then have xs: "xs = take k xs @ xs ! k # drop (Suc k) xs" by (simp add: id_take_nth_drop)
  have "run_ring s (take k xs @ xs ! k # drop (Suc k) xs)" "take k xs \<noteq> []" "get_current s = hd (take k xs)"
    using assms k xs by auto
  from switch_steps_ok [OF this] k show "\<exists>s' t. switch_steps k s = Some s' \<and>
      get_current s' = xs ! k \<and> run_ring s' (drop k xs @ take k xs) \<and> task_structs s (xs ! k) = Some t \<and>
      cpu_ctx s' = ts_thread t \<and> satp s' = MAKE_SATP (virt_to_phys (ts_pgd t))"
    by (auto simp: Cons_nth_drop_Suc min_def simp flip: append_Cons)
next
  have "tl xs \<noteq> []" using assms(2) by (cases xs rule: list.exhaust; cases "tl xs") auto
  then show "\<exists>s'. switch_steps (length xs) s = Some s' \<and> get_current s' = hd xs \<and> run_ring s' xs \<and>
      cpu_ctx s' = (cpu_ctx s)\<lparr>th_sstatus := sstatus s AND NOT SIE\<rparr>"
    using switch_round [OF assms(1) _ assms(3)] by blast
qed

text \<open>Two runnable tasks, the first of them running.\<close>

definition two_tasks :: kernel where
  "two_tasks = blank_kernel\<lparr>tp := 0x1000, run_queue := 0x1000,
     task_structs := [0x1000 \<mapsto> zero_task\<lparr>ts_pid := 1, ts_next := 0x2000, ts_prev := 0x2000\<rparr>,
       0x2000 \<mapsto> zero_task\<lparr>ts_pid := 2, ts_next := 0x1000, ts_prev := 0x1000\<rparr>]\<rparr>"

lemma two_tasks_ring: "run_ring two_tasks [0x1000, 0x2000]" "get_current two_tasks = 0x1000"
  by (auto simp: two_tasks_def run_ring_def ring_def dlist_def task_links_def get_current_def)

lemma two_tasks_inv: "sched_inv two_tasks [0x1000, 0x2000]"
  using two_tasks_ring(1) by (auto simp: sched_inv_def two_tasks_def zero_task_def)

lemma schedule_round_robin_witness:
  "\<exists>s'. switch_steps 2 two_tasks = Some s' \<and> get_current s' = 0x1000 \<and> run_ring s' [0x1000, 0x2000]"
  using schedule_round_robin [OF two_tasks_ring(1)] two_tasks_ring(2) by (auto simp: numeral_2_eq_2 simp del: switch_steps.simps)

text \<open>C14: Exit: the current task, when others are runnable, becomes a zombie at the front of the
  zombie queue and leaves the run queue, the next task runs, and no task in the run queue is a
  zombie.  Control comes back to the caller only if the environment runs the zombie again.\<close>

theorem thread_exit_invariant:
  assumes "sched_inv s (c # n # zs)" and "get_current s = c"
  shows "\<exists>s1. thread_exit env s = do { st \<leftarrow> env s1; Some (restore_sstatus (sstatus s) st) } \<and>
    sched_inv s1 (n # zs) \<and> c \<notin> set (n # zs) \<and> get_current s1 = n \<and> zombie_queue s1 = c \<and>
    (\<exists>tc. task_structs s1 c = Some tc \<and> ts_state tc = THREAD_ZOMBIE \<and> ts_next tc = zombie_queue s)"
proof -
  have "distinct (c # n # zs)" using assms(1) ring_distinct unfolding sched_inv_def run_ring_def by blast
  then show ?thesis using thread_exit_ok [OF assms, of env] by auto
qed

lemma thread_exit_invariant_witness:
  "\<exists>s1. thread_exit (\<lambda>_. None) two_tasks = None \<and> sched_inv s1 [0x2000] \<and> zombie_queue s1 = 0x1000"
  using thread_exit_invariant [OF two_tasks_inv two_tasks_ring(2), of "\<lambda>_. None"] by auto

text \<open>The last task cannot leave the run queue: \<open>dequeue\<close> of the only element leaves
  \<open>run_queue\<close> pointing to it, with a null \<open>next\<close>.\<close>

theorem dequeue_only_task:
  assumes "run_ring s [t]"
  shows "\<exists>s' h. dequeue t s = Some s' \<and> run_queue s' = t \<and> task_structs s' t = Some h \<and> ts_next h = 0 \<and>
    (\<forall>xs. \<not> run_ring s' xs)"
proof -
  obtain H where H: "dequeue t s = Some (s\<lparr>task_structs := H, run_queue := t\<rparr>)" "lnext (task_links H) t = 0"
    "same_tasks (task_structs s) H" using dequeue_last [OF assms] by blast
  have "t \<in> dom H" using same_tasks_dom [OF H(3)] assms by (auto simp: run_ring_def ring_def)
  then obtain h where h: "H t = Some h" "ts_next h = 0" using H(2) by (auto simp: task_links_def)
  have t: "t \<noteq> 0" using assms by (auto simp: run_ring_def ring_def)
  have "\<not> ring H t xs" for xs
  proof
    assume r: "ring H t xs"
    then obtain ys where xs: "xs = t # ys" using t by (cases xs) (auto simp: ring_def)
    then have "lnext (task_links H) t = hd (ys @ [t])" using r chain_first [of "task_links H" t ys t]
      by (simp add: ring_def dlist_def)
    then have "0 \<in> set xs" using H(2) xs by (cases ys) auto
    then show False using r by (simp add: ring_def)
  qed
  then show ?thesis using H(1) h by (intro exI conjI) (auto simp: run_ring_def)
qed

lemma dequeue_only_task_witness:
  "\<exists>s' h. dequeue 0x1000 (blank_kernel\<lparr>run_queue := 0x1000,
      task_structs := [0x1000 \<mapsto> zero_task\<lparr>ts_next := 0x1000, ts_prev := 0x1000\<rparr>]\<rparr>) = Some s' \<and>
    run_queue s' = 0x1000 \<and> task_structs s' 0x1000 = Some h \<and> ts_next h = 0"
proof -
  have "run_ring (blank_kernel\<lparr>run_queue := 0x1000,
      task_structs := [0x1000 \<mapsto> zero_task\<lparr>ts_next := 0x1000, ts_prev := 0x1000\<rparr>]\<rparr>) [0x1000]"
    by (simp add: run_ring_def ring_def dlist_def task_links_def)
  from dequeue_only_task [OF this] show ?thesis by blast
qed

end
