(* ===== verification/Paging.thy ===== *)
theory Paging
  imports Sched
begin

text \<open>
  src/lab7/src/paging.c: the Sv39 page tables as words of the byte memory, the reference counts
  of the physical pages, copy-on-write fork, and the page fault handler.

  A page-table entry is the 64-bit word at \<open>entry_addr table index\<close>; tables and pages are
  reached through the linear map of the kernel (\<open>phys_to_virt\<close>).  \<open>setup_vm\<close> and
  \<open>drop_identity_map\<close> run before the kernel state exists and are functions on the byte memory;
  the addresses of the static tables are their parameter.

  The lemmas about these operations are in Page_Tables (the tree of tables as a map from addresses
  to leaf entries) and Page_Faults (the fault handler).
\<close>

subsection \<open>Constants (paging.h)\<close>

definition PAGE_SIZE :: u64 where "PAGE_SIZE = push_bit 12 1"
definition PMD_SIZE :: u64 where "PMD_SIZE = push_bit 21 1"
definition PGD_SIZE :: u64 where "PGD_SIZE = push_bit 30 1"
definition ENTRIES_PER_TABLE :: nat where "ENTRIES_PER_TABLE = 512"
definition RAM_START :: "bool \<Rightarrow> u64" where "RAM_START dbg = (if dbg then 0x80000000 else 0)"
definition KERNEL_PGD_INDEX :: nat where "KERNEL_PGD_INDEX = unat (drop_bit 30 PAGE_OFFSET AND 0x1FF)"
definition LINEAR_MAP_GIB :: "bool \<Rightarrow> nat" where "LINEAR_MAP_GIB dbg = (if dbg then 1 else 2)"
definition NUM_PAGES :: "bool \<Rightarrow> nat" where "NUM_PAGES dbg = (if dbg then 0x40000 else 0x80000)"

definition PTE_V :: u64 where "PTE_V = 1"
definition PTE_R :: u64 where "PTE_R = 2"
definition PTE_W :: u64 where "PTE_W = 4"
definition PTE_X :: u64 where "PTE_X = 8"
definition PTE_U :: u64 where "PTE_U = 16"
definition PTE_G :: u64 where "PTE_G = 32"
definition PTE_A :: u64 where "PTE_A = 64"
definition PTE_D :: u64 where "PTE_D = 128"
definition PTE_COW :: u64 where "PTE_COW = 256"

definition PROT_KERNEL :: u64 where
  "PROT_KERNEL = PTE_V OR PTE_R OR PTE_W OR PTE_X OR PTE_G OR PTE_A OR PTE_D"
definition PROT_KERNEL_RW :: u64 where
  "PROT_KERNEL_RW = PTE_V OR PTE_R OR PTE_W OR PTE_G OR PTE_A OR PTE_D"
definition PROT_USER_BASE :: u64 where "PROT_USER_BASE = PTE_V OR PTE_U OR PTE_A OR PTE_D"
definition PROT_USER_RX :: u64 where "PROT_USER_RX = PROT_USER_BASE OR PTE_R OR PTE_X"
definition PROT_USER_RW :: u64 where "PROT_USER_RW = PROT_USER_BASE OR PTE_R OR PTE_W"

definition MAKE_PTE :: "u64 \<Rightarrow> u64 \<Rightarrow> u64" where
  "MAKE_PTE pa flags = push_bit 10 (drop_bit 12 pa) OR flags"

datatype PTE_FUNC = CHECK_COW | GET_PA | GET_PROT

subsection \<open>Entries and tables\<close>

definition vpn2 :: "u64 \<Rightarrow> nat" where "vpn2 va = unat (drop_bit 30 va AND 0x1FF)"
definition vpn1 :: "u64 \<Rightarrow> nat" where "vpn1 va = unat (drop_bit 21 va AND 0x1FF)"
definition vpn0 :: "u64 \<Rightarrow> nat" where "vpn0 va = unat (drop_bit 12 va AND 0x1FF)"

definition entry_addr :: "u64 \<Rightarrow> nat \<Rightarrow> u64" where "entry_addr t i = t + of_nat (8 * i)"

definition pte_get :: "bytes \<Rightarrow> u64 \<Rightarrow> nat \<Rightarrow> u64" where "pte_get m t i = load64 m (entry_addr t i)"

definition pte_set :: "u64 \<Rightarrow> nat \<Rightarrow> u64 \<Rightarrow> 'a machine_scheme \<Rightarrow> 'a machine_scheme" where
  "pte_set t i v s = s\<lparr>mem := store64 (entry_addr t i) v (mem s)\<rparr>"

text \<open>\<open>entry & PTE_V\<close>, and the physical page of an entry.\<close>

definition valid :: "u64 \<Rightarrow> bool" where "valid e \<longleftrightarrow> e AND PTE_V \<noteq> 0"

definition pte_pa :: "u64 \<Rightarrow> u64" where "pte_pa e = push_bit 12 (drop_bit 10 e)"

definition next_table :: "u64 \<Rightarrow> u64" where "next_table e = phys_to_virt (pte_pa e)"

definition zero_page :: "u64 \<Rightarrow> 'a machine_scheme \<Rightarrow> 'a machine_scheme" where
  "zero_page p s = s\<lparr>mem := memzero p 4096 (mem s)\<rparr>"

text \<open>\<open>allocate(PAGE_SIZE)\<close> and \<open>memzero\<close>: a null page is written to, which is undefined.\<close>

definition new_page :: "kernel \<Rightarrow> (u64 \<times> kernel) option" where
  "new_page s = do { (p, s1) \<leftarrow> allocate PAGE_SIZE s; if p = 0 then None else Some (p, zero_page p s1) }"

subsection \<open>Reference counts\<close>

definition page_idx :: "bool \<Rightarrow> u64 \<Rightarrow> nat" where "page_idx dbg pa = unat (drop_bit 12 (pa - RAM_START dbg))"

definition increment_page_ref :: "u64 \<Rightarrow> kernel \<Rightarrow> kernel" where
  "increment_page_ref pa s =
     (let i = page_idx (debug s) pa
      in if i < NUM_PAGES (debug s)
         then s\<lparr>page_ref_counts := (page_ref_counts s)(i := page_ref_counts s i + 1)\<rparr> else s)"

definition decrement_page_ref :: "u64 \<Rightarrow> kernel \<Rightarrow> nat \<times> kernel" where
  "decrement_page_ref pa s =
     (let i = page_idx (debug s) pa
      in if i < NUM_PAGES (debug s)
         then let s1 = (if page_ref_counts s i > 0
                        then s\<lparr>page_ref_counts := (page_ref_counts s)(i := page_ref_counts s i - 1)\<rparr> else s)
              in (unat (page_ref_counts s1 i), s1)
         else (0, s))"

definition set_page_ref_init :: "u64 \<Rightarrow> kernel \<Rightarrow> kernel" where
  "set_page_ref_init pa s =
     (let i = page_idx (debug s) pa
      in if i < NUM_PAGES (debug s) then s\<lparr>page_ref_counts := (page_ref_counts s)(i := 1)\<rparr> else s)"

subsection \<open>The tables of the kernel\<close>

definition PLIC_BASE :: "bool \<Rightarrow> u64" where
  "PLIC_BASE dbg = (if dbg then 0xffffffc00c000000 else 0xffffffc0e0000000)"

definition UART_BASE :: "bool \<Rightarrow> u64" where
  "UART_BASE dbg = (if dbg then 0xffffffc010000000 else 0xffffffc0D4017000)"

record static_tables =
  st_kernel_pgd :: u64
  st_kernel_pmd :: "nat \<Rightarrow> u64"
  st_mmio_pmd :: u64
  st_uart_pte :: u64
  st_plic_pte_low :: u64
  st_plic_pte_high :: u64

definition put_pte :: "u64 \<Rightarrow> nat \<Rightarrow> u64 \<Rightarrow> bytes \<Rightarrow> bytes" where
  "put_pte t i v m = store64 (entry_addr t i) v m"

definition bits9 :: "nat \<Rightarrow> u64 \<Rightarrow> nat" where "bits9 k a = unat (drop_bit k a AND 0x1FF)"

text \<open>\<open>for (int k = 0; k < ENTRIES_PER_TABLE; k++)\<close> filling one table with consecutive frames.\<close>

definition fill_table :: "u64 \<Rightarrow> u64 \<Rightarrow> u64 \<Rightarrow> u64 \<Rightarrow> bytes \<Rightarrow> bytes" where
  "fill_table t pa step prot m =
     fold (\<lambda>k. put_pte t k (MAKE_PTE (pa + of_nat k * step) prot)) [0..<ENTRIES_PER_TABLE] m"

definition map_mmio :: "bool \<Rightarrow> static_tables \<Rightarrow> bytes \<Rightarrow> bytes" where
  "map_mmio dbg st m0 =
     (let fw_cfg_base = 0xffffffc010100000;
          m1 = put_pte (st_kernel_pgd st) (if dbg then KERNEL_PGD_INDEX else KERNEL_PGD_INDEX + 3)
                 (MAKE_PTE (st_mmio_pmd st) PTE_V) m0;
          m2 = put_pte (st_mmio_pmd st) (bits9 21 (PLIC_BASE dbg)) (MAKE_PTE (st_plic_pte_low st) PTE_V) m1;
          m3 = put_pte (st_mmio_pmd st) (bits9 21 (PLIC_BASE dbg + PMD_SIZE)) (MAKE_PTE (st_plic_pte_high st) PTE_V) m2;
          m4 = put_pte (st_mmio_pmd st) (bits9 21 (UART_BASE dbg)) (MAKE_PTE (st_uart_pte st) PTE_V) m3;
          m5 = put_pte (st_uart_pte st) (bits9 12 (UART_BASE dbg)) (MAKE_PTE (virt_to_phys (UART_BASE dbg)) PROT_KERNEL_RW) m4;
          m6 = (if dbg then put_pte (st_uart_pte st) (bits9 12 fw_cfg_base) (MAKE_PTE (virt_to_phys fw_cfg_base) PROT_KERNEL_RW) m5
                else m5);
          m7 = fill_table (st_plic_pte_low st) (virt_to_phys (PLIC_BASE dbg)) PAGE_SIZE PROT_KERNEL_RW m6
      in fill_table (st_plic_pte_high st) (virt_to_phys (PLIC_BASE dbg + PMD_SIZE)) PAGE_SIZE PROT_KERNEL_RW m7)"

definition map_ram :: "bool \<Rightarrow> static_tables \<Rightarrow> nat \<Rightarrow> bytes \<Rightarrow> bytes" where
  "map_ram dbg st i m =
     (let pa = RAM_START dbg + of_nat i * PGD_SIZE;
          identity_idx = unat (drop_bit 30 pa);
          kernel_idx = KERNEL_PGD_INDEX + identity_idx;
          m1 = put_pte (st_kernel_pgd st) identity_idx (MAKE_PTE (st_kernel_pmd st i) PTE_V) m;
          m2 = put_pte (st_kernel_pgd st) kernel_idx (MAKE_PTE (st_kernel_pmd st i) PTE_V) m1
      in fill_table (st_kernel_pmd st i) pa PMD_SIZE PROT_KERNEL m2)"

definition setup_vm :: "bool \<Rightarrow> static_tables \<Rightarrow> bytes \<Rightarrow> u64 \<times> bytes" where
  "setup_vm dbg st m =
     (MAKE_SATP (st_kernel_pgd st), fold (map_ram dbg st) [0..<LINEAR_MAP_GIB dbg] (map_mmio dbg st m))"

definition drop_identity_map :: "bool \<Rightarrow> u64 \<Rightarrow> bytes \<Rightarrow> bytes" where
  "drop_identity_map dbg pgd m =
     fold (\<lambda>i. put_pte pgd (unat (drop_bit 30 (RAM_START dbg + of_nat i * PGD_SIZE))) 0) [0..<LINEAR_MAP_GIB dbg] m"

subsection \<open>Mapping\<close>

text \<open>\<open>if (!(table[i] & PTE_V))\<close>: hang a fresh table under the entry; then its address.\<close>

definition ensure_table :: "u64 \<Rightarrow> nat \<Rightarrow> kernel \<Rightarrow> (u64 \<times> kernel) option" where
  "ensure_table t i s = do {
     s1 \<leftarrow> (if valid (pte_get (mem s) t i) then Some s
            else do { (p, s') \<leftarrow> new_page s; Some (pte_set t i (MAKE_PTE (virt_to_phys p) PTE_V) s') });
     Some (next_table (pte_get (mem s1) t i), s1)
   }"

definition pagewalk :: "u64 \<Rightarrow> u64 \<Rightarrow> u64 \<Rightarrow> kernel \<Rightarrow> kernel option" where
  "pagewalk va pa prot s = do {
     let pgd = (if PAGE_OFFSET \<le> va then kernel_pgd s else active_user_pgd s);
     (pmd, s1) \<leftarrow> ensure_table pgd (vpn2 va) s;
     (pte, s2) \<leftarrow> ensure_table pmd (vpn1 va) s1;
     Some (pte_set pte (vpn0 va) (MAKE_PTE pa (prot OR PTE_V)) s2)
   }"

partial_function (option) map_loop :: "u64 \<Rightarrow> u64 \<Rightarrow> u64 \<Rightarrow> u64 \<Rightarrow> u64 \<Rightarrow> kernel \<Rightarrow> kernel option" where
  "map_loop va sz pa prot i s =
     (if i < sz then
        Option.bind (pagewalk (va + i) (pa + i) prot s) (\<lambda>s'. map_loop va sz pa prot (i + PAGE_SIZE) s')
      else Some s)"

definition map_pages :: "u64 \<Rightarrow> u64 \<Rightarrow> u64 \<Rightarrow> u64 \<Rightarrow> kernel \<Rightarrow> kernel option" where
  "map_pages va sz pa prot s = map_loop va sz pa prot 0 s"

definition iterate_page_table :: "bytes \<Rightarrow> u64 \<Rightarrow> u64 \<Rightarrow> PTE_FUNC \<Rightarrow> u64" where
  "iterate_page_table m pgd va func =
     (if \<not> valid (pte_get m pgd (vpn2 va)) then 0
      else let pmd = next_table (pte_get m pgd (vpn2 va))
      in if \<not> valid (pte_get m pmd (vpn1 va)) then 0
      else let pte = next_table (pte_get m pmd (vpn1 va)); e = pte_get m pte (vpn0 va)
      in if \<not> valid e then 0
      else (case func of
          CHECK_COW \<Rightarrow> if e AND PTE_COW \<noteq> 0 then 1 else 0
        | GET_PA \<Rightarrow> pte_pa e
        | GET_PROT \<Rightarrow> (e AND 0x3FF) AND NOT PTE_COW))"

subsection \<open>Releasing the tables of a task\<close>

definition release_page :: "u64 \<Rightarrow> nat \<Rightarrow> kernel \<Rightarrow> kernel option" where
  "release_page pte k s =
     (let e = pte_get (mem s) pte k
      in if valid e then
           (case decrement_page_ref (pte_pa e) s of (remaining, s1) \<Rightarrow> do {
              s2 \<leftarrow> (if remaining = 0 then kfree (phys_to_virt (pte_pa e)) s1 else Some s1);
              Some (pte_set pte k 0 s2)
            })
         else Some s)"

definition release_pte :: "u64 \<Rightarrow> nat \<Rightarrow> kernel \<Rightarrow> kernel option" where
  "release_pte pmd j s =
     (let e = pte_get (mem s) pmd j
      in if valid e then do { s1 \<leftarrow> for_each (release_page (next_table e)) [0..<512] s; kfree (next_table e) s1 }
         else Some s)"

definition release_pmd :: "u64 \<Rightarrow> nat \<Rightarrow> kernel \<Rightarrow> kernel option" where
  "release_pmd pgd i s =
     (let e = pte_get (mem s) pgd i
      in if valid e then do { s1 \<leftarrow> for_each (release_pte (next_table e)) [0..<512] s; kfree (next_table e) s1 }
         else Some s)"

definition free_user_page_table :: "u64 \<Rightarrow> kernel \<Rightarrow> kernel option" where
  "free_user_page_table pgd s =
     (if pgd = 0 then Some s
      else do { s1 \<leftarrow> for_each (release_pmd pgd) [0..<256] s; kfree pgd s1 })"

definition clear_user_space_mappings :: "u64 \<Rightarrow> kernel \<Rightarrow> kernel option" where
  "clear_user_space_mappings pgd s =
     (if pgd = 0 then Some s
      else for_each (\<lambda>i s. if valid (pte_get (mem s) pgd i)
          then do { s1 \<leftarrow> release_pmd pgd i s; Some (pte_set pgd i 0 s1) } else Some s) [0..<256] s)"

subsection \<open>Copy-on-write fork\<close>

definition cow_entry :: "u64 \<Rightarrow> u64" where
  "cow_entry e = (if e AND PTE_W \<noteq> 0 then (e AND NOT PTE_W) OR PTE_COW else e)"

definition copy_page :: "u64 \<Rightarrow> u64 \<Rightarrow> nat \<Rightarrow> kernel \<Rightarrow> kernel option" where
  "copy_page dst_pte src_pte k s =
     (let e = pte_get (mem s) src_pte k
      in if valid e then
           let s1 = (if e AND PTE_W \<noteq> 0 then pte_set src_pte k (cow_entry e) s else s);
               s2 = increment_page_ref (pte_pa (cow_entry e)) s1
           in Some (pte_set dst_pte k (cow_entry e) s2)
         else Some s)"

definition copy_pte :: "u64 \<Rightarrow> u64 \<Rightarrow> nat \<Rightarrow> kernel \<Rightarrow> kernel option" where
  "copy_pte dst_pmd src_pmd j s =
     (if valid (pte_get (mem s) src_pmd j) then do {
        (dst, s1) \<leftarrow> ensure_table dst_pmd j s;
        for_each (copy_page dst (next_table (pte_get (mem s1) src_pmd j))) [0..<512] s1
      } else Some s)"

definition copy_pmd :: "u64 \<Rightarrow> u64 \<Rightarrow> nat \<Rightarrow> kernel \<Rightarrow> kernel option" where
  "copy_pmd dst_pgd src_pgd i s =
     (if valid (pte_get (mem s) src_pgd i) then do {
        (dst, s1) \<leftarrow> ensure_table dst_pgd i s;
        for_each (copy_pte dst (next_table (pte_get (mem s1) src_pgd i))) [0..<512] s1
      } else Some s)"

definition fork_copy_page_table_cow :: "u64 \<Rightarrow> u64 \<Rightarrow> kernel \<Rightarrow> kernel option" where
  "fork_copy_page_table_cow dst_pgd src_pgd s = for_each (copy_pmd dst_pgd src_pgd) [0..<256] s"

subsection \<open>The page fault handler\<close>

text \<open>The physical page of a demand fault, zeroed, with one reference.\<close>

definition fresh_frame :: "kernel \<Rightarrow> (u64 \<times> kernel) option" where
  "fresh_frame s = do { (p, s1) \<leftarrow> new_page s; Some (p, set_page_ref_init (virt_to_phys p) s1) }"

definition map_current :: "u64 \<Rightarrow> u64 \<Rightarrow> u64 \<Rightarrow> u64 \<Rightarrow> kernel \<Rightarrow> kernel option" where
  "map_current pgd page_va pa prot s = map_pages page_va PAGE_SIZE pa prot (s\<lparr>active_user_pgd := pgd\<rparr>)"

definition cow_fault :: "u64 \<Rightarrow> u64 \<Rightarrow> kernel \<Rightarrow> kernel option" where
  "cow_fault pgd fault_addr s = do {
     s0 \<leftarrow> uart_printf ''[Permission fault]: %x\<newline>'' [W fault_addr] s;
     (p, s1) \<leftarrow> fresh_frame s0;
     let old_pa = iterate_page_table (mem s1) pgd fault_addr GET_PA;
     let s2 = s1\<lparr>mem := memcpy p (phys_to_virt old_pa) 4096 (mem s1)\<rparr>;
     let updated_prot = iterate_page_table (mem s2) pgd fault_addr GET_PROT OR PTE_W;
     s3 \<leftarrow> map_current pgd (fault_addr AND NOT 4095) (virt_to_phys p) updated_prot s2;
     let (remaining, s4) = decrement_page_ref old_pa s3;
     if remaining = 0 then kfree (phys_to_virt old_pa) s4 else Some s4
   }"

text \<open>The area that holds the address: the first in the order of registration.\<close>

definition find_vma :: "task_struct \<Rightarrow> u64 \<Rightarrow> vm_area option" where
  "find_vma t addr = List.find (\<lambda>v. vm_start v \<le> addr \<and> addr < vm_end v) (take (ts_vma_count t) (ts_vmas t))"

definition access_denied :: "u64 \<Rightarrow> u32 \<Rightarrow> bool" where
  "access_denied scause prot \<longleftrightarrow>
     (scause = 15 \<and> prot AND 2 = 0) \<or> (scause = 13 \<and> prot AND 1 = 0) \<or> (scause = 12 \<and> prot AND 4 = 0)"

definition vma_page_prot :: "u32 \<Rightarrow> u64" where
  "vma_page_prot prot =
     (let p0 = PROT_USER_BASE;
          p1 = (if prot AND 1 \<noteq> 0 then p0 OR PTE_R else p0);
          p2 = (if prot AND 2 \<noteq> 0 then (p1 OR PTE_W) OR PTE_R else p1)
      in if prot AND 4 \<noteq> 0 then p2 OR PTE_X else p2)"

definition vma_fault :: "u64 \<Rightarrow> u32 \<Rightarrow> u64 \<Rightarrow> kernel \<Rightarrow> kernel option" where
  "vma_fault pgd prot fault_addr s = do {
     s0 \<leftarrow> uart_printf ''[Mmap Translation fault]: %x\<newline>'' [W fault_addr] s;
     (p, s1) \<leftarrow> fresh_frame s0;
     map_current pgd (fault_addr AND NOT 4095) (virt_to_phys p) (vma_page_prot prot) s1
   }"

definition USER_STACK :: u64 where "USER_STACK = 0x3fffffc000"

text \<open>\<open>allocate\<close> and the out-of-memory exit of the two remaining cases.  When the exit comes back,
  the null page is written to.\<close>

definition frame_or_exit :: "(kernel \<Rightarrow> kernel option) \<Rightarrow> string \<Rightarrow> kernel \<Rightarrow> (u64 \<times> kernel) option" where
  "frame_or_exit env msg s = do {
     (p, s1) \<leftarrow> allocate PAGE_SIZE s;
     if p = 0 then do { s2 \<leftarrow> thread_exit env (put_text msg s1); None }
     else Some (p, set_page_ref_init (virt_to_phys p) (zero_page p s1))
   }"

definition stack_fault :: "(kernel \<Rightarrow> kernel option) \<Rightarrow> u64 \<Rightarrow> u64 \<Rightarrow> kernel \<Rightarrow> kernel option" where
  "stack_fault env pgd fault_addr s = do {
     s0 \<leftarrow> uart_printf ''[Stack Translation fault]: %x\<newline>'' [W fault_addr] s;
     (p, s1) \<leftarrow> frame_or_exit env ''[Stack Error]: Out of memory!\<newline>'' s0;
     map_current pgd (fault_addr AND NOT 4095) (virt_to_phys p) PROT_USER_RW s1
   }"

definition code_fault :: "(kernel \<Rightarrow> kernel option) \<Rightarrow> task_struct \<Rightarrow> u64 \<Rightarrow> kernel \<Rightarrow> kernel option" where
  "code_fault env t fault_addr s = do {
     let page_va = fault_addr AND NOT 4095;
     s0 \<leftarrow> uart_printf ''[Code Translation fault]: %x\<newline>'' [W fault_addr] s;
     (p, s1) \<leftarrow> frame_or_exit env ''[Code Error]: Out of memory!\<newline>'' s0;
     let count = min (ts_code_size t - page_va) PAGE_SIZE;
     let s2 = s1\<lparr>mem := memcpy p (phys_to_virt (ts_code_pa t) + page_va) (unat count) (mem s1)\<rparr>;
     map_current (ts_pgd t) page_va (virt_to_phys p) PROT_USER_RX s2
   }"

definition region_fault :: "(kernel \<Rightarrow> kernel option) \<Rightarrow> task_struct \<Rightarrow> u64 \<Rightarrow> kernel \<Rightarrow> kernel option" where
  "region_fault env t fault_addr s =
     (if USER_STACK \<le> fault_addr \<and> fault_addr < USER_STACK + STACK_SIZE then stack_fault env (ts_pgd t) fault_addr s
      else if fault_addr < ts_code_size t then code_fault env t fault_addr s
      else thread_exit env (put_text ''[Segmentation fault]: Kill Process\<newline>'' s))"

definition page_fault_handler :: "(kernel \<Rightarrow> kernel option) \<Rightarrow> u64 \<Rightarrow> kernel \<Rightarrow> kernel option" where
  "page_fault_handler env scause s = do {
     t \<leftarrow> task_structs s (get_current s);
     let fault_addr = stval s;
     if scause = 15 \<and> iterate_page_table (mem s) (ts_pgd t) fault_addr CHECK_COW \<noteq> 0
     then cow_fault (ts_pgd t) fault_addr s
     else (case find_vma t fault_addr of
         None \<Rightarrow> region_fault env t fault_addr s
       | Some v \<Rightarrow>
           if access_denied scause (vm_prot v) then region_fault env t fault_addr s
           else vma_fault (ts_pgd t) (vm_prot v) fault_addr s)
   }"

end
