(* ===== verification/User_Access.thy ===== *)
theory User_Access
  imports Paging
begin

text \<open>
  How the kernel reaches memory through a user pointer, and \<open>uart_getc\<close> of src/lab7/src/uart.c in a
  kernel thread.

  A kernel address is read and written through the linear map.  A user address goes through the
  tables of \<open>satp\<close> as the hart walks them; when the walk finds no entry with the permission, the
  hart traps, \<open>do_trap\<close> calls the page fault handler with the address in \<open>stval\<close> and the cause 13
  (load) or 15 (store), and the access is tried again.  The system calls run with the SUM bit
  set, so user pages are accessible to the kernel.
\<close>

definition satp_table :: "kernel \<Rightarrow> u64" where
  "satp_table s = phys_to_virt (push_bit 12 (satp s AND mask 44))"

text \<open>The leaf entry of a user address.\<close>

definition leaf_entry :: "bytes \<Rightarrow> u64 \<Rightarrow> u64 \<Rightarrow> u64 option" where
  "leaf_entry m pgd va =
     (let e2 = pte_get m pgd (vpn2 va); e1 = pte_get m (next_table e2) (vpn1 va);
          e0 = pte_get m (next_table e1) (vpn0 va)
      in if valid e2 \<and> valid e1 \<and> valid e0 then Some e0 else None)"

definition user_translate :: "u64 \<Rightarrow> u64 \<Rightarrow> kernel \<Rightarrow> u64 option" where
  "user_translate perm va s =
     (case leaf_entry (mem s) (satp_table s) va of
        None \<Rightarrow> None
      | Some e \<Rightarrow> if e AND perm \<noteq> 0 \<and> e AND PTE_U \<noteq> 0 then Some (phys_to_virt (pte_pa e) + (va AND 4095)) else None)"

partial_function (option) load_byte ::
    "(kernel \<Rightarrow> kernel option) \<Rightarrow> u64 \<Rightarrow> kernel \<Rightarrow> (u8 \<times> kernel) option" where
  "load_byte env va s =
     (if PAGE_OFFSET \<le> va then Some (mem s va, s)
      else (case user_translate PTE_R va s of
          Some a \<Rightarrow> Some (mem s a, s)
        | None \<Rightarrow> Option.bind (page_fault_handler env 13 (s\<lparr>stval := va\<rparr>)) (load_byte env va)))"

partial_function (option) store_byte ::
    "(kernel \<Rightarrow> kernel option) \<Rightarrow> u64 \<Rightarrow> u8 \<Rightarrow> kernel \<Rightarrow> kernel option" where
  "store_byte env va b s =
     (if PAGE_OFFSET \<le> va then Some (s\<lparr>mem := (mem s)(va := b)\<rparr>)
      else (case user_translate PTE_W va s of
          Some a \<Rightarrow> Some (s\<lparr>mem := (mem s)(a := b)\<rparr>)
        | None \<Rightarrow> Option.bind (page_fault_handler env 15 (s\<lparr>stval := va\<rparr>)) (store_byte env va b)))"

text \<open>\<open>memcpy\<close> when one of the two pointers may be a user address.\<close>

fun user_memcpy :: "(kernel \<Rightarrow> kernel option) \<Rightarrow> u64 \<Rightarrow> u64 \<Rightarrow> nat \<Rightarrow> kernel \<Rightarrow> kernel option" where
  "user_memcpy env d p 0 s = Some s"
| "user_memcpy env d p (Suc n) s = do {
     (b, s1) \<leftarrow> load_byte env p s;
     s2 \<leftarrow> store_byte env d b s1;
     user_memcpy env (d + 1) (p + 1) n s2
   }"

fun store_bytes :: "(kernel \<Rightarrow> kernel option) \<Rightarrow> u64 \<Rightarrow> u8 list \<Rightarrow> kernel \<Rightarrow> kernel option" where
  "store_bytes env d [] s = Some s"
| "store_bytes env d (b # bs) s = do { s1 \<leftarrow> store_byte env d b s; store_bytes env (d + 1) bs s1 }"

text \<open>The string behind a user pointer, and a reader for it.  The system calls read a path once,
  before they work with it.\<close>

partial_function (option) load_string ::
    "(kernel \<Rightarrow> kernel option) \<Rightarrow> u64 \<Rightarrow> kernel \<Rightarrow> (u8 list \<times> kernel) option" where
  "load_string env p s =
     Option.bind (load_byte env p s) (\<lambda>(b, s1).
       if b = 0 then Some ([], s1)
       else Option.bind (load_string env (p + 1) s1) (\<lambda>(bs, s2). Some (b # bs, s2)))"

definition reader :: "u8 list \<Rightarrow> cptr" where
  "reader bs = (\<lambda>i. if i < length bs then bs ! i else 0)"

subsection \<open>The console\<close>

partial_function (option) uart_getc :: "(kernel \<Rightarrow> kernel option) \<Rightarrow> kernel \<Rightarrow> (u8 \<times> kernel) option" where
  "uart_getc env s0 =
     (case disable_and_save_sstatus s0 of (v, s) \<Rightarrow>
        (case input s of
           c # cs \<Rightarrow> Some (c, restore_sstatus v (s\<lparr>input := cs\<rparr>))
         | [] \<Rightarrow> Option.bind (schedule env (restore_sstatus v s)) (uart_getc env)))"

fun getc_loop :: "(kernel \<Rightarrow> kernel option) \<Rightarrow> u64 \<Rightarrow> nat \<Rightarrow> kernel \<Rightarrow> kernel option" where
  "getc_loop env buf 0 s = Some s"
| "getc_loop env buf (Suc n) s = do {
     (c, s1) \<leftarrow> uart_getc env s;
     s2 \<leftarrow> store_byte env buf c s1;
     getc_loop env (buf + 1) n s2
   }"

fun putc_buffer :: "(kernel \<Rightarrow> kernel option) \<Rightarrow> u64 \<Rightarrow> nat \<Rightarrow> kernel \<Rightarrow> kernel option" where
  "putc_buffer env buf 0 s = Some s"
| "putc_buffer env buf (Suc n) s = do {
     (c, s1) \<leftarrow> load_byte env buf s;
     putc_buffer env (buf + 1) n (put_bytes [c] s1)
   }"

end
