(* ===== verification/Video.thy ===== *)
theory Video
  imports User_Access
begin

text \<open>
  src/lab7/src/video.c: the byte swaps, the driver of the fw_cfg device that configures the
  frame buffer of QEMU, the write-back of cache lines, and the display of a bitmap.

  A transfer appends its request to \<open>fw_cfg_log\<close> and waits for the control word that
  \<open>fw_cfg_device\<close> answers; a device that leaves other bits than the error bit set hangs the
  kernel (\<open>None\<close>).  The buffers of the driver are byte lists.
\<close>

definition FB_BASE :: "bool \<Rightarrow> u64" where
  "FB_BASE dbg = (if dbg then 0xffffffc087000000 else 0xffffffc07f700000)"
definition FB_WIDTH :: u32 where "FB_WIDTH = 1920"
definition FB_HEIGHT :: u32 where "FB_HEIGHT = 1080"
definition FB_BPP :: u32 where "FB_BPP = 4"
definition XRGB8888 :: u32 where "XRGB8888 = 875713112"

subsection \<open>Byte swaps\<close>

definition bswaphi2 :: "u16 \<Rightarrow> u16" where
  "bswaphi2 x = drop_bit 8 x OR push_bit 8 x"

definition bswapsi2 :: "u32 \<Rightarrow> u32" where
  "bswapsi2 x = drop_bit 24 (x AND 0xff000000) OR drop_bit 8 (x AND 0x00ff0000)
     OR push_bit 8 (x AND 0x0000ff00) OR push_bit 24 (x AND 0x000000ff)"

definition bswapdi2 :: "u64 \<Rightarrow> u64" where
  "bswapdi2 x =
     drop_bit 56 (x AND 0xff00000000000000) OR drop_bit 40 (x AND 0x00ff000000000000)
     OR drop_bit 24 (x AND 0x0000ff0000000000) OR drop_bit 8 (x AND 0x000000ff00000000)
     OR push_bit 8 (x AND 0x00000000ff000000) OR push_bit 24 (x AND 0x0000000000ff0000)
     OR push_bit 40 (x AND 0x000000000000ff00) OR push_bit 56 (x AND 0x00000000000000ff)"

subsection \<open>The fw_cfg device\<close>

definition FW_CFG_DMA_CTL_ERROR :: u32 where "FW_CFG_DMA_CTL_ERROR = 0x01"
definition FW_CFG_DMA_CTL_READ :: u32 where "FW_CFG_DMA_CTL_READ = 0x02"
definition FW_CFG_DMA_CTL_SELECT :: u32 where "FW_CFG_DMA_CTL_SELECT = 0x08"
definition FW_CFG_DMA_CTL_WRITE :: u32 where "FW_CFG_DMA_CTL_WRITE = 0x10"
definition FW_CFG_FILE_DIR :: u32 where "FW_CFG_FILE_DIR = 0x19"

definition fw_cfg_dma_transfer ::
    "u8 list \<Rightarrow> u32 \<Rightarrow> kernel \<Rightarrow> (u8 list \<times> kernel) option" where
  "fw_cfg_dma_transfer buf control s =
     (let access = \<lparr>dma_control = bswapsi2 control, dma_length = bswapsi2 (of_nat (length buf)),
            dma_address = bswapdi2 (virt_to_phys (fw_cfg_buffer s))\<rparr>;
          log = fw_cfg_log s @ [(access, buf)];
          (ctl, buf') = fw_cfg_device s log
      in if bswapsi2 ctl AND NOT FW_CFG_DMA_CTL_ERROR \<noteq> 0 then None
         else Some (buf', s\<lparr>fw_cfg_log := log\<rparr>))"

definition fw_cfg_read_entry :: "u8 list \<Rightarrow> u32 \<Rightarrow> kernel \<Rightarrow> (u8 list \<times> kernel) option" where
  "fw_cfg_read_entry buf e s =
     fw_cfg_dma_transfer buf (push_bit 16 e OR FW_CFG_DMA_CTL_SELECT OR FW_CFG_DMA_CTL_READ) s"

definition fw_cfg_write_entry :: "u8 list \<Rightarrow> u32 \<Rightarrow> kernel \<Rightarrow> kernel option" where
  "fw_cfg_write_entry buf e s = do {
     (b, s1) \<leftarrow> fw_cfg_dma_transfer buf (push_bit 16 e OR FW_CFG_DMA_CTL_SELECT OR FW_CFG_DMA_CTL_WRITE) s;
     Some s1
   }"

text \<open>Little-endian words of a buffer.\<close>

definition le16 :: "u8 list \<Rightarrow> nat \<Rightarrow> u16" where
  "le16 b i = ucast (b ! i) OR push_bit 8 (ucast (b ! (i + 1)))"

definition le32 :: "u8 list \<Rightarrow> nat \<Rightarrow> u32" where
  "le32 b i = ucast (b ! i) OR push_bit 8 (ucast (b ! (i + 1))) OR push_bit 16 (ucast (b ! (i + 2)))
     OR push_bit 24 (ucast (b ! (i + 3)))"

definition bytes32 :: "u32 \<Rightarrow> u8 list" where
  "bytes32 v = [ucast v, ucast (drop_bit 8 v), ucast (drop_bit 16 v), ucast (drop_bit 24 v)]"

definition bytes64 :: "u64 \<Rightarrow> u8 list" where
  "bytes64 v = bytes32 (ucast v) @ bytes32 (ucast (drop_bit 32 v))"

text \<open>The directory: \<open>n\<close> entries of 64 bytes (size, select, reserved, name) left to read.\<close>

fun find_file_loop :: "cptr \<Rightarrow> nat \<Rightarrow> kernel \<Rightarrow> (int \<times> kernel) option" where
  "find_file_loop name 0 s = Some (- 1, s)"
| "find_file_loop name (Suc n) s = do {
     (file, s1) \<leftarrow> fw_cfg_dma_transfer (replicate 64 0) FW_CFG_DMA_CTL_READ s;
     if strncmp name (reader (drop 8 file)) 56 = 0 then Some (uint (bswaphi2 (le16 file 4)), s1)
     else find_file_loop name n s1
   }"

definition fw_cfg_find_file :: "cptr \<Rightarrow> kernel \<Rightarrow> (int \<times> kernel) option" where
  "fw_cfg_find_file name s = do {
     (b, s1) \<leftarrow> fw_cfg_read_entry (bytes32 0) FW_CFG_FILE_DIR s;
     find_file_loop name (unat (bswapsi2 (le32 b 0))) s1
   }"

definition ramfb_config :: "bool \<Rightarrow> u8 list" where
  "ramfb_config dbg =
     bytes64 (bswapdi2 (virt_to_phys (FB_BASE dbg))) @ bytes32 (bswapsi2 XRGB8888) @ bytes32 (bswapsi2 0) @
     bytes32 (bswapsi2 FB_WIDTH) @ bytes32 (bswapsi2 FB_HEIGHT) @ bytes32 (bswapsi2 (FB_WIDTH * FB_BPP))"

definition video_init :: "kernel \<Rightarrow> kernel option" where
  "video_init s = do {
     (e, s1) \<leftarrow> fw_cfg_find_file (lit ''etc/ramfb'') s;
     fw_cfg_write_entry (ramfb_config (debug s)) (of_int e) s1
   }"

subsection \<open>Cache lines and bitmaps\<close>

definition CACHE_BLOCK_SIZE :: u64 where "CACHE_BLOCK_SIZE = 64"

definition cbo_flush :: "u64 \<Rightarrow> kernel \<Rightarrow> kernel" where
  "cbo_flush line s = s\<lparr>flushed_lines := flushed_lines s @ [line]\<rparr>"

partial_function (option) flush_loop :: "u64 \<Rightarrow> u64 \<Rightarrow> kernel \<Rightarrow> kernel option" where
  "flush_loop line stop s =
     (if line < stop then flush_loop (line + CACHE_BLOCK_SIZE) stop (cbo_flush line s) else Some s)"

definition flush_dcache :: "u64 \<Rightarrow> u64 \<Rightarrow> kernel \<Rightarrow> kernel option" where
  "flush_dcache addr len s = flush_loop (addr AND NOT (CACHE_BLOCK_SIZE - 1)) (addr + len) s"

text \<open>\<open>int\<close> arithmetic at 32 bits: the halves round to zero.\<close>

definition half_int :: "u32 \<Rightarrow> u32" where
  "half_int x = (if sint x < 0 then - ((- x) div 2) else x div 2)"

text \<open>One row: \<open>fb + (start_y + y) * FB_WIDTH + start_x\<close>; the prototype of \<open>memcpy\<close> in this file
  takes the length as an \<open>int\<close>.\<close>

definition bmp_row :: "(kernel \<Rightarrow> kernel option) \<Rightarrow> u64 \<Rightarrow> u32 \<Rightarrow> u32 \<Rightarrow> nat \<Rightarrow> kernel \<Rightarrow> kernel option" where
  "bmp_row env bmp_image width height y s = do {
     let start_x = half_int (FB_WIDTH - width);
     let start_y = half_int (FB_HEIGHT - height);
     let dst = FB_BASE (debug s) + 4 * scast ((start_y + of_nat y) * FB_WIDTH) + 4 * scast start_x;
     let n = (scast width * 4 :: u64);
     s1 \<leftarrow> user_memcpy env dst (bmp_image + 4 * scast (of_nat y * width)) (unat (scast (ucast n :: u32) :: u64)) s;
     flush_dcache dst n s1
   }"

definition video_bmp_display ::
    "(kernel \<Rightarrow> kernel option) \<Rightarrow> u64 \<Rightarrow> u32 \<Rightarrow> u32 \<Rightarrow> kernel \<Rightarrow> kernel option" where
  "video_bmp_display env bmp_image width height s =
     for_each (bmp_row env bmp_image width height) [0..<nat (sint height)] s"

end
