(* ===== verification/Fs_Nodes.thy ===== *)
theory Fs_Nodes
  imports Video
begin

text \<open>
  What the three file systems under src/lab7/src share: a vnode and its node on the heap, and
  the search of a directory.  tmpfs.c, ramfs.c and devfs.c each contain this code; their
  theories instantiate it.
\<close>

text \<open>\<open>allocate(sizeof(struct vnode))\<close> and the assignments to all members but \<open>internal\<close>.\<close>

definition new_vnode ::
    "vnode_operations \<Rightarrow> file_operations \<Rightarrow> (u64 \<Rightarrow> u64) \<Rightarrow> vnode_type \<Rightarrow> kernel \<Rightarrow> (u64 \<times> kernel) option" where
  "new_vnode ops fops parent ty s = do {
     (p, s1) \<leftarrow> allocate sizeof_vnode s;
     Some (p, if p = 0 then s1 else s1\<lparr>vnodes := (vnodes s1)(p \<mapsto>
       \<lparr>v_mount = 0, v_ops = ops, v_f_ops = fops, v_parent = parent p, v_type = ty,
        v_internal = load64 (mem s1) (p + 40)\<rparr>)\<rparr>)
   }"

text \<open>\<open>allocate\<close> of a node; \<open>init\<close> are the assignments to its members.\<close>

definition new_node :: "(fs_node \<Rightarrow> fs_node) \<Rightarrow> kernel \<Rightarrow> (u64 \<times> kernel) option" where
  "new_node init s = do {
     (p, s1) \<leftarrow> allocate sizeof_fs_node s;
     Some (p, if p = 0 then s1 else s1\<lparr>fs_nodes := (fs_nodes s1)(p \<mapsto> init (raw_node (mem s1) p))\<rparr>)
   }"

definition set_internal :: "u64 \<Rightarrow> u64 \<Rightarrow> kernel \<Rightarrow> kernel option" where
  "set_internal v n = update_vnode v (\<lambda>x. x\<lparr>v_internal := n\<rparr>)"

definition set_entry :: "u64 \<Rightarrow> nat \<Rightarrow> u64 \<Rightarrow> kernel \<Rightarrow> kernel option" where
  "set_entry n i e = update_node n (\<lambda>x. x\<lparr>n_entries := (n_entries x)[i := e]\<rparr>)"

text \<open>\<open>mount->root = root_vnode; mount->fs = fs;\<close> on a mount whose third member is what it was.\<close>

definition set_mount :: "u64 \<Rightarrow> u64 \<Rightarrow> filesystem \<Rightarrow> kernel \<Rightarrow> kernel" where
  "set_mount m root fs s = s\<lparr>mounts := (mounts s)(m \<mapsto> \<lparr>m_root = root, m_fs = fs,
     m_mountpoint = (case mounts s m of Some x \<Rightarrow> m_mountpoint x | None \<Rightarrow> load64 (mem s) (m + 16))\<rparr>)\<rparr>"

definition node_of :: "u64 \<Rightarrow> kernel \<Rightarrow> fs_node option" where
  "node_of v s = do { x \<leftarrow> vnodes s v; fs_nodes s (v_internal x) }"

text \<open>The loop over the entries: \<open>Some (Some e)\<close> is success with the entry as target.\<close>

fun find_entry :: "kernel \<Rightarrow> cptr \<Rightarrow> u64 list \<Rightarrow> u64 option option" where
  "find_entry s name [] = Some None"
| "find_entry s name (e # es) =
     (if e \<noteq> 0 then do {
        child \<leftarrow> node_of e s;
        c \<leftarrow> strcmp (name_of child) name;
        if c = 0 then Some (Some e) else find_entry s name es
      } else find_entry s name es)"

definition dir_lookup :: "u64 \<Rightarrow> cptr \<Rightarrow> kernel \<Rightarrow> u64 option option" where
  "dir_lookup dir name s = do {
     d \<leftarrow> node_of dir s;
     if n_type d \<noteq> NODE_DIR then Some None else find_entry s name (take MAX_ENTRIES (n_entries d))
   }"

text \<open>\<open>int free_slot = -1; for (...) if (entries[i] == 0)\<close>\<close>

definition free_entry :: "fs_node \<Rightarrow> nat option" where
  "free_entry d = List.find (\<lambda>i. n_entries d ! i = 0) [0..<MAX_ENTRIES]"

end
