(* ===== verification/Tmpfs.thy ===== *)
theory Tmpfs
  imports Fs_Nodes
begin

text \<open>
  src/lab7/src/tmpfs.c: the file system in memory.  A directory has sixteen entries, a file one
  page of data and a size; names have at most fifteen characters and a NUL.  An operation that
  fails with -1 gives no target (\<open>None\<close>); whatever it allocated before stays allocated.

  The bounds of a page and of a name hold only for offsets that do not wrap around and names of at
  most fifteen characters; Tmpfs_Tree shows what the operations that make entries do then.
\<close>

definition tmpfs_setup_mount :: "u64 \<Rightarrow> kernel \<Rightarrow> (int \<times> kernel) option" where
  "tmpfs_setup_mount mnt s = do {
     (root, s1) \<leftarrow> new_vnode tmpfs_v_ops tmpfs_f_ops (\<lambda>p. p) VFS_TYPE_DIR s;
     if root = 0 then Some (- 1, s1)
     else do {
       (n, s2) \<leftarrow> new_node (\<lambda>x. x\<lparr>n_type := NODE_DIR, n_size := 0, n_entries := replicate MAX_ENTRIES 0\<rparr>) s1;
       if n = 0 then Some (- 1, s2)
       else do { s3 \<leftarrow> set_internal root n s2; Some (0, set_mount mnt root tmpfs_driver s3) }
     }
   }"

definition tmpfs_lookup :: "u64 \<Rightarrow> cptr \<Rightarrow> kernel \<Rightarrow> u64 option option" where
  "tmpfs_lookup dir name s = dir_lookup dir name s"

text \<open>The copy of the name: up to sixteen characters, then the NUL, which for a name of sixteen
  characters is the first byte of \<open>type\<close>.\<close>

definition name_chars :: "cptr \<Rightarrow> nat" where
  "name_chars name = (case List.find (\<lambda>i. name i = 0) [0..<MAX_NAME] of Some i \<Rightarrow> i | None \<Rightarrow> MAX_NAME)"

definition store_name :: "cptr \<Rightarrow> fs_node \<Rightarrow> fs_node" where
  "store_name name x =
     (let k = name_chars name; cs = map name [0..<k] @ drop k (n_name x)
      in if k < MAX_NAME then x\<lparr>n_name := cs[k := 0]\<rparr> else x\<lparr>n_name := cs, n_type := NODE_DIR\<rparr>)"

definition tmpfs_create :: "u64 \<Rightarrow> cptr \<Rightarrow> kernel \<Rightarrow> (u64 option \<times> kernel) option" where
  "tmpfs_create dir name s = do {
     dv \<leftarrow> vnodes s dir;
     d \<leftarrow> fs_nodes s (v_internal dv);
     if n_type d \<noteq> NODE_DIR then Some (None, s)
     else do {
       found \<leftarrow> tmpfs_lookup dir name s;
       if found \<noteq> None then Some (None, s)
       else (case free_entry d of
         None \<Rightarrow> Some (None, s)
       | Some slot \<Rightarrow> do {
           (v, s1) \<leftarrow> new_vnode tmpfs_v_ops tmpfs_f_ops (\<lambda>_. dir) VFS_TYPE_FILE s;
           if v = 0 then Some (None, s1)
           else do {
             (n, s2) \<leftarrow> new_node (\<lambda>x. x\<lparr>n_type := NODE_FILE, n_size := 0\<rparr>) s1;
             if n = 0 then Some (None, s2)
             else do {
               (data, s3) \<leftarrow> allocate MAX_FILE_SIZE s2;
               s4 \<leftarrow> set_entry n 0 data s3;
               if data = 0 then Some (None, s4)
               else do {
                 s5 \<leftarrow> update_node n (store_name name) s4;
                 s6 \<leftarrow> set_internal v n s5;
                 s7 \<leftarrow> set_entry (v_internal dv) slot v s6;
                 Some (Some v, s7)
               }
             }
           }
         })
     }
   }"

definition tmpfs_mkdir :: "u64 \<Rightarrow> cptr \<Rightarrow> kernel \<Rightarrow> (u64 option \<times> kernel) option" where
  "tmpfs_mkdir dir name s = do {
     dv \<leftarrow> vnodes s dir;
     d \<leftarrow> fs_nodes s (v_internal dv);
     if n_type d \<noteq> NODE_DIR then Some (None, s)
     else do {
       found \<leftarrow> tmpfs_lookup dir name s;
       if found \<noteq> None then Some (None, s)
       else (case free_entry d of
         None \<Rightarrow> Some (None, s)
       | Some slot \<Rightarrow> do {
           (v, s1) \<leftarrow> new_vnode tmpfs_v_ops tmpfs_f_ops (\<lambda>_. dir) VFS_TYPE_DIR s;
           if v = 0 then Some (None, s1)
           else do {
             (n, s2) \<leftarrow> new_node (\<lambda>x. store_name name
               (x\<lparr>n_type := NODE_DIR, n_size := 0, n_entries := replicate MAX_ENTRIES 0\<rparr>)) s1;
             if n = 0 then Some (None, s2)
             else do {
               s3 \<leftarrow> set_internal v n s2;
               s4 \<leftarrow> set_entry (v_internal dv) slot v s3;
               Some (Some v, s4)
             }
           }
         })
     }
   }"

text \<open>A number of bytes returned as an \<open>int\<close>.\<close>

definition int_of_len :: "u64 \<Rightarrow> int" where "int_of_len n = sint (ucast n :: u32)"

definition tmpfs_read :: "(kernel \<Rightarrow> kernel option) \<Rightarrow> u64 \<Rightarrow> u64 \<Rightarrow> u64 \<Rightarrow> kernel \<Rightarrow> (int \<times> kernel) option" where
  "tmpfs_read env fp buf len s = do {
     h \<leftarrow> files s fp;
     n \<leftarrow> node_of (f_vnode h) s;
     if n_type n \<noteq> NODE_FILE then Some (- 1, s)
     else if n_size n \<le> f_pos h then Some (0, s)
     else do {
       let len' = min len (n_size n - f_pos h);
       s1 \<leftarrow> user_memcpy env buf (n_data n + f_pos h) (unat len') s;
       s2 \<leftarrow> update_file fp (\<lambda>h. h\<lparr>f_pos := f_pos h + len'\<rparr>) s1;
       Some (int_of_len len', s2)
     }
   }"

definition write_len :: "u64 \<Rightarrow> u64 \<Rightarrow> u64" where
  "write_len pos len = (if MAX_FILE_SIZE < pos + len then MAX_FILE_SIZE - pos else len)"

definition tmpfs_write :: "(kernel \<Rightarrow> kernel option) \<Rightarrow> u64 \<Rightarrow> u64 \<Rightarrow> u64 \<Rightarrow> kernel \<Rightarrow> (int \<times> kernel) option" where
  "tmpfs_write env fp buf len s = do {
     h \<leftarrow> files s fp;
     v \<leftarrow> vnodes s (f_vnode h);
     n \<leftarrow> fs_nodes s (v_internal v);
     if n_type n \<noteq> NODE_FILE then Some (- 1, s)
     else do {
       let len' = write_len (f_pos h) len;
       if len' = 0 then Some (- 1, s)
       else do {
         s1 \<leftarrow> user_memcpy env (n_data n + f_pos h) buf (unat len') s;
         s2 \<leftarrow> update_file fp (\<lambda>h. h\<lparr>f_pos := f_pos h + len'\<rparr>) s1;
         h' \<leftarrow> files s2 fp;
         s3 \<leftarrow> update_node (v_internal v) (\<lambda>n. if n_size n < f_pos h' then n\<lparr>n_size := f_pos h'\<rparr> else n) s2;
         Some (int_of_len len', s3)
       }
     }
   }"

end
