(* ===== verification/Ramfs.thy ===== *)
theory Ramfs
  imports Tmpfs
begin

text \<open>
  src/lab7/src/ramfs.c: the files of the RAM disk as one read-only directory of at most sixteen
  entries whose data stays in the archive.
\<close>

text \<open>One entry of the archive: both allocations, and the assignments when both succeed.\<close>

definition ramfs_add ::
    "u64 \<Rightarrow> u64 \<Rightarrow> nat \<Rightarrow> u64 \<Rightarrow> u64 \<Rightarrow> u64 \<Rightarrow> kernel \<Rightarrow> (nat \<times> kernel) option" where
  "ramfs_add root rn slot data name sz s = do {
     (v, s1) \<leftarrow> allocate sizeof_vnode s;
     (n, s2) \<leftarrow> allocate sizeof_fs_node s1;
     if v = 0 \<or> n = 0 then Some (slot, s2)
     else do {
       let node = \<lparr>n_name = strncpy (replicate MAX_NAME 0) (at (mem s2) name) 15, n_type = NODE_FILE,
         n_size = sz, n_entries = (replicate MAX_ENTRIES 0)[0 := data]\<rparr>;
       let vn = \<lparr>v_mount = 0, v_ops = ramfs_v_ops, v_f_ops = ramfs_f_ops, v_parent = root,
         v_type = VFS_TYPE_FILE, v_internal = n\<rparr>;
       s3 \<leftarrow> set_entry rn slot v (s2\<lparr>fs_nodes := (fs_nodes s2)(n \<mapsto> node), vnodes := (vnodes s2)(v \<mapsto> vn)\<rparr>);
       Some (Suc slot, s3)
     }
   }"

partial_function (option) ramfs_fill :: "u64 \<Rightarrow> u64 \<Rightarrow> u64 \<Rightarrow> nat \<Rightarrow> kernel \<Rightarrow> kernel option" where
  "ramfs_fill root rn hdr slot s =
     Option.bind (cpio_get_all_files (mem s) (cpio_base s) hdr) (\<lambda>r.
       case r of
         None \<Rightarrow> Some s
       | Some (data, name, sz, nxt) \<Rightarrow>
           if data = 0 then Some s
           else if MAX_ENTRIES \<le> slot then Some (put_text ''Warning: ramfs root directory entries full!\<newline>'' s)
           else Option.bind (strcmp (at (mem s) name) (lit ''.'')) (\<lambda>c.
             if c = 0 then ramfs_fill root rn nxt slot s
             else Option.bind (ramfs_add root rn slot data name sz s) (\<lambda>(slot', s').
               ramfs_fill root rn nxt slot' s')))"

definition ramfs_setup_mount :: "u64 \<Rightarrow> kernel \<Rightarrow> (int \<times> kernel) option" where
  "ramfs_setup_mount mnt s = do {
     (root, s1) \<leftarrow> new_vnode ramfs_v_ops ramfs_f_ops (\<lambda>p. p) VFS_TYPE_DIR s;
     if root = 0 then Some (- 1, s1)
     else do {
       (n, s2) \<leftarrow> new_node (\<lambda>x. x\<lparr>n_type := NODE_DIR, n_name := strncpy (n_name x) (lit ''/'') 2, n_size := 0,
         n_entries := replicate MAX_ENTRIES 0\<rparr>) s1;
       if n = 0 then do { s3 \<leftarrow> kfree root s2; Some (- 1, s3\<lparr>vnodes := (vnodes s3)(root := None)\<rparr>) }
       else do {
         s3 \<leftarrow> ramfs_fill root n 0 0 s2;
         s4 \<leftarrow> set_internal root n s3;
         Some (0, set_mount mnt root ramfs_driver s4)
       }
     }
   }"

definition ramfs_lookup :: "u64 \<Rightarrow> cptr \<Rightarrow> kernel \<Rightarrow> u64 option option" where
  "ramfs_lookup dir name s = dir_lookup dir name s"

definition ramfs_read :: "(kernel \<Rightarrow> kernel option) \<Rightarrow> u64 \<Rightarrow> u64 \<Rightarrow> u64 \<Rightarrow> kernel \<Rightarrow> (int \<times> kernel) option" where
  "ramfs_read env fp buf len s = do {
     h \<leftarrow> files s fp;
     n \<leftarrow> node_of (f_vnode h) s;
     if n_type n = NODE_DIR then Some (0, s)
     else if n_size n \<le> f_pos h then Some (0, s)
     else do {
       let len' = min len (n_size n - f_pos h);
       s1 \<leftarrow> user_memcpy env buf (n_data n + f_pos h) (unat len') s;
       s2 \<leftarrow> update_file fp (\<lambda>h. h\<lparr>f_pos := f_pos h + len'\<rparr>) s1;
       Some (int_of_len len', s2)
     }
   }"

definition ramfs_create :: "u64 \<Rightarrow> cptr \<Rightarrow> kernel \<Rightarrow> (u64 option \<times> kernel) option" where
  "ramfs_create dir name s = Some (None, s)"

definition ramfs_mkdir :: "u64 \<Rightarrow> cptr \<Rightarrow> kernel \<Rightarrow> (u64 option \<times> kernel) option" where
  "ramfs_mkdir dir name s = Some (None, s)"

definition ramfs_write :: "u64 \<Rightarrow> u64 \<Rightarrow> u64 \<Rightarrow> kernel \<Rightarrow> (int \<times> kernel) option" where
  "ramfs_write fp buf len s = Some (- 1, s)"

end
