(* ===== verification/Devfs.thy ===== *)
theory Devfs
  imports Ramfs
begin

text \<open>
  src/lab7/src/devfs.c: the device files \<open>uart\<close> and \<open>fb\<close>.  The set-up does not check its
  allocations; a null pointer is then written through, which is undefined.
\<close>

definition FB_IOCTL_GET_INFO :: u64 where "FB_IOCTL_GET_INFO = 0"

text \<open>A vnode and its node without checks.\<close>

definition devfs_node ::
    "file_operations \<Rightarrow> (u64 \<Rightarrow> u64) \<Rightarrow> vnode_type \<Rightarrow> node_type \<Rightarrow> string \<Rightarrow> nat \<Rightarrow> kernel \<Rightarrow> (u64 \<times> u64 \<times> kernel) option" where
  "devfs_node fops parent vty nty name k s = do {
     (v, s1) \<leftarrow> new_vnode devfs_v_ops fops parent vty s;
     if v = 0 then None
     else do {
       (n, s2) \<leftarrow> new_node (\<lambda>x. x\<lparr>n_type := nty, n_name := strncpy (n_name x) (lit name) k, n_size := 0,
         n_entries := replicate MAX_ENTRIES 0\<rparr>) s1;
       if n = 0 then None else do { s3 \<leftarrow> set_internal v n s2; Some (v, n, s3) }
     }
   }"

text \<open>\<open>internal\<close> of the root is assigned last in the source, and read by nobody in between.\<close>

definition devfs_setup_mount :: "u64 \<Rightarrow> kernel \<Rightarrow> (int \<times> kernel) option" where
  "devfs_setup_mount mnt s = do {
     (root, rn, s1) \<leftarrow> devfs_node no_f_ops (\<lambda>p. p) VFS_TYPE_DIR NODE_DIR ''/'' 2 s;
     (uv, un, s2) \<leftarrow> devfs_node devfs_uart_f_ops (\<lambda>_. root) VFS_TYPE_FILE NODE_FILE ''uart'' 5 s1;
     s3 \<leftarrow> set_entry rn 0 uv s2;
     (fv, fnode, s4) \<leftarrow> devfs_node devfs_fb_f_ops (\<lambda>_. root) VFS_TYPE_FILE NODE_FILE ''fb'' 3 s3;
     s5 \<leftarrow> set_entry rn 1 fv s4;
     let s6 = set_mount mnt root devfs_driver s5;
     s7 \<leftarrow> (if debug s6 then video_init s6 else Some s6);
     Some (0, s7)
   }"

definition devfs_lookup :: "u64 \<Rightarrow> cptr \<Rightarrow> kernel \<Rightarrow> u64 option option" where
  "devfs_lookup dir name s = dir_lookup dir name s"

definition devfs_uart_read :: "(kernel \<Rightarrow> kernel option) \<Rightarrow> u64 \<Rightarrow> u64 \<Rightarrow> kernel \<Rightarrow> (int \<times> kernel) option" where
  "devfs_uart_read env buf len s = do { s1 \<leftarrow> getc_loop env buf (unat len) s; Some (int_of_len len, s1) }"

definition devfs_uart_write :: "(kernel \<Rightarrow> kernel option) \<Rightarrow> u64 \<Rightarrow> u64 \<Rightarrow> kernel \<Rightarrow> (int \<times> kernel) option" where
  "devfs_uart_write env buf len s = do { s1 \<leftarrow> putc_buffer env buf (unat len) s; Some (int_of_len len, s1) }"

definition FB_BYTES :: u64 where "FB_BYTES = ucast (FB_WIDTH * FB_HEIGHT * FB_BPP)"

definition devfs_fb_write :: "(kernel \<Rightarrow> kernel option) \<Rightarrow> u64 \<Rightarrow> u64 \<Rightarrow> u64 \<Rightarrow> kernel \<Rightarrow> (int \<times> kernel) option" where
  "devfs_fb_write env fp buf len s = do {
     h \<leftarrow> files s fp;
     let len' = (if FB_BYTES < f_pos h + len then FB_BYTES - f_pos h else len);
     if len' = 0 then Some (0, s)
     else do {
       let dest = FB_BASE (debug s) + f_pos h;
       s1 \<leftarrow> user_memcpy env dest buf (unat len') s;
       s2 \<leftarrow> flush_dcache dest len' s1;
       s3 \<leftarrow> update_file fp (\<lambda>h. h\<lparr>f_pos := f_pos h + len'\<rparr>) s2;
       Some (int_of_len len', s3)
     }
   }"

definition devfs_fb_lseek64 :: "u64 \<Rightarrow> u64 \<Rightarrow> u32 \<Rightarrow> kernel \<Rightarrow> (u64 \<times> kernel) option" where
  "devfs_fb_lseek64 fp offset whence s =
     (if whence = 0 then
        (if sint offset < 0 \<or> sint FB_BYTES < sint offset then Some (- 1, s)
         else do { s1 \<leftarrow> update_file fp (\<lambda>h. h\<lparr>f_pos := offset\<rparr>) s; Some (offset, s1) })
      else Some (- 1, s))"

definition devfs_fb_ioctl :: "(kernel \<Rightarrow> kernel option) \<Rightarrow> u64 \<Rightarrow> u64 \<Rightarrow> kernel \<Rightarrow> (int \<times> kernel) option" where
  "devfs_fb_ioctl env request args s =
     (if request = FB_IOCTL_GET_INFO then
        (if args = 0 then Some (- 1, s)
         else do {
           s1 \<leftarrow> store_bytes env args (bytes32 FB_WIDTH) s;
           s2 \<leftarrow> store_bytes env (args + 4) (bytes32 FB_HEIGHT) s1;
           s3 \<leftarrow> store_bytes env (args + 8) (bytes32 FB_BPP) s2;
           Some (0, s3)
         })
      else Some (- 1, s))"

end
