(* ===== verification/Vfs.thy ===== *)
theory Vfs
  imports Devfs
begin

text \<open>
  src/lab7/src/vfs.c: path resolution over mounted file systems, files, mounts.  Calls through a
  vnode's \<open>v_ops\<close> or a file's \<open>f_ops\<close> are the dispatch functions below; a null member of a table
  is an error result.  All error codes of these functions are -1; an operation with a result in
  an output parameter returns \<open>None\<close> for it.

  A path is the pointer and the string behind it.  Mounted roots and the searches for them are
  loops over pointers, so a cycle of mounts is \<open>None\<close>.

  A name without a slash is copied with \<open>strncpy\<close> into a buffer of sixteen bytes, which a name of sixteen characters
  fills without a NUL; the byte behind the buffer counts as that NUL here.
\<close>

type_synonym path = "u64 \<times> cptr"

definition kernel_path :: "string \<Rightarrow> path" where "kernel_path t = (PAGE_OFFSET, lit t)"

definition slash :: u8 where "slash = char_u8 (CHR ''/'')"

definition O_CREAT :: u32 where "O_CREAT = 64"

subsection \<open>Dispatch\<close>

definition v_lookup :: "u64 \<Rightarrow> cptr \<Rightarrow> kernel \<Rightarrow> u64 option option" where
  "v_lookup dir name s = do {
     v \<leftarrow> vnodes s dir;
     (case v_ops v of
        tmpfs_v_ops \<Rightarrow> tmpfs_lookup dir name s
      | ramfs_v_ops \<Rightarrow> ramfs_lookup dir name s
      | devfs_v_ops \<Rightarrow> devfs_lookup dir name s)
   }"

definition v_create :: "u64 \<Rightarrow> cptr \<Rightarrow> kernel \<Rightarrow> (u64 option \<times> kernel) option" where
  "v_create dir name s = do {
     v \<leftarrow> vnodes s dir;
     (case v_ops v of
        tmpfs_v_ops \<Rightarrow> tmpfs_create dir name s
      | ramfs_v_ops \<Rightarrow> ramfs_create dir name s
      | devfs_v_ops \<Rightarrow> Some (None, s))
   }"

definition v_mkdir :: "u64 \<Rightarrow> cptr \<Rightarrow> kernel \<Rightarrow> (u64 option \<times> kernel) option" where
  "v_mkdir dir name s = do {
     v \<leftarrow> vnodes s dir;
     (case v_ops v of
        tmpfs_v_ops \<Rightarrow> tmpfs_mkdir dir name s
      | ramfs_v_ops \<Rightarrow> ramfs_mkdir dir name s
      | devfs_v_ops \<Rightarrow> Some (None, s))
   }"

definition fs_setup_mount :: "filesystem \<Rightarrow> u64 \<Rightarrow> kernel \<Rightarrow> (int \<times> kernel) option" where
  "fs_setup_mount fs mnt s =
     (case fs of
        tmpfs_driver \<Rightarrow> tmpfs_setup_mount mnt s
      | ramfs_driver \<Rightarrow> ramfs_setup_mount mnt s
      | devfs_driver \<Rightarrow> devfs_setup_mount mnt s)"

definition fs_name :: "filesystem \<Rightarrow> string" where
  "fs_name fs = (case fs of tmpfs_driver \<Rightarrow> ''tmpfs'' | ramfs_driver \<Rightarrow> ''ramfs'' | devfs_driver \<Rightarrow> ''devfs'')"

definition register_filesystem :: "filesystem \<Rightarrow> kernel \<Rightarrow> int \<times> kernel" where
  "register_filesystem fs s =
     (if 8 \<le> length (registered_filesystems s) then (- 1, s)
      else (0, s\<lparr>registered_filesystems := registered_filesystems s @ [fs]\<rparr>))"

subsection \<open>Path resolution\<close>

partial_function (option) skip_slashes :: "cptr \<Rightarrow> nat \<Rightarrow> nat option" where
  "skip_slashes path i = (if path i = slash then skip_slashes path (Suc i) else Some i)"

text \<open>\<open>component[comp_idx++] = pathname[path_idx]\<close> up to fifteen characters.\<close>

partial_function (option) take_component :: "cptr \<Rightarrow> nat \<Rightarrow> u8 list \<Rightarrow> (u8 list \<times> nat) option" where
  "take_component path i acc =
     (if path i \<noteq> slash \<and> path i \<noteq> 0
      then take_component path (Suc i) (if length acc < MAX_NAME - 1 then acc @ [path i] else acc)
      else Some (acc, i))"

text \<open>\<open>while (v && v->mount != 0) v = v->mount->root;\<close>\<close>

partial_function (option) cross_mounts :: "kernel \<Rightarrow> u64 \<Rightarrow> u64 option" where
  "cross_mounts s v =
     (if v = 0 then Some v
      else Option.bind (vnodes s v) (\<lambda>x.
        if v_mount x = 0 then Some v
        else Option.bind (mounts s (v_mount x)) (\<lambda>m. cross_mounts s (m_root m))))"

text \<open>The active mount whose root is the vnode.\<close>

fun mount_with_root :: "kernel \<Rightarrow> u64 \<Rightarrow> u64 list \<Rightarrow> mount option option" where
  "mount_with_root s v [] = Some None"
| "mount_with_root s v (p # ps) = do {
     m \<leftarrow> mounts s p;
     if m_root m = v then Some (Some m) else mount_with_root s v ps
   }"

partial_function (option) leave_mounts :: "kernel \<Rightarrow> u64 \<Rightarrow> u64 option" where
  "leave_mounts s v =
     Option.bind (mount_with_root s v (active_mounts s)) (\<lambda>r.
       case r of Some m \<Rightarrow> leave_mounts s (m_mountpoint m) | None \<Rightarrow> Some v)"

definition root_vnode :: "kernel \<Rightarrow> u64 option" where
  "root_vnode s = do { m \<leftarrow> mounts s (rootfs s); Some (m_root m) }"

definition lookup_dotdot :: "kernel \<Rightarrow> u64 \<Rightarrow> u64 option" where
  "lookup_dotdot s v = do {
     root \<leftarrow> root_vnode s;
     if v = root then Some v
     else do {
       v1 \<leftarrow> leave_mounts s v;
       v2 \<leftarrow> (if v1 \<noteq> root then do { x \<leftarrow> vnodes s v1; Some (if v_parent x \<noteq> 0 then v_parent x else v1) } else Some v1);
       cross_mounts s v2
     }
   }"

text \<open>One component: \<open>Some None\<close> is the error.\<close>

definition lookup_component :: "kernel \<Rightarrow> u64 \<Rightarrow> u8 list \<Rightarrow> u64 option option" where
  "lookup_component s v cname = do {
     d1 \<leftarrow> strcmp (reader cname) (lit ''.'');
     if d1 = 0 then Some (Some v)
     else do {
       d2 \<leftarrow> strcmp (reader cname) (lit ''..'');
       if d2 = 0 then do { v' \<leftarrow> lookup_dotdot s v; Some (Some v') }
       else do {
         r \<leftarrow> v_lookup v (reader cname) s;
         (case r of None \<Rightarrow> Some None | Some t \<Rightarrow> do { t' \<leftarrow> cross_mounts s t; Some (Some t') })
       }
     }
   }"

partial_function (option) walk_path :: "kernel \<Rightarrow> cptr \<Rightarrow> nat \<Rightarrow> u64 \<Rightarrow> u64 option option" where
  "walk_path s path i v =
     (if path i = 0 then Some (Some v)
      else Option.bind (take_component path i []) (\<lambda>(cname, j).
        Option.bind (skip_slashes path j) (\<lambda>k.
          if cname = [] then Some (Some v)
          else Option.bind (lookup_component s v cname) (\<lambda>r.
            case r of None \<Rightarrow> Some None | Some v' \<Rightarrow> walk_path s path k v'))))"

definition vfs_lookup_from :: "u64 \<Rightarrow> path \<Rightarrow> kernel \<Rightarrow> u64 option option" where
  "vfs_lookup_from base pathname s =
     (case pathname of (p, path) \<Rightarrow>
        if p = 0 \<or> path 0 = 0 then Some None
        else if path 0 = slash then do {
          root \<leftarrow> root_vnode s;
          i \<leftarrow> skip_slashes path 0;
          walk_path s path i root
        } else walk_path s path 0 base)"

subsection \<open>Opening and making\<close>

definition cwd_or_root :: "kernel \<Rightarrow> u64 option" where
  "cwd_or_root s =
     (if get_current s = 0 then root_vnode s
      else do { t \<leftarrow> task_structs s (get_current s); if ts_cwd t \<noteq> 0 then Some (ts_cwd t) else root_vnode s })"

partial_function (option) last_slash :: "cptr \<Rightarrow> nat \<Rightarrow> int \<Rightarrow> int option" where
  "last_slash path i r =
     (if path i = 0 then Some r else last_slash path (Suc i) (if path i = slash then int i else r))"

text \<open>The name behind the last slash, cut to fifteen characters.\<close>

partial_function (option) name_tail :: "cptr \<Rightarrow> nat \<Rightarrow> u8 list \<Rightarrow> u8 list option" where
  "name_tail path i acc =
     (if path i = 0 then Some acc
      else name_tail path (Suc i) (if length acc < MAX_NAME - 1 then acc @ [path i] else acc))"

text \<open>The parent and the name of a new entry: \<open>Some (None, _)\<close> when the parent is not found.  The
  buffer \<open>parent_path\<close> has 256 bytes.\<close>

definition split_path :: "u64 \<Rightarrow> path \<Rightarrow> kernel \<Rightarrow> (u64 option \<times> u8 list) option" where
  "split_path base pathname s = do {
     let path = snd pathname;
     ls \<leftarrow> last_slash path 0 (- 1);
     if ls = - 1 then Some (Some base, strncpy (replicate MAX_NAME 0) path MAX_NAME)
     else if 256 \<le> ls then None
     else do {
       let parent_path = (if 0 < ls then reader (map path [0..<nat ls]) else reader [path 0]);
       name \<leftarrow> name_tail path (nat ls + 1) [];
       r \<leftarrow> vfs_lookup_from base (PAGE_OFFSET, parent_path) s;
       Some (r, name)
     }
   }"

definition open_file :: "u64 \<Rightarrow> u32 \<Rightarrow> kernel \<Rightarrow> (u64 option \<times> kernel) option" where
  "open_file node flags s = do {
     v \<leftarrow> vnodes s node;
     (h, s1) \<leftarrow> allocate sizeof_file s;
     if h = 0 then Some (None, s1)
     else Some (Some h, s1\<lparr>files := (files s1)(h \<mapsto>
       \<lparr>f_vnode = node, f_pos = 0, f_ops = v_f_ops v, f_ref_count = 1, f_flags = flags\<rparr>)\<rparr>)
   }"

definition vfs_open :: "path \<Rightarrow> u32 \<Rightarrow> kernel \<Rightarrow> (u64 option \<times> kernel) option" where
  "vfs_open pathname flags s = do {
     base \<leftarrow> cwd_or_root s;
     found \<leftarrow> vfs_lookup_from base pathname s;
     (case found of
        Some node \<Rightarrow> open_file node flags s
      | None \<Rightarrow>
          if flags AND O_CREAT = 0 then Some (None, s)
          else do {
            (parent, name) \<leftarrow> split_path base pathname s;
            (case parent of
               None \<Rightarrow> Some (None, s)
             | Some dir \<Rightarrow> do {
                 (r, s1) \<leftarrow> v_create dir (reader name) s;
                 (case r of None \<Rightarrow> Some (None, s1) | Some node \<Rightarrow> open_file node flags s1)
               })
          })
   }"

definition vfs_mkdir :: "path \<Rightarrow> kernel \<Rightarrow> (int \<times> kernel) option" where
  "vfs_mkdir pathname s = do {
     base \<leftarrow> cwd_or_root s;
     (parent, name) \<leftarrow> split_path base pathname s;
     (case parent of
        None \<Rightarrow> Some (- 1, s)
      | Some dir \<Rightarrow> do {
          (r, s1) \<leftarrow> v_mkdir dir (reader name) s;
          Some (if r = None then - 1 else 0, s1)
        })
   }"

text \<open>The new working directory, if there is one.\<close>

definition vfs_chdir :: "u64 \<Rightarrow> path \<Rightarrow> kernel \<Rightarrow> u64 option option" where
  "vfs_chdir cwd pathname s = do {
     r \<leftarrow> vfs_lookup_from cwd pathname s;
     (case r of
        None \<Rightarrow> Some None
      | Some t \<Rightarrow> do { v \<leftarrow> vnodes s t; Some (if v_type v = VFS_TYPE_DIR then Some t else None) })
   }"

subsection \<open>Mounting\<close>

fun find_driver :: "cptr \<Rightarrow> filesystem list \<Rightarrow> filesystem option option" where
  "find_driver name [] = Some None"
| "find_driver name (fs # fss) = do {
     c \<leftarrow> strcmp (lit (fs_name fs)) name;
     if c = 0 then Some (Some fs) else find_driver name fss
   }"

definition vfs_mount :: "path \<Rightarrow> cptr \<Rightarrow> kernel \<Rightarrow> (int \<times> kernel) option" where
  "vfs_mount target fsname s = do {
     base \<leftarrow> cwd_or_root s;
     found \<leftarrow> vfs_lookup_from base target s;
     (case found of
        None \<Rightarrow> Some (- 1, s)
      | Some mp \<Rightarrow> do {
          driver \<leftarrow> find_driver fsname (registered_filesystems s);
          (case driver of
             None \<Rightarrow> Some (- 1, s)
           | Some fs \<Rightarrow> do {
               (mnt, s1) \<leftarrow> allocate sizeof_mount s;
               if mnt = 0 then Some (- 1, s1)
               else do {
                 (ret, s2) \<leftarrow> fs_setup_mount fs mnt s1;
                 if ret \<noteq> 0 then do { s3 \<leftarrow> kfree mnt s2; Some (ret, s3\<lparr>mounts := (mounts s3)(mnt := None)\<rparr>) }
                 else do {
                   m \<leftarrow> mounts s2 mnt;
                   s3 \<leftarrow> update_vnode mp (\<lambda>v. v\<lparr>v_mount := mnt\<rparr>)
                     (s2\<lparr>mounts := (mounts s2)(mnt \<mapsto> m\<lparr>m_mountpoint := mp\<rparr>)\<rparr>);
                   Some (0, if length (active_mounts s3) < 8
                            then s3\<lparr>active_mounts := active_mounts s3 @ [mnt]\<rparr> else s3)
                 }
               }
             })
        })
   }"

subsection \<open>Files\<close>

definition vfs_close :: "u64 \<Rightarrow> kernel \<Rightarrow> (int \<times> kernel) option" where
  "vfs_close fp s =
     (if fp = 0 then Some (- 1, s)
      else do {
        s1 \<leftarrow> update_file fp (\<lambda>h. h\<lparr>f_ref_count := f_ref_count h - 1\<rparr>) s;
        h \<leftarrow> files s1 fp;
        if f_ref_count h = 0 then do { s2 \<leftarrow> kfree fp s1; Some (0, s2\<lparr>files := (files s2)(fp := None)\<rparr>) }
        else Some (0, s1)
      })"

definition vfs_read :: "(kernel \<Rightarrow> kernel option) \<Rightarrow> u64 \<Rightarrow> u64 \<Rightarrow> u64 \<Rightarrow> kernel \<Rightarrow> (int \<times> kernel) option" where
  "vfs_read env fp buf len s =
     (if fp = 0 then Some (- 1, s)
      else do {
        h \<leftarrow> files s fp;
        (case f_ops h of
           tmpfs_f_ops \<Rightarrow> tmpfs_read env fp buf len s
         | ramfs_f_ops \<Rightarrow> ramfs_read env fp buf len s
         | devfs_uart_f_ops \<Rightarrow> devfs_uart_read env buf len s
         | _ \<Rightarrow> Some (- 1, s))
      })"

definition vfs_write :: "(kernel \<Rightarrow> kernel option) \<Rightarrow> u64 \<Rightarrow> u64 \<Rightarrow> u64 \<Rightarrow> kernel \<Rightarrow> (int \<times> kernel) option" where
  "vfs_write env fp buf len s =
     (if fp = 0 then Some (- 1, s)
      else do {
        h \<leftarrow> files s fp;
        (case f_ops h of
           tmpfs_f_ops \<Rightarrow> tmpfs_write env fp buf len s
         | ramfs_f_ops \<Rightarrow> ramfs_write fp buf len s
         | devfs_uart_f_ops \<Rightarrow> devfs_uart_write env buf len s
         | devfs_fb_f_ops \<Rightarrow> devfs_fb_write env fp buf len s
         | no_f_ops \<Rightarrow> Some (- 1, s))
      })"

definition vfs_lseek64 :: "u64 \<Rightarrow> u64 \<Rightarrow> u32 \<Rightarrow> kernel \<Rightarrow> (u64 \<times> kernel) option" where
  "vfs_lseek64 fp offset whence s =
     (if fp = 0 then Some (- 1, s)
      else do {
        h \<leftarrow> files s fp;
        if f_ops h = devfs_fb_f_ops then devfs_fb_lseek64 fp offset whence s else Some (- 1, s)
      })"

definition vfs_ioctl :: "(kernel \<Rightarrow> kernel option) \<Rightarrow> u64 \<Rightarrow> u64 \<Rightarrow> u64 \<Rightarrow> kernel \<Rightarrow> (int \<times> kernel) option" where
  "vfs_ioctl env fp request args s =
     (if fp = 0 then Some (- 1, s)
      else do {
        h \<leftarrow> files s fp;
        if f_ops h = devfs_fb_f_ops then devfs_fb_ioctl env request args s else Some (- 1, s)
      })"

end
