(* ===== verification/Process.thy ===== *)
theory Process
  imports Vfs
begin

text \<open>
  Creating, executing and reaping threads: the rest of src/lab7/src/sched.c and \<open>do_exec\<close> of
  src/lab7/main.c.
\<close>

text \<open>\<open>free\<close> of a structure ends its life on the typed heap; with a kernel stack go the trap frames
  on it.\<close>

definition free_task :: "u64 \<Rightarrow> kernel \<Rightarrow> kernel option" where
  "free_task p s = do { s1 \<leftarrow> kfree p s; Some (s1\<lparr>task_structs := (task_structs s1)(p := None)\<rparr>) }"

definition free_stack :: "u64 \<Rightarrow> kernel \<Rightarrow> kernel option" where
  "free_stack p s = do {
     s1 \<leftarrow> kfree p s;
     Some (s1\<lparr>tframes := (\<lambda>a. if a - p < STACK_SIZE then None else tframes s1 a)\<rparr>)
   }"

definition close_fd :: "u64 \<Rightarrow> nat \<Rightarrow> kernel \<Rightarrow> kernel option" where
  "close_fd task i s = do {
     t \<leftarrow> task_structs s task;
     if ts_fds t ! i \<noteq> 0 then do {
       (r, s1) \<leftarrow> vfs_close (ts_fds t ! i) s;
       update_task task (\<lambda>t. t\<lparr>ts_fds := (ts_fds t)[i := 0]\<rparr>) s1
     } else Some s
   }"

definition reap :: "u64 \<Rightarrow> kernel \<Rightarrow> kernel option" where
  "reap task s = do {
     s1 \<leftarrow> for_each (close_fd task) [0..<MAX_FD] s;
     s2 \<leftarrow> update_task task (\<lambda>t. t\<lparr>ts_cwd := 0\<rparr>) s1;
     t \<leftarrow> task_structs s2 task;
     s3 \<leftarrow> (if ts_pgd t \<noteq> 0 \<and> ts_pgd t \<noteq> kernel_pgd s2 then free_user_page_table (ts_pgd t) s2 else Some s2);
     s4 \<leftarrow> free_stack (ts_stack t) s3;
     free_task task s4
   }"

partial_function (option) reap_loop :: "u64 \<Rightarrow> kernel \<Rightarrow> kernel option" where
  "reap_loop task s =
     (if task = 0 then Some s
      else Option.bind (task_structs s task) (\<lambda>t. Option.bind (reap task s) (reap_loop (ts_next t))))"

definition kill_zombies :: "kernel \<Rightarrow> kernel option" where
  "kill_zombies s0 = do {
     let s1 = (if zombie_queue s0 \<noteq> 0 then put_text ''Cleaning zombie!\<newline>'' s0 else s0);
     let (v, s) = disable_and_save_sstatus s1;
     s2 \<leftarrow> reap_loop (zombie_queue s) (s\<lparr>zombie_queue := 0\<rparr>);
     Some (restore_sstatus v s2)
   }"

text \<open>One round of the loop of \<open>idle\<close>.\<close>

definition idle_round :: "(kernel \<Rightarrow> kernel option) \<Rightarrow> kernel \<Rightarrow> kernel option" where
  "idle_round env s = do { s1 \<leftarrow> kill_zombies s; schedule env s1 }"

partial_function (option) idle :: "(kernel \<Rightarrow> kernel option) \<Rightarrow> kernel \<Rightarrow> kernel option" where
  "idle env s = Option.bind (idle_round env s) (idle env)"

subsection \<open>Creation\<close>

text \<open>\<open>allocate\<close>, \<open>memzero\<close> and the next process id; a null pointer is returned as such.\<close>

definition new_task :: "kernel \<Rightarrow> (u64 \<times> kernel) option" where
  "new_task s = do {
     (p, s1) \<leftarrow> allocate sizeof_task_struct s;
     Some (p, if p = 0 then s1
              else s1\<lparr>task_structs := (task_structs s1)(p \<mapsto> zero_task\<lparr>ts_pid := nr_threads s1\<rparr>),
                      nr_threads := nr_threads s1 + 1\<rparr>)
   }"

definition thread_create :: "u64 \<Rightarrow> kernel \<Rightarrow> (u64 \<times> kernel) option" where
  "thread_create threadfn s = do {
     (task, s1) \<leftarrow> new_task s;
     if task = 0 then Some (0, s1)
     else do {
       (stack, s2) \<leftarrow> allocate STACK_SIZE s1;
       s3 \<leftarrow> update_task task (\<lambda>t. t\<lparr>ts_stack := stack\<rparr>) s2;
       if stack = 0 then do { s4 \<leftarrow> free_task task s3; Some (0, s4) }
       else do {
         root \<leftarrow> root_vnode s3;
         s4 \<leftarrow> update_task task (\<lambda>t. t\<lparr>ts_pgd := kernel_pgd s3, ts_cwd := root,
           ts_thread := (ts_thread t)\<lparr>th_ra := threadfn, th_sp := stack + STACK_SIZE, th_sstatus := sstatus s3\<rparr>\<rparr>) s3;
         s5 \<leftarrow> enqueue Run_queue task s4;
         Some (task, s5)
       }
     }
   }"

text \<open>\<open>for (i = 256; i < 512; i++) pgd[i] = kernel_pgd[i];\<close>\<close>

definition copy_kernel_half :: "u64 \<Rightarrow> kernel \<Rightarrow> kernel" where
  "copy_kernel_half pgd s = fold (\<lambda>i s. pte_set pgd i (pte_get (mem s) (kernel_pgd s) i) s) [256..<512] s"

definition user_frame :: "u64 \<Rightarrow> u64 \<Rightarrow> pt_regs" where
  "user_frame task sst = (\<lambda>_. 0)(TP := task, EPC := 0, SP := USER_STACK + STACK_SIZE,
     SSTATUS := (sst AND NOT (push_bit 8 1)) OR push_bit 5 1)"

definition do_exec :: "u64 \<Rightarrow> cptr \<Rightarrow> kernel \<Rightarrow> (int \<times> kernel) option" where
  "do_exec task filename s = do {
     r \<leftarrow> cpio_get_file (mem s) (cpio_base s) filename;
     (case r of
        None \<Rightarrow> Some (- 1, s)
      | Some (code_start, sz) \<Rightarrow>
          if code_start = 0 then Some (- 1, s)
          else do {
            t \<leftarrow> task_structs s task;
            s1 \<leftarrow> clear_user_space_mappings (ts_pgd t) s;
            s2 \<leftarrow> update_task task (\<lambda>t. t\<lparr>ts_code_pa := virt_to_phys code_start, ts_code_size := sz, ts_user_stack := 0\<rparr>) s1;
            Some (0, s2\<lparr>tframes := (tframes s2)(ts_kernel_sp t - sizeof_pt_regs \<mapsto> user_frame task (sstatus s2))\<rparr>)
          })
   }"

definition increment_ref :: "u64 \<Rightarrow> kernel \<Rightarrow> kernel option" where
  "increment_ref fp = update_file fp (\<lambda>h. h\<lparr>f_ref_count := f_ref_count h + 1\<rparr>)"

text \<open>Standard input, output and error on \<open>/dev/uart\<close>; without it the kernel stops.\<close>

definition open_console :: "u64 \<Rightarrow> kernel \<Rightarrow> kernel option" where
  "open_console task s = do {
     (r, s1) \<leftarrow> vfs_open (kernel_path ''/dev/uart'') 0 s;
     uart_file \<leftarrow> r;
     s2 \<leftarrow> increment_ref uart_file s1;
     s3 \<leftarrow> increment_ref uart_file s2;
     update_task task (\<lambda>t. t\<lparr>ts_fds := (ts_fds t)[0 := uart_file, 1 := uart_file, 2 := uart_file]\<rparr>) s3
   }"

definition create_user_process :: "cptr \<Rightarrow> kernel \<Rightarrow> (u64 \<times> kernel) option" where
  "create_user_process filename s = do {
     (task, s1) \<leftarrow> new_task s;
     if task = 0 then Some (0, s1)
     else do {
       (stack, s2) \<leftarrow> allocate STACK_SIZE s1;
       if stack = 0 then do { s3 \<leftarrow> free_task task s2; Some (0, s3) }
       else do {
         (pgd, s3) \<leftarrow> allocate PAGE_SIZE s2;
         if pgd = 0 then do { s4 \<leftarrow> free_stack stack s3; s5 \<leftarrow> free_task task s4; Some (0, s5) }
         else do {
           s4 \<leftarrow> update_task task (\<lambda>t. t\<lparr>ts_stack := stack, ts_kernel_sp := stack + STACK_SIZE, ts_pgd := pgd\<rparr>)
             (copy_kernel_half pgd (zero_page pgd s3));
           s5 \<leftarrow> open_console task (s4\<lparr>active_user_pgd := pgd\<rparr>);
           root \<leftarrow> root_vnode s5;
           s6 \<leftarrow> update_task task (\<lambda>t. t\<lparr>ts_cwd := root\<rparr>) s5;
           (ret, s7) \<leftarrow> do_exec task filename s6;
           if ret < 0 then do {
             s8 \<leftarrow> kfree pgd s7; s9 \<leftarrow> free_stack stack s8; s10 \<leftarrow> free_task task s9; Some (0, s10)
           } else do {
             s8 \<leftarrow> update_task task (\<lambda>t. t\<lparr>ts_thread := (ts_thread t)\<lparr>th_ra := ret_from_exception s7,
               th_sp := stack + STACK_SIZE - sizeof_pt_regs, th_sstatus := sstatus s7\<rparr>\<rparr>) s7;
             s9 \<leftarrow> enqueue Run_queue task s8;
             Some (task, s9)
           }
         }
       }
     }
   }"

end
