(* ===== verification/Plic.thy ===== *)
theory Plic
  imports Process
begin

text \<open>
  src/lab7/src/plic.c: the registers of the interrupt controller, by address.  The claim register
  is a device register: reading it takes the next pending interrupt off \<open>plic_pending\<close>, or
  gives 0; the other registers hold what was written.
\<close>

definition UART_IRQ :: "bool \<Rightarrow> nat" where "UART_IRQ dbg = (if dbg then 10 else 42)"

definition PLIC_PRIORITY :: "bool \<Rightarrow> nat \<Rightarrow> u64" where
  "PLIC_PRIORITY dbg irq = PLIC_BASE dbg + of_nat irq * 4"

definition PLIC_ENABLE :: "bool \<Rightarrow> u64 \<Rightarrow> nat \<Rightarrow> u64" where
  "PLIC_ENABLE dbg hart irq = PLIC_BASE dbg + 0x002080 + hart * 0x0100 + of_nat (irq div 32) * 4"

definition PLIC_THRESHOLD :: "bool \<Rightarrow> u64 \<Rightarrow> u64" where
  "PLIC_THRESHOLD dbg hart = PLIC_BASE dbg + 0x201000 + hart * 0x2000"

definition PLIC_CLAIM :: "bool \<Rightarrow> u64 \<Rightarrow> u64" where
  "PLIC_CLAIM dbg hart = PLIC_BASE dbg + 0x201004 + hart * 0x2000"

definition plic_write :: "u64 \<Rightarrow> u32 \<Rightarrow> kernel \<Rightarrow> kernel" where
  "plic_write a v s = s\<lparr>plic_regs := (plic_regs s)(a := v)\<rparr>"

definition plic_init :: "u64 \<Rightarrow> kernel \<Rightarrow> kernel" where
  "plic_init hartid s =
     (let irq = UART_IRQ (debug s);
          s1 = plic_write (PLIC_PRIORITY (debug s) irq) 1 s;
          en = PLIC_ENABLE (debug s) hartid irq;
          s2 = plic_write en (plic_regs s1 en OR push_bit (irq mod 32) 1) s1;
          s3 = plic_write (PLIC_THRESHOLD (debug s) hartid) 0 s2
      in enable_external_interrupt s3)"

definition plic_claim :: "u64 \<Rightarrow> kernel \<Rightarrow> u32 \<times> kernel" where
  "plic_claim hartid s = (case plic_pending s of [] \<Rightarrow> (0, s) | i # rest \<Rightarrow> (i, s\<lparr>plic_pending := rest\<rparr>))"

definition plic_complete :: "u32 \<Rightarrow> u64 \<Rightarrow> kernel \<Rightarrow> kernel" where
  "plic_complete irq hartid s = plic_write (PLIC_CLAIM (debug s) hartid) irq s"

end
