(* ===== verification/Syscall.thy ===== *)
theory Syscall
  imports Plic
begin

text \<open>
  src/lab7/src/syscall.c: the dispatcher and the system calls.  \<open>regs\<close> is the address of the trap
  frame; the arguments are read from it and the result is stored into it, as the code does.
  \<open>env\<close> is the environment of \<open>schedule\<close>; in \<open>sys_usleep\<close> it is what happens between two reads of
  the clock.
\<close>

definition MAP_POPULATE :: u32 where "MAP_POPULATE = 0x8000"

datatype syscall_num = SYS_GETPID | SYS_UART_READ | SYS_UART_WRITE | SYS_EXEC | SYS_FORK | SYS_WAITPID
  | SYS_EXIT | SYS_STOP | SYS_DISPLAY | SYS_USLEEP | SYS_SIGNAL | SYS_SIGRETURN | SYS_KILL | SYS_MMAP
  | SYS_OPEN | SYS_CLOSE | SYS_READ | SYS_WRITE | SYS_MKDIR | SYS_MOUNT | SYS_CHDIR | SYS_LSEEK64 | SYS_IOCTL

definition syscall_table :: "syscall_num list" where
  "syscall_table = [SYS_GETPID, SYS_UART_READ, SYS_UART_WRITE, SYS_EXEC, SYS_FORK, SYS_WAITPID,
     SYS_EXIT, SYS_STOP, SYS_DISPLAY, SYS_USLEEP, SYS_SIGNAL, SYS_SIGRETURN, SYS_KILL, SYS_MMAP,
     SYS_OPEN, SYS_CLOSE, SYS_READ, SYS_WRITE, SYS_MKDIR, SYS_MOUNT, SYS_CHDIR, SYS_LSEEK64, SYS_IOCTL]"

definition decode_syscall :: "u64 \<Rightarrow> syscall_num option" where
  "decode_syscall a7 =
     (let n = unat (ucast a7 :: u32) in if n < length syscall_table then Some (syscall_table ! n) else None)"

definition enable_sum :: "kernel \<Rightarrow> kernel" where
  "enable_sum s = s\<lparr>sstatus := sstatus s OR push_bit 18 1\<rparr>"

definition disable_sum :: "kernel \<Rightarrow> kernel" where
  "disable_sum s = s\<lparr>sstatus := sstatus s AND NOT (push_bit 18 1)\<rparr>"

definition set_reg :: "u64 \<Rightarrow> reg \<Rightarrow> u64 \<Rightarrow> kernel \<Rightarrow> kernel option" where
  "set_reg regs r v s = do { f \<leftarrow> tframes s regs; Some (s\<lparr>tframes := (tframes s)(regs \<mapsto> f(r := v))\<rparr>) }"

text \<open>An \<open>int\<close> result in a register.\<close>

definition of_result :: "int \<times> kernel \<Rightarrow> u64 \<times> kernel" where
  "of_result r = (of_int (fst r), snd r)"

text \<open>A path argument.  A null pointer is not followed where the code tests it first.\<close>

definition user_path :: "(kernel \<Rightarrow> kernel option) \<Rightarrow> bool \<Rightarrow> u64 \<Rightarrow> kernel \<Rightarrow> (path \<times> kernel) option" where
  "user_path env follow_null p s =
     (if p = 0 \<and> \<not> follow_null then Some ((0, reader []), s)
      else do { (bs, s1) \<leftarrow> load_string env p s; Some ((p, reader bs), s1) })"

subsection \<open>Processes\<close>

definition sys_getpid :: "kernel \<Rightarrow> u64 option" where
  "sys_getpid s = do { t \<leftarrow> task_structs s (get_current s); Some (scast (ts_pid t)) }"

definition sys_uart_read :: "(kernel \<Rightarrow> kernel option) \<Rightarrow> u64 \<Rightarrow> u64 \<Rightarrow> kernel \<Rightarrow> (u64 \<times> kernel) option" where
  "sys_uart_read env buf sz s = do { s1 \<leftarrow> getc_loop env buf (unat sz) s; Some (sz, s1) }"

definition sys_uart_write :: "(kernel \<Rightarrow> kernel option) \<Rightarrow> u64 \<Rightarrow> u64 \<Rightarrow> kernel \<Rightarrow> (u64 \<times> kernel) option" where
  "sys_uart_write env buf sz s = do { s1 \<leftarrow> putc_buffer env buf (unat sz) s; Some (sz, s1) }"

definition sys_exec :: "(kernel \<Rightarrow> kernel option) \<Rightarrow> u64 \<Rightarrow> kernel \<Rightarrow> (int \<times> kernel) option" where
  "sys_exec env filename s = do {
     (name, s1) \<leftarrow> load_string env filename s;
     (ret, s2) \<leftarrow> do_exec (get_current s1) (reader name) s1;
     Some (if ret < 0 then - 1 else 0, s2)
   }"

text \<open>\<open>memcpy\<close> of the kernel stack: its bytes and the trap frames on it.\<close>

definition copy_stack :: "u64 \<Rightarrow> u64 \<Rightarrow> kernel \<Rightarrow> kernel" where
  "copy_stack d p s = s\<lparr>mem := memcpy d p (unat STACK_SIZE) (mem s),
     tframes := (\<lambda>a. if a - d < STACK_SIZE then tframes s (a - d + p) else tframes s a)\<rparr>"

definition share_file :: "task_struct \<Rightarrow> nat \<Rightarrow> kernel \<Rightarrow> kernel option" where
  "share_file parent i s = (if ts_fds parent ! i \<noteq> 0 then increment_ref (ts_fds parent ! i) s else Some s)"

text \<open>What the child inherits.\<close>

definition inherit :: "task_struct \<Rightarrow> u64 \<Rightarrow> u64 \<Rightarrow> u64 \<Rightarrow> u32 \<Rightarrow> task_struct \<Rightarrow> task_struct" where
  "inherit parent stack pgd usp pid c =
     c\<lparr>ts_stack := stack, ts_pgd := pgd, ts_pid := pid, ts_state := THREAD_RUNNING,
       ts_sig_handlers := ts_sig_handlers parent, ts_vma_count := ts_vma_count parent,
       ts_vmas := take (ts_vma_count parent) (ts_vmas parent) @ drop (ts_vma_count parent) (ts_vmas c),
       ts_user_sp := usp, ts_code_pa := ts_code_pa parent, ts_code_size := ts_code_size parent,
       ts_cwd := ts_cwd parent, ts_fds := ts_fds parent, ts_kernel_sp := stack + STACK_SIZE\<rparr>"

definition child_frame :: "u64 \<Rightarrow> pt_regs \<Rightarrow> pt_regs" where
  "child_frame child f = f(A0 := 0, TP := child, EPC := f EPC + 4)"

definition sys_fork :: "u64 \<Rightarrow> kernel \<Rightarrow> (u64 \<times> kernel) option" where
  "sys_fork regs s = do {
     parent \<leftarrow> task_structs s (get_current s);
     f \<leftarrow> tframes s regs;
     (child, s1) \<leftarrow> allocate sizeof_task_struct s;
     if child = 0 then Some (- 1, s1)
     else do {
       let s2 = s1\<lparr>task_structs := (task_structs s1)(child \<mapsto> zero_task)\<rparr>;
       (stack, s3) \<leftarrow> allocate STACK_SIZE s2;
       if stack = 0 then None
       else do {
         let s4 = copy_stack stack (ts_stack parent) s3;
         (pgd, s5) \<leftarrow> allocate PAGE_SIZE s4;
         if pgd = 0 then do { s6 \<leftarrow> free_stack stack s5; s7 \<leftarrow> free_task child s6; Some (- 1, s7) }
         else do {
           let s6 = copy_kernel_half pgd (zero_page pgd s5);
           s7 \<leftarrow> update_task child (inherit parent stack pgd (f SP) (nr_threads s6))
             (s6\<lparr>nr_threads := nr_threads s6 + 1\<rparr>);
           s8 \<leftarrow> fork_copy_page_table_cow pgd (ts_pgd parent) s7;
           s9 \<leftarrow> for_each (share_file parent) [0..<MAX_FD] s8;
           let child_regs = stack + (regs - ts_stack parent);
           cf \<leftarrow> tframes s9 child_regs;
           let s10 = s9\<lparr>tframes := (tframes s9)(child_regs \<mapsto> (child_frame child cf)(SP := f SP))\<rparr>;
           s11 \<leftarrow> update_task child (\<lambda>c. c\<lparr>ts_thread := (ts_thread c)\<lparr>th_ra := ret_from_exception s10,
             th_sp := child_regs, th_sstatus := th_sstatus (ts_thread parent)\<rparr>\<rparr>) s10;
           s12 \<leftarrow> enqueue Run_queue child s11;
           Some (scast (nr_threads s6), s12)
         }
       }
     }
   }"

text \<open>The do-while loop over the ring of the run queue: the task with the process id.\<close>

partial_function (option) find_pid :: "kernel \<Rightarrow> u32 \<Rightarrow> u64 \<Rightarrow> u64 option option" where
  "find_pid s pid p =
     Option.bind (task_structs s p) (\<lambda>t.
       if ts_pid t = pid then Some (Some p)
       else if ts_next t = run_queue s then Some None
       else find_pid s pid (ts_next t))"

definition lookup_pid :: "u32 \<Rightarrow> kernel \<Rightarrow> u64 option option" where
  "lookup_pid pid s = (if run_queue s = 0 then Some None else find_pid s pid (run_queue s))"

partial_function (option) sys_waitpid :: "(kernel \<Rightarrow> kernel option) \<Rightarrow> u32 \<Rightarrow> kernel \<Rightarrow> (u64 \<times> kernel) option" where
  "sys_waitpid env pid s =
     Option.bind (lookup_pid pid s) (\<lambda>r.
       case r of
         None \<Rightarrow> Some (- 1, s)
       | Some p \<Rightarrow> Option.bind (task_structs s p) (\<lambda>t.
           if ts_state t = THREAD_ZOMBIE then Some (scast pid, s)
           else Option.bind (schedule env s) (sys_waitpid env pid)))"

text \<open>\<open>sys_exit\<close>: behind \<open>thread_exit\<close> there is an endless loop.\<close>

definition sys_exit :: "(kernel \<Rightarrow> kernel option) \<Rightarrow> kernel \<Rightarrow> kernel option" where
  "sys_exit env s = do { s1 \<leftarrow> thread_exit env s; None }"

definition sys_stop :: "u32 \<Rightarrow> kernel \<Rightarrow> (int \<times> kernel) option" where
  "sys_stop pid s = do {
     r \<leftarrow> lookup_pid pid s;
     (case r of
        None \<Rightarrow> Some (- 1, s)
      | Some p \<Rightarrow>
          if p = get_current s then Some (- 1, s)
          else do {
            s1 \<leftarrow> dequeue p s;
            s2 \<leftarrow> update_task p (\<lambda>t. t\<lparr>ts_state := THREAD_ZOMBIE, ts_next := zombie_queue s1\<rparr>) s1;
            Some (0, s2\<lparr>zombie_queue := p\<rparr>)
          })
   }"

partial_function (option) usleep_loop :: "(kernel \<Rightarrow> kernel option) \<Rightarrow> u64 \<Rightarrow> u64 \<Rightarrow> kernel \<Rightarrow> kernel option" where
  "usleep_loop env start diff s =
     (if diff \<le> get_ticks s - start then Some s else Option.bind (env s) (usleep_loop env start diff))"

definition sys_usleep :: "(kernel \<Rightarrow> kernel option) \<Rightarrow> u32 \<Rightarrow> kernel \<Rightarrow> (int \<times> kernel) option" where
  "sys_usleep env usec s = do {
     s1 \<leftarrow> usleep_loop env (get_ticks s) (ucast usec * (cpu_freq s div 1000000)) s;
     Some (0, s1)
   }"

definition sys_video_bmp_display ::
    "(kernel \<Rightarrow> kernel option) \<Rightarrow> u64 \<Rightarrow> u32 \<Rightarrow> u32 \<Rightarrow> kernel \<Rightarrow> kernel option" where
  "sys_video_bmp_display env bmp_image width height s = video_bmp_display env bmp_image width height s"

subsection \<open>Signals\<close>

definition signum_ok :: "u32 \<Rightarrow> bool" where "signum_ok signum \<longleftrightarrow> 0 \<le> sint signum \<and> sint signum < 32"

definition sys_signal :: "u32 \<Rightarrow> u64 \<Rightarrow> kernel \<Rightarrow> (int \<times> kernel) option" where
  "sys_signal signum handler s =
     (if \<not> signum_ok signum then Some (- 1, s)
      else do {
        s1 \<leftarrow> update_task (get_current s)
          (\<lambda>t. t\<lparr>ts_sig_handlers := (ts_sig_handlers t)[unat signum := handler]\<rparr>) s;
        Some (0, s1)
      })"

definition sys_kill :: "u32 \<Rightarrow> u32 \<Rightarrow> kernel \<Rightarrow> (int \<times> kernel) option" where
  "sys_kill pid signum s =
     (if \<not> signum_ok signum then Some (- 1, s)
      else do {
        r \<leftarrow> lookup_pid pid s;
        (case r of
           None \<Rightarrow> Some (- 1, s)
         | Some p \<Rightarrow> do {
             t \<leftarrow> task_structs s p;
             if ts_sig_handlers t ! unat signum \<noteq> 0 then do {
               s1 \<leftarrow> update_task p (\<lambda>t. t\<lparr>ts_pending_signals := ts_pending_signals t OR push_bit (unat signum) 1\<rparr>) s;
               Some (0, s1)
             } else do { (x, s1) \<leftarrow> sys_stop pid s; Some (- 1, s1) }
           })
      })"

definition sys_sigreturn :: "u64 \<Rightarrow> kernel \<Rightarrow> kernel option" where
  "sys_sigreturn regs s = do {
     t \<leftarrow> task_structs s (get_current s);
     if ts_saved_regs t = 0 then Some s
     else do {
       f \<leftarrow> tframes s (ts_saved_regs t);
       s1 \<leftarrow> kfree (ts_signal_stack t) (s\<lparr>tframes := (tframes s)(regs \<mapsto> f)\<rparr>);
       s2 \<leftarrow> kfree (ts_saved_regs t) s1;
       update_task (get_current s2) (\<lambda>t. t\<lparr>ts_saved_regs := 0, ts_signal_stack := 0\<rparr>)
         (s2\<lparr>tframes := (tframes s2)(ts_saved_regs t := None)\<rparr>)
     }
   }"

subsection \<open>Memory areas\<close>

definition check_vma_overlap :: "task_struct \<Rightarrow> u64 \<Rightarrow> u64 \<Rightarrow> bool" where
  "check_vma_overlap t start stop \<longleftrightarrow>
     (\<exists>v \<in> set (take (ts_vma_count t) (ts_vmas t)). start < vm_end v \<and> vm_start v < stop) \<or>
     (start < USER_STACK + STACK_SIZE \<and> USER_STACK < stop) \<or>
     start < ts_code_size t"

partial_function (option) vma_space_loop :: "task_struct \<Rightarrow> u64 \<Rightarrow> u64 \<Rightarrow> u64 option" where
  "vma_space_loop t len base =
     (if base + len \<le> USER_STACK then
        (if \<not> check_vma_overlap t base (base + len) then Some base else vma_space_loop t len (base + 4096))
      else Some 0)"

definition find_free_vma_space :: "task_struct \<Rightarrow> u64 \<Rightarrow> u64 option" where
  "find_free_vma_space t len = vma_space_loop t len 0x60000000"

definition add_vma :: "vm_area \<Rightarrow> task_struct \<Rightarrow> task_struct" where
  "add_vma v t = t\<lparr>ts_vmas := (ts_vmas t)[ts_vma_count t := v], ts_vma_count := ts_vma_count t + 1\<rparr>"

text \<open>MAP_POPULATE: a page at each offset; \<open>False\<close> when the memory is exhausted.\<close>

partial_function (option) populate_loop :: "u64 \<Rightarrow> u64 \<Rightarrow> u64 \<Rightarrow> u64 \<Rightarrow> u64 \<Rightarrow> kernel \<Rightarrow> (bool \<times> kernel) option" where
  "populate_loop pgd va_start len prot offset s =
     (if offset < len then
        Option.bind (allocate PAGE_SIZE s) (\<lambda>(p, s1).
          if p = 0 then Some (False, s1)
          else Option.bind (map_current pgd (va_start + offset) (virt_to_phys p) prot
              (set_page_ref_init (virt_to_phys p) (zero_page p s1)))
            (populate_loop pgd va_start len prot (offset + PAGE_SIZE)))
      else Some (True, s))"

definition sys_mmap :: "u64 \<Rightarrow> u64 \<Rightarrow> u32 \<Rightarrow> u32 \<Rightarrow> kernel \<Rightarrow> (u64 \<times> kernel) option" where
  "sys_mmap addr len prot flags s = do {
     t \<leftarrow> task_structs s (get_current s);
     let aligned_len = align len 4096;
     if 32 \<le> ts_vma_count t \<or> aligned_len = 0 then Some (- 1, s)
     else do {
       va \<leftarrow> (if addr = 0 \<or> addr AND 4095 \<noteq> 0 \<or> check_vma_overlap t addr (addr + aligned_len)
              then find_free_vma_space t aligned_len else Some addr);
       if va = 0 then Some (- 1, s)
       else do {
         s1 \<leftarrow> update_task (get_current s)
           (add_vma \<lparr>vm_start = va, vm_end = va + aligned_len, vm_prot = prot, vm_flags = flags\<rparr>) s;
         if flags AND MAP_POPULATE \<noteq> 0 then do {
           (ok, s2) \<leftarrow> populate_loop (ts_pgd t) va aligned_len (vma_page_prot prot) 0 s1;
           Some (if ok then va else - 1, s2)
         } else Some (va, s1)
       }
     }
   }"

subsection \<open>Files\<close>

definition free_fd :: "task_struct \<Rightarrow> nat option" where
  "free_fd t = List.find (\<lambda>i. ts_fds t ! i = 0) [0..<MAX_FD]"

definition sys_open :: "(kernel \<Rightarrow> kernel option) \<Rightarrow> u64 \<Rightarrow> u32 \<Rightarrow> kernel \<Rightarrow> (int \<times> kernel) option" where
  "sys_open env pathname flags s = do {
     t \<leftarrow> task_structs s (get_current s);
     (case free_fd t of
        None \<Rightarrow> Some (- 1, s)
      | Some fd \<Rightarrow> do {
          (p, s1) \<leftarrow> user_path env (flags AND O_CREAT \<noteq> 0) pathname s;
          (r, s2) \<leftarrow> vfs_open p flags s1;
          (case r of
             None \<Rightarrow> Some (- 1, s2)
           | Some fp \<Rightarrow> do {
               s3 \<leftarrow> update_task (get_current s2) (\<lambda>t. t\<lparr>ts_fds := (ts_fds t)[fd := fp]\<rparr>) s2;
               Some (int fd, s3)
             })
        })
   }"

text \<open>The common head of the calls on a descriptor: \<open>None\<close> is the error result.\<close>

definition fd_file :: "u32 \<Rightarrow> kernel \<Rightarrow> u64 option option" where
  "fd_file fd s =
     (if sint fd < 0 \<or> int MAX_FD \<le> sint fd then Some None
      else do {
        t \<leftarrow> task_structs s (get_current s);
        Some (if ts_fds t ! unat fd = 0 then None else Some (ts_fds t ! unat fd))
      })"

definition sys_close :: "u32 \<Rightarrow> kernel \<Rightarrow> (int \<times> kernel) option" where
  "sys_close fd s = do {
     r \<leftarrow> fd_file fd s;
     (case r of
        None \<Rightarrow> Some (- 1, s)
      | Some fp \<Rightarrow> do {
          (ret, s1) \<leftarrow> vfs_close fp s;
          if ret = 0 then do {
            s2 \<leftarrow> update_task (get_current s1) (\<lambda>t. t\<lparr>ts_fds := (ts_fds t)[unat fd := 0]\<rparr>) s1;
            Some (ret, s2)
          } else Some (ret, s1)
        })
   }"

definition sys_read :: "(kernel \<Rightarrow> kernel option) \<Rightarrow> u32 \<Rightarrow> u64 \<Rightarrow> u64 \<Rightarrow> kernel \<Rightarrow> (int \<times> kernel) option" where
  "sys_read env fd buf len s = do {
     r \<leftarrow> fd_file fd s;
     (case r of None \<Rightarrow> Some (- 1, s) | Some fp \<Rightarrow> vfs_read env fp buf len s)
   }"

definition sys_write :: "(kernel \<Rightarrow> kernel option) \<Rightarrow> u32 \<Rightarrow> u64 \<Rightarrow> u64 \<Rightarrow> kernel \<Rightarrow> (int \<times> kernel) option" where
  "sys_write env fd buf len s = do {
     r \<leftarrow> fd_file fd s;
     (case r of None \<Rightarrow> Some (- 1, s) | Some fp \<Rightarrow> vfs_write env fp buf len s)
   }"

definition sys_mkdir :: "(kernel \<Rightarrow> kernel option) \<Rightarrow> u64 \<Rightarrow> kernel \<Rightarrow> (int \<times> kernel) option" where
  "sys_mkdir env pathname s = do { (p, s1) \<leftarrow> user_path env True pathname s; vfs_mkdir p s1 }"

definition sys_mount :: "(kernel \<Rightarrow> kernel option) \<Rightarrow> u64 \<Rightarrow> u64 \<Rightarrow> kernel \<Rightarrow> (int \<times> kernel) option" where
  "sys_mount env target fsname s = do {
     (p, s1) \<leftarrow> user_path env False target s;
     (name, s2) \<leftarrow> load_string env fsname s1;
     vfs_mount p (reader name) s2
   }"

definition sys_chdir :: "(kernel \<Rightarrow> kernel option) \<Rightarrow> u64 \<Rightarrow> kernel \<Rightarrow> (int \<times> kernel) option" where
  "sys_chdir env pathname s = do {
     (p, s1) \<leftarrow> user_path env False pathname s;
     t \<leftarrow> task_structs s1 (get_current s1);
     r \<leftarrow> vfs_chdir (ts_cwd t) p s1;
     (case r of
        None \<Rightarrow> Some (- 1, s1)
      | Some d \<Rightarrow> do { s2 \<leftarrow> update_task (get_current s1) (\<lambda>t. t\<lparr>ts_cwd := d\<rparr>) s1; Some (0, s2) })
   }"

definition sys_lseek64 :: "u32 \<Rightarrow> u64 \<Rightarrow> u32 \<Rightarrow> kernel \<Rightarrow> (u64 \<times> kernel) option" where
  "sys_lseek64 fd offset whence s = do {
     r \<leftarrow> fd_file fd s;
     (case r of None \<Rightarrow> Some (- 1, s) | Some fp \<Rightarrow> vfs_lseek64 fp offset whence s)
   }"

definition sys_ioctl :: "(kernel \<Rightarrow> kernel option) \<Rightarrow> u32 \<Rightarrow> u64 \<Rightarrow> u64 \<Rightarrow> kernel \<Rightarrow> (int \<times> kernel) option" where
  "sys_ioctl env fd request args s = do {
     r \<leftarrow> fd_file fd s;
     (case r of None \<Rightarrow> Some (- 1, s) | Some fp \<Rightarrow> vfs_ioctl env fp request args s)
   }"

subsection \<open>The dispatcher\<close>

text \<open>The call proper, without those that write the frame themselves: the new \<open>a0\<close>.\<close>

definition syscall_result ::
    "(kernel \<Rightarrow> kernel option) \<Rightarrow> syscall_num \<Rightarrow> u64 \<Rightarrow> pt_regs \<Rightarrow> kernel \<Rightarrow> (u64 \<times> kernel) option" where
  "syscall_result env n regs f s =
     (let a0 = f A0; a1 = f A1; a2 = f A2; a3 = f A3
      in (case n of
        SYS_GETPID \<Rightarrow> do { v \<leftarrow> sys_getpid s; Some (v, s) }
      | SYS_UART_READ \<Rightarrow> sys_uart_read env a0 a1 s
      | SYS_UART_WRITE \<Rightarrow> sys_uart_write env a0 a1 s
      | SYS_EXEC \<Rightarrow> map_option of_result (sys_exec env a0 s)
      | SYS_FORK \<Rightarrow> sys_fork regs s
      | SYS_WAITPID \<Rightarrow> sys_waitpid env (ucast a0) s
      | SYS_EXIT \<Rightarrow> do { s1 \<leftarrow> sys_exit env s; None }
      | SYS_STOP \<Rightarrow> map_option of_result (sys_stop (ucast a0) s)
      | SYS_DISPLAY \<Rightarrow> do { s1 \<leftarrow> sys_video_bmp_display env a0 (ucast a1) (ucast a2) s; Some (a0, s1) }
      | SYS_USLEEP \<Rightarrow> map_option of_result (sys_usleep env (ucast a0) s)
      | SYS_SIGNAL \<Rightarrow> map_option of_result (sys_signal (ucast a0) a1 s)
      | SYS_SIGRETURN \<Rightarrow> do { s1 \<leftarrow> sys_sigreturn regs s; f1 \<leftarrow> tframes s1 regs; Some (f1 A0, s1) }
      | SYS_KILL \<Rightarrow> map_option of_result (sys_kill (ucast a0) (ucast a1) s)
      | SYS_MMAP \<Rightarrow> sys_mmap a0 a1 (ucast a2) (ucast a3) s
      | SYS_OPEN \<Rightarrow> map_option of_result (sys_open env a0 (ucast a1) s)
      | SYS_CLOSE \<Rightarrow> map_option of_result (sys_close (ucast a0) s)
      | SYS_READ \<Rightarrow> map_option of_result (sys_read env (ucast a0) a1 a2 s)
      | SYS_WRITE \<Rightarrow> map_option of_result (sys_write env (ucast a0) a1 a2 s)
      | SYS_MKDIR \<Rightarrow> map_option of_result (sys_mkdir env a0 s)
      | SYS_MOUNT \<Rightarrow> map_option of_result (sys_mount env a1 a2 s)
      | SYS_CHDIR \<Rightarrow> map_option of_result (sys_chdir env a0 s)
      | SYS_LSEEK64 \<Rightarrow> sys_lseek64 (ucast a0) a1 (ucast a2) s
      | SYS_IOCTL \<Rightarrow> map_option of_result (sys_ioctl env (ucast a0) a1 a2 s)))"

text \<open>\<open>skip_epc_add\<close>\<close>

definition skip_epc_add :: "syscall_num \<Rightarrow> u64 \<Rightarrow> bool" where
  "skip_epc_add n a0 \<longleftrightarrow> n = SYS_EXEC \<and> a0 \<noteq> - 1 \<or> n = SYS_SIGRETURN"

definition handle_syscall :: "(kernel \<Rightarrow> kernel option) \<Rightarrow> u64 \<Rightarrow> kernel \<Rightarrow> kernel option" where
  "handle_syscall env regs s0 = do {
     f \<leftarrow> tframes s0 regs;
     let s = enable_sum s0;
     (skip, s1) \<leftarrow>
       (case decode_syscall (f A7) of
          None \<Rightarrow> Some (False, put_text ''Unknown syscall\<newline>'' s)
        | Some n \<Rightarrow> do {
            (v, s1) \<leftarrow> syscall_result env n regs f s;
            s2 \<leftarrow> set_reg regs A0 v s1;
            Some (skip_epc_add n v, s2)
          });
     s2 \<leftarrow> (if skip then Some s1 else do { f1 \<leftarrow> tframes s1 regs; set_reg regs EPC (f1 EPC + 4) s1 });
     Some (disable_sum s2)
   }"

end
