(* ===== verification/Trap.thy ===== *)
theory Trap
  imports Syscall
begin

text \<open>
  src/lab7/src/trap.c: the trap handler behind \<open>handle_exception\<close> of start.S, and the delivery of
  signals on the way back to user mode.

  \<open>call\<close> runs the callback of a bottom half (theory Tasks), \<open>timer_task\<close> is the address of the timer
  callback, and \<open>isr\<close> is the effect of \<open>uart_isr\<close> (theory Uart) on the console streams.
\<close>

definition scause_interrupt :: u64 where "scause_interrupt = push_bit 63 1"

text \<open>A 32-bit little-endian store.\<close>

definition store32 :: "u64 \<Rightarrow> u32 \<Rightarrow> kernel \<Rightarrow> kernel" where
  "store32 a v s = s\<lparr>mem := (mem s)(a := ucast v, a + 1 := ucast (drop_bit 8 v),
     a + 2 := ucast (drop_bit 16 v), a + 3 := ucast (drop_bit 24 v))\<rparr>"

definition SIGNAL_STACK :: u64 where "SIGNAL_STACK = 0x50000000"

definition SIGTERM :: nat where "SIGTERM = 15"

definition handler_frame :: "u64 \<Rightarrow> pt_regs \<Rightarrow> pt_regs" where
  "handler_frame handler f = f(EPC := handler, RA := SIGNAL_STACK, SP := SIGNAL_STACK + STACK_SIZE)"

definition check_pending_signals :: "u64 \<Rightarrow> kernel \<Rightarrow> kernel option" where
  "check_pending_signals regs s = do {
     t \<leftarrow> task_structs s (get_current s);
     let handler = ts_sig_handlers t ! SIGTERM;
     if ts_pending_signals t = 0 then Some s
     else if handler = 0 \<or> ts_pending_signals t AND push_bit SIGTERM 1 = 0 then Some s
     else do {
       f \<leftarrow> tframes s regs;
       (saved, s1) \<leftarrow> allocate sizeof_pt_regs s;
       (stack, s2) \<leftarrow> allocate STACK_SIZE s1;
       if saved = 0 \<or> stack = 0 then None
       else do {
         s3 \<leftarrow> update_task (get_current s) (\<lambda>t. t\<lparr>ts_saved_regs := saved, ts_signal_stack := stack\<rparr>)
           (s2\<lparr>tframes := (tframes s2)(saved \<mapsto> f), mem := memzero stack (unat STACK_SIZE) (mem s2)\<rparr>);
         s4 \<leftarrow> map_pages SIGNAL_STACK STACK_SIZE (virt_to_phys stack) (PROT_USER_RW OR PTE_X) s3;
         let s5 = store32 (stack + 4) 0x00000073 (store32 stack 0x00b00893 s4);
         update_task (get_current s) (\<lambda>t. t\<lparr>ts_pending_signals := ts_pending_signals t AND NOT (push_bit SIGTERM 1)\<rparr>)
           (s5\<lparr>tframes := (tframes s5)(regs \<mapsto> handler_frame handler f)\<rparr>)
       }
     }
   }"

definition handle_external ::
    "(kernel \<Rightarrow> kernel option) \<Rightarrow> kernel \<Rightarrow> kernel option" where
  "handle_external isr s = do {
     let (irq, s1) = plic_claim (hart_id s) s;
     s2 \<leftarrow> (if irq = of_nat (UART_IRQ (debug s1)) then isr s1 else Some s1);
     Some (if irq \<noteq> 0 then plic_complete irq (hart_id s2) s2 else s2)
   }"

definition handle_interrupt ::
    "(kernel \<Rightarrow> kernel option) \<Rightarrow> (kernel \<Rightarrow> kernel option) \<Rightarrow> u64 \<Rightarrow> kernel \<Rightarrow> kernel option" where
  "handle_interrupt env isr cause s =
     (if cause = 5 then schedule env (sbi_set_timer (get_ticks s + cpu_freq s div 32) s)
      else if cause = 9 then handle_external isr s
      else Some s)"

text \<open>An unexpected exception stops the kernel.\<close>

definition handle_fault :: "(kernel \<Rightarrow> kernel option) \<Rightarrow> u64 \<Rightarrow> u64 \<Rightarrow> kernel \<Rightarrow> kernel option" where
  "handle_fault env regs cause s =
     (if cause = 8 then do { s1 \<leftarrow> handle_syscall env regs (irq_enable s); Some (irq_disable s1) }
      else if cause = 12 \<or> cause = 13 \<or> cause = 15 then page_fault_handler env cause s
      else None)"

definition do_trap ::
    "(kernel \<Rightarrow> kernel option) \<Rightarrow> (kernel \<Rightarrow> kernel option) \<Rightarrow> u64 \<Rightarrow>
     (u64 \<Rightarrow> u64 \<Rightarrow> kernel \<Rightarrow> kernel option) \<Rightarrow> u64 \<Rightarrow> kernel \<Rightarrow> kernel option" where
  "do_trap env isr timer_task call regs s = do {
     f \<leftarrow> tframes s regs;
     let cause = f SCAUSE AND 0xFFF;
     s1 \<leftarrow> (if f SCAUSE AND scause_interrupt \<noteq> 0
            then do { s' \<leftarrow> handle_interrupt env isr cause s; run_preemptive_tasks timer_task call s' }
            else handle_fault env regs cause s);
     f1 \<leftarrow> tframes s1 regs;
     if f1 SSTATUS AND push_bit 8 1 = 0 then check_pending_signals regs s1 else Some s1
   }"

end
