(* ===== verification/Kernel_Main.thy ===== *)
theory Kernel_Main
  imports Trap
begin

text \<open>
  src/lab7/main.c: the kernel shell and \<open>start_kernel\<close>.  The linker symbols and the code addresses
  of the threads are parameters.  The shell is one step per character (\<open>shell_char\<close>); its endless
  loop is \<open>shell_main_thread\<close>.
\<close>

subsection \<open>The command line\<close>

partial_function (option) skip_spaces :: "u8 list \<Rightarrow> nat \<Rightarrow> nat option" where
  "skip_spaces buf i =
     (if length buf \<le> i then None else if buf ! i = char_u8 (CHR '' '') then skip_spaces buf (Suc i) else Some i)"

text \<open>The loop that cuts the line at its spaces: the buffer and the offsets of the arguments.\<close>

partial_function (option) split_args :: "u8 list \<Rightarrow> nat \<Rightarrow> nat list \<Rightarrow> (u8 list \<times> nat list) option" where
  "split_args buf i args =
     (if length buf \<le> i then None
      else if buf ! i = 0 then Some (buf, args)
      else if buf ! i = char_u8 (CHR '' '') then
        Option.bind (skip_spaces (buf[i := 0]) (Suc i)) (\<lambda>j.
          split_args (buf[i := 0]) j (if length args < 5 then args @ [j] else args))
      else split_args buf (Suc i) args)"

definition arg_string :: "u8 list \<Rightarrow> nat list \<Rightarrow> nat \<Rightarrow> cptr" where
  "arg_string buf args k = (if k < length args then reader (drop (args ! k) buf) else lit '''')"

definition tab :: string where "tab = [CHR 0x09]"

definition help_text :: string where
  "help_text = ''Available commands:\<newline>'' @ tab @ ''help'' @ tab @ ''- show all commands.\<newline>'' @
     tab @ ''hello'' @ tab @ ''- print Hello World!\<newline>'' @
     tab @ ''exec'' @ tab @ ''- execute typed user-program.\<newline>''"

partial_function (option) wait_child :: "(kernel \<Rightarrow> kernel option) \<Rightarrow> u64 \<Rightarrow> kernel \<Rightarrow> kernel option" where
  "wait_child env child s =
     Option.bind (task_structs s child) (\<lambda>t.
       if ts_state t = THREAD_ZOMBIE then Some s
       else Option.bind (schedule env s) (wait_child env child))"

definition shell_exec :: "(kernel \<Rightarrow> kernel option) \<Rightarrow> cptr \<Rightarrow> kernel \<Rightarrow> kernel option" where
  "shell_exec env filename s = do {
     (child, s1) \<leftarrow> create_user_process filename s;
     if child \<noteq> 0 then wait_child env child s1
     else uart_printf ''[Kernel] Failed to execute %s\<newline>'' [S filename] s1
   }"

definition run_command :: "(kernel \<Rightarrow> kernel option) \<Rightarrow> u8 list \<Rightarrow> nat list \<Rightarrow> kernel \<Rightarrow> kernel option" where
  "run_command env buf args s = do {
     let cmd = reader buf;
     e \<leftarrow> strcmp cmd (lit ''exec'');
     h \<leftarrow> strcmp cmd (lit ''help'');
     l \<leftarrow> strcmp cmd (lit ''hello'');
     n \<leftarrow> strlen cmd;
     if e = 0 then shell_exec env (arg_string buf args 0) s
     else if h = 0 then Some (put_text help_text s)
     else if l = 0 then Some (put_text ''Hello World!\<newline>'' s)
     else if n \<noteq> 0 then uart_printf ''%s: Command not found!\<newline>'' [S cmd] s
     else Some s
   }"

text \<open>One character.  \<open>shell_input\<close> is the buffer up to \<open>input_idx\<close>; \<open>special\<close> is \<open>special_c\<close>.\<close>

definition prompt :: string where "prompt = ''opi-rv2> ''"

definition shell_char ::
    "(kernel \<Rightarrow> kernel option) \<Rightarrow> u8 \<Rightarrow> nat \<Rightarrow> kernel \<Rightarrow> (nat \<times> kernel) option" where
  "shell_char env c special s =
     (if c = 13 \<or> c = 10 then do {
        let s1 = put_bytes [10] s;
        (buf, args) \<leftarrow> split_args (shell_input s1 @ [0]) 0 [];
        s2 \<leftarrow> run_command env buf args s1;
        Some (special, put_text prompt (s2\<lparr>shell_input := []\<rparr>))
      }
      else if c = 127 \<or> c = 8 then
        Some (special, if shell_input s = [] then s
          else put_bytes [8, 32, 8] (s\<lparr>shell_input := butlast (shell_input s)\<rparr>))
      else if 32 \<le> c \<and> c \<le> 126 then
        (if special \<noteq> 0 then Some (if special + 1 = 3 then 0 else special + 1, s)
         else Some (special, if length (shell_input s) < 127
           then put_bytes [c] (s\<lparr>shell_input := shell_input s @ [c]\<rparr>) else s))
      else if c = 27 then Some (1, s)
      else Some (special, s))"

partial_function (option) shell_loop :: "(kernel \<Rightarrow> kernel option) \<Rightarrow> nat \<Rightarrow> kernel \<Rightarrow> kernel option" where
  "shell_loop env special s =
     Option.bind (uart_getc env s) (\<lambda>(c, s1).
       Option.bind (shell_char env c special s1) (\<lambda>(special', s2). shell_loop env special' s2))"

definition shell_main_thread :: "(kernel \<Rightarrow> kernel option) \<Rightarrow> kernel \<Rightarrow> kernel option" where
  "shell_main_thread env s = shell_loop env 0 (put_text prompt s)"

subsection \<open>Boot\<close>

definition register_or_panic :: "filesystem \<Rightarrow> kernel \<Rightarrow> kernel option" where
  "register_or_panic fs s = (case register_filesystem fs s of (r, s1) \<Rightarrow> if r \<noteq> 0 then None else Some s1)"

text \<open>The root file system.\<close>

definition setup_rootfs :: "kernel \<Rightarrow> kernel option" where
  "setup_rootfs s = do {
     (r, s1) \<leftarrow> allocate sizeof_mount s;
     if r = 0 then None
     else do {
       (ret, s2) \<leftarrow> tmpfs_setup_mount r (s1\<lparr>rootfs := r\<rparr>);
       if ret \<noteq> 0 then None
       else do {
         m \<leftarrow> mounts s2 r;
         Some (s2\<lparr>mounts := (mounts s2)(r \<mapsto> m\<lparr>m_mountpoint := m_root m\<rparr>), active_mounts := active_mounts s2 @ [r]\<rparr>)
       }
     }
   }"

text \<open>Everything before the call of \<open>idle\<close>, from which \<open>start_kernel\<close> does not return.\<close>

definition start_kernel ::
    "u64 \<Rightarrow> u64 \<Rightarrow> u64 \<Rightarrow> u64 \<Rightarrow> u64 \<Rightarrow> u64 \<Rightarrow> kernel \<Rightarrow> kernel option" where
  "start_kernel kstart kend idle_fn shell_fn hartid fdt_pa s = do {
     s1 \<leftarrow> uart_printf ''start: %x\<newline>'' [W kstart] s;
     s2 \<leftarrow> uart_printf ''end: %x\<newline>'' [W kend] s1;
     let fdt = phys_to_virt fdt_pa;
     let s3 = irq_enable (plic_init hartid (s2\<lparr>hart_id := hartid\<rparr>));
     s4 \<leftarrow> memory_init kstart kend fdt s3;
     (base, s5) \<leftarrow> cpio_init fdt (cpio_base s4) s4;
     s6 \<leftarrow> set_freq fdt (enable_timer_interrupt (s5\<lparr>cpio_base := phys_to_virt base\<rparr>));
     s7 \<leftarrow> register_or_panic tmpfs_driver (init_timer s6);
     s8 \<leftarrow> register_or_panic ramfs_driver s7;
     s9 \<leftarrow> register_or_panic devfs_driver s8;
     s10 \<leftarrow> setup_rootfs s9;
     (t, s11) \<leftarrow> thread_create idle_fn (put_text ''\<newline>Starting kernel ...\<newline>\<newline>'' (put_text ''\<newline>\<newline>----------\<newline>'' s10));
     (r1, s12) \<leftarrow> vfs_mkdir (kernel_path ''/ramfs'') (s11\<lparr>tp := t\<rparr>);
     (r2, s13) \<leftarrow> vfs_mount (kernel_path ''/ramfs'') (lit ''ramfs'') s12;
     (r3, s14) \<leftarrow> vfs_mkdir (kernel_path ''/dev'') s13;
     (r4, s15) \<leftarrow> vfs_mount (kernel_path ''/dev'') (lit ''devfs'') s14;
     (sh, s16) \<leftarrow> thread_create shell_fn s15;
     Some (sbi_set_timer (get_ticks s16 + cpu_freq s16 div 32) s16)
   }"

end
