(* ===== verification/Path_Resolution.thy ===== *)
theory Path_Resolution
  imports Vfs
begin

text \<open>
  \<open>vfs_lookup_from\<close> of src/lab7/src/vfs.c against a reference: the path is cut into words at its
  slashes, empty words are dropped, words are cut to fifteen characters, and the vnode is found
  by one \<open>lookup_component\<close> per word from the root or the given vnode.
\<close>

subsection \<open>The reference\<close>

fun path_words :: "u8 list \<Rightarrow> u8 list list" where
  "path_words [] = [[]]"
| "path_words (c # cs) =
     (if c = slash then [] # path_words cs
      else (c # hd (path_words cs)) # tl (path_words cs))"

definition components :: "u8 list \<Rightarrow> u8 list list" where
  "components bs = map (take (MAX_NAME - 1)) (filter (\<lambda>w. w \<noteq> []) (path_words bs))"

fun walk_components :: "kernel \<Rightarrow> u64 \<Rightarrow> u8 list list \<Rightarrow> u64 option option" where
  "walk_components s v [] = Some (Some v)"
| "walk_components s v (c # cs) =
     Option.bind (lookup_component s v c) (\<lambda>r.
       case r of None \<Rightarrow> Some None | Some v' \<Rightarrow> walk_components s v' cs)"

lemma walk_components_append:
  "walk_components s v (cs @ ds) = Option.bind (walk_components s v cs) (\<lambda>r.
     case r of None \<Rightarrow> Some None | Some v' \<Rightarrow> walk_components s v' ds)"
  by (induction cs arbitrary: v) (auto split: option.splits bind_splits)

lemma path_words_plain: "slash \<notin> set w \<Longrightarrow> path_words w = [w]"
  by (induction w) auto

lemma path_words_slash: "slash \<notin> set w \<Longrightarrow> path_words (w @ slash # r) = w # path_words r"
  by (induction w) auto

lemma components_slashes [simp]: "components (replicate n slash @ r) = components r"
  by (induction n) (auto simp: components_def)

lemma components_nil [simp]: "components [] = []"
  by (simp add: components_def)

lemma components_word:
  assumes "w \<noteq> []" and "slash \<notin> set w" and "r = [] \<or> hd r = slash"
  shows "components (w @ r) = take (MAX_NAME - 1) w # components r"
proof (cases r)
  case Nil
  then show ?thesis using assms(1) path_words_plain [OF assms(2)] by (simp add: components_def)
next
  case (Cons c r')
  then show ?thesis using assms(1,3) path_words_slash [OF assms(2), of r'] by (simp add: components_def)
qed

subsection \<open>The scanners\<close>

lemma reader_drop: "drop i bs = c # r \<Longrightarrow> reader bs i = c \<and> drop (Suc i) bs = r"
  using nth_via_drop [of i bs c r] tl_drop [of i bs] by (cases "i < length bs") (auto simp: reader_def drop_Suc)

lemma reader_end: "drop i bs = [] \<Longrightarrow> reader bs i = 0"
  by (simp add: reader_def)

lemma cstr_reader: "0 \<notin> set bs \<Longrightarrow> cstr (reader bs) bs"
  by (auto simp: cstr_def reader_def)

lemma slash_not_0 [simp]: "slash \<noteq> 0" "0 \<noteq> slash"
  by (simp_all add: slash_def char_u8_def)

lemma skip_slashes_run:
  "drop i bs = replicate n slash @ r \<Longrightarrow> r = [] \<or> hd r \<noteq> slash \<Longrightarrow> skip_slashes (reader bs) i = Some (i + n)"
proof (induction n arbitrary: i)
  case 0
  then have "reader bs i \<noteq> slash" using reader_drop [of i bs] reader_end [of i bs] by (cases r) auto
  then show ?case by (subst skip_slashes.simps) simp
next
  case (Suc n)
  then have "reader bs i = slash" "drop (Suc i) bs = replicate n slash @ r" using reader_drop [of i bs slash] by simp_all
  then show ?case using Suc.IH [of "Suc i"] Suc.prems(2) by (subst skip_slashes.simps) simp
qed

lemma take_component_run:
  assumes "r = [] \<or> hd r = slash"
  shows "drop i bs = w @ r \<Longrightarrow> slash \<notin> set w \<Longrightarrow> 0 \<notin> set w \<Longrightarrow> length acc \<le> MAX_NAME - 1 \<Longrightarrow>
    take_component (reader bs) i acc = Some (acc @ take (MAX_NAME - 1 - length acc) w, i + length w)"
proof (induction w arbitrary: i acc)
  case Nil
  then have "reader bs i = slash \<or> reader bs i = 0"
    using assms reader_drop [of i bs] reader_end [of i bs] by (cases r) auto
  then show ?case by (subst take_component.simps) auto
next
  case (Cons c w)
  then have c: "reader bs i = c" "drop (Suc i) bs = w @ r" using reader_drop [of i bs c] by simp_all
  have ne: "c \<noteq> slash" "c \<noteq> 0" using Cons.prems(2,3) by auto
  show ?case
  proof (cases "length acc < MAX_NAME - 1")
    case True
    then have "take (MAX_NAME - 1 - length acc) (c # w) = c # take (MAX_NAME - 1 - Suc (length acc)) w"
      by (simp add: take_Cons')
    then show ?thesis using Cons.IH [of "Suc i" "acc @ [c]"] Cons.prems(2,3) True c ne
      by (subst take_component.simps) simp
  next
    case False
    then show ?thesis using Cons.IH [of "Suc i" acc] Cons.prems c ne
      by (subst take_component.simps) simp
  qed
qed

lemma cut_word:
  obtains w n r where "bs = w @ replicate n slash @ r" and "slash \<notin> set w"
    and "r = [] \<or> hd r \<noteq> slash" and "r \<noteq> [] \<Longrightarrow> 0 < n"
proof -
  define t where "t = dropWhile (\<lambda>c. c \<noteq> slash) bs"
  have t: "t = [] \<or> hd t = slash" unfolding t_def using hd_dropWhile [of "\<lambda>c. c \<noteq> slash" bs] by auto
  have rep: "takeWhile ((=) slash) t = replicate (length (takeWhile ((=) slash) t)) slash"
    by (metis (full_types) replicate_length_same set_takeWhileD)
  show thesis
  proof (rule that [of "takeWhile (\<lambda>c. c \<noteq> slash) bs" "length (takeWhile ((=) slash) t)" "dropWhile ((=) slash) t"])
    show "bs = takeWhile (\<lambda>c. c \<noteq> slash) bs @ replicate (length (takeWhile ((=) slash) t)) slash @ dropWhile ((=) slash) t"
      using rep by (metis t_def takeWhile_dropWhile_id)
    show "slash \<notin> set (takeWhile (\<lambda>c. c \<noteq> slash) bs)" using set_takeWhileD by fastforce
    show "dropWhile ((=) slash) t = [] \<or> hd (dropWhile ((=) slash) t) \<noteq> slash"
      using hd_dropWhile [of "(=) slash" t] by metis
    show "0 < length (takeWhile ((=) slash) t)" if "dropWhile ((=) slash) t \<noteq> []"
      using that t by (cases t) auto
  qed
qed

lemma walk_path_components:
  "drop i bs = r \<Longrightarrow> 0 \<notin> set r \<Longrightarrow> r = [] \<or> hd r \<noteq> slash \<Longrightarrow>
    walk_path s (reader bs) i v = walk_components s v (components r)"
proof (induction "length r" arbitrary: i r v rule: less_induct)
  case less
  show ?case
  proof (cases "r = []")
    case True
    then show ?thesis using reader_end [of i bs] less.prems(1) by (subst walk_path.simps) simp
  next
    case False
    obtain w n r' where w: "r = w @ replicate n slash @ r'" "slash \<notin> set w" "r' = [] \<or> hd r' \<noteq> slash" "r' \<noteq> [] \<Longrightarrow> 0 < n"
      using cut_word by blast
    have w0: "w \<noteq> []"
    proof
      assume "w = []"
      then show False using w False less.prems(3) by (cases n) auto
    qed
    have h: "replicate n slash @ r' = [] \<or> hd (replicate n slash @ r') = slash" using w(4) by (cases n) auto
    have nz: "reader bs i \<noteq> 0"
      using reader_drop [of i bs "hd r" "tl r"] False less.prems(1,2) by (metis list.collapse list.set_sel(1))
    have tc: "take_component (reader bs) i [] = Some (take (MAX_NAME - 1) w, i + length w)"
      using take_component_run [OF h, of i bs w "[]"] w less.prems(1,2) by simp
    have d: "drop (i + length w) bs = replicate n slash @ r'" "drop (i + length w + n) bs = r'"
      using less.prems(1) w(1) by (metis append_eq_conv_conj drop_drop add.commute, metis append.assoc append_eq_conv_conj drop_drop length_append length_replicate add.commute add.left_commute)
    have sk: "skip_slashes (reader bs) (i + length w) = Some (i + length w + n)"
      using skip_slashes_run [OF d(1) w(3)] .
    have t0: "take (MAX_NAME - 1) w \<noteq> []" using w0 by (simp add: MAX_NAME_def)
    have "walk_path s (reader bs) (i + length w + n) v' = walk_components s v' (components r')" for v'
      using less.hyps [OF _ d(2), of v'] w w0 less.prems(2) by (cases w) auto
    then have IH: "walk_path s (reader bs) (i + length w + n) = (\<lambda>v'. walk_components s v' (components r'))"
      by (rule ext)
    have c: "components r = take (MAX_NAME - 1) w # components r'"
      using components_word [OF w0 w(2) h] w(1) by simp
    show ?thesis using nz tc sk t0 IH c by (subst walk_path.simps) simp
  qed
qed

subsection \<open>The property\<close>

text \<open>C11: Path resolution equals the reference on every NUL-terminated path: it returns whenever the
  lookups of the components do, repeated and trailing slashes do not matter, an absolute path starts
  at the root of the mounted root file system, a relative one at the given vnode, the first component
  that is not found ends the walk with the error, and the empty path is an error.\<close>

theorem vfs_lookup_components:
  assumes "p \<noteq> 0" and "0 \<notin> set bs"
  shows "vfs_lookup_from base (p, reader bs) s =
    (if bs = [] then Some None
     else Option.bind (if hd bs = slash then root_vnode s else Some base)
       (\<lambda>v. walk_components s v (components bs)))"
proof (cases bs)
  case Nil
  then show ?thesis by (simp add: vfs_lookup_from_def reader_def)
next
  case (Cons c cs)
  have c0: "reader bs 0 = c" "c \<noteq> 0" using Cons assms(2) by (auto simp: reader_def)
  obtain w n r where w: "bs = w @ replicate n slash @ r" "slash \<notin> set w" "r = [] \<or> hd r \<noteq> slash" "r \<noteq> [] \<Longrightarrow> 0 < n"
    using cut_word by blast
  show ?thesis
  proof (cases "c = slash")
    case True
    then have "w = []" using w Cons by (cases w) auto
    then have d: "drop 0 bs = replicate n slash @ r" "drop n bs = r" "0 \<notin> set r" using w assms(2) by auto
    have "walk_path s (reader bs) n v = walk_components s v (components bs)" for v
      using walk_path_components [OF d(2,3) w(3), of s v] d(1) by simp
    then show ?thesis using True c0 assms(1) Cons skip_slashes_run [OF d(1) w(3)]
      by (simp add: vfs_lookup_from_def)
  next
    case False
    then show ?thesis using c0 assms Cons walk_path_components [of 0 bs bs s base] by (simp add: vfs_lookup_from_def)
  qed
qed

lemma vfs_lookup_components_witness:
  "vfs_lookup_from 9 (1, reader (str8 ''/.//./''))
     (blank_kernel\<lparr>mounts := [1 \<mapsto> \<lparr>m_root = 5, m_fs = tmpfs_driver, m_mountpoint = 0\<rparr>], rootfs := 1\<rparr>) = Some (Some 5)"
proof -
  define s where "s = blank_kernel\<lparr>mounts := [1 \<mapsto> \<lparr>m_root = 5, m_fs = tmpfs_driver, m_mountpoint = 0\<rparr>], rootfs := 1\<rparr>"
  have c: "components (str8 ''/.//./'') = [str8 ''.'', str8 ''.'']"
    by (simp add: components_def str8_def slash_def char_u8_def MAX_NAME_def)
  have "0 \<notin> set (str8 ''.'')" "CHR 0x00 \<notin> set ''.''" by (simp_all add: str8_nz)
  then have "strcmp (reader (str8 ''.'')) (lit ''.'') = Some 0"
    using strcmp_eq_0 [OF cstr_reader lit_str8] by blast
  then have "lookup_component s 5 (str8 ''.'') = Some (Some 5)" by (simp add: lookup_component_def)
  moreover have "root_vnode s = Some 5" by (simp add: s_def root_vnode_def)
  ultimately show ?thesis unfolding s_def [symmetric]
    using vfs_lookup_components [of 1 "str8 ''/.//./''" 9 s] c by (simp add: str8_def slash_def char_u8_def)
qed

end
