(* ===== verification/Page_Tables.thy ===== *)
theory Page_Tables
  imports User_Access
begin

text \<open>
  What the page tables of a task mean: the tree of tables below its \<open>pgd\<close>, and the map from the
  user pages to their leaf entries.  The lemmas show that \<open>pagewalk\<close> updates that map at one page
  and touches no other memory, that a demand fault makes the access that caused it possible,
  and that the copy made on a write to a shared page is private.
\<close>

subsection \<open>Page-aligned addresses\<close>

definition paged :: "u64 \<Rightarrow> bool" where "paged t \<longleftrightarrow> 4096 dvd unat t"

lemma pagedE:
  assumes "paged t"
  obtains k where "unat t = 4096 * k" and "k < 2 ^ 52"
  using assms unat_lt64 [of t] unfolding paged_def by (auto elim!: dvdE)

lemma paged_add:
  assumes "paged t" and "n < 4096"
  shows "unat (t + of_nat n) = unat t + n"
proof -
  obtain k where k: "unat t = 4096 * k" "k < 2 ^ 52" using pagedE [OF assms(1)] by blast
  have "unat (of_nat n :: u64) = n" using assms(2) by (simp add: unat_of_nat64)
  then show ?thesis using k assms(2) by (simp add: unat_word_ariths)
qed

lemma entry_addr_unat: "paged t \<Longrightarrow> i < 512 \<Longrightarrow> unat (entry_addr t i) = unat t + 8 * i"
  unfolding entry_addr_def using paged_add [of t "8 * i"] by simp

lemma entry_addr_aligned: "paged t \<Longrightarrow> i < 512 \<Longrightarrow> aligned8 (entry_addr t i)"
proof -
  assume a: "paged t" "i < 512"
  obtain k where "unat t = 4096 * k" using pagedE [OF a(1)] by blast
  then have "unat (entry_addr t i) = 8 * (512 * k + i)" using entry_addr_unat [OF a] by simp
  then show ?thesis unfolding aligned8_def by simp
qed

lemma page_split:
  fixes a b i j :: nat
  assumes "4096 dvd a" and "4096 dvd b" and "i < 4096" and "j < 4096" and "a + i = b + j"
  shows "a = b \<and> i = j"
proof -
  have "(a + i) div 4096 = a div 4096" "(b + j) div 4096 = b div 4096" using assms(1-4) by auto
  then have "a div 4096 = b div 4096" using assms(5) by metis
  then have "a = b" using assms(1,2) by (metis dvd_mult_div_cancel)
  then show ?thesis using assms(5) by simp
qed

lemma entry_addr_inj:
  assumes "paged t" and "paged u" and "i < 512" and "j < 512"
  shows "entry_addr t i = entry_addr u j \<longleftrightarrow> t = u \<and> i = j"
proof
  assume "entry_addr t i = entry_addr u j"
  then have "unat t + 8 * i = unat u + 8 * j" using assms entry_addr_unat by metis
  then have "unat t = unat u \<and> 8 * i = 8 * j"
    using assms unfolding paged_def by (intro page_split) auto
  then show "t = u \<and> i = j" by (simp add: word_unat_eq_iff)
qed simp

text \<open>The bytes of a page.\<close>

lemma in_page_iff:
  assumes "paged p"
  shows "unat (x - p) < 4096 \<longleftrightarrow> unat p \<le> unat x \<and> unat x < unat p + 4096"
proof -
  obtain k where k: "unat p = 4096 * k" "k < 2 ^ 52" using pagedE [OF assms] by blast
  show ?thesis
  proof (cases "p \<le> x")
    case True
    then show ?thesis using unat_sub [OF True] by (auto simp: word_le_nat_alt)
  next
    case False
    then have lt: "unat x < unat p" by (simp add: word_le_nat_alt)
    have "unat p \<le> 2 ^ 64 - 4096" using k by simp
    moreover have "unat (x - p) = unat x + 2 ^ 64 - unat p"
      using lt by (simp add: unat_sub_if')
    ultimately show ?thesis using lt by simp
  qed
qed

lemma pages_apart:
  assumes "paged p" and "paged q" and "unat (x - p) < 4096" and "unat (x - q) < 4096"
  shows "p = q"
proof -
  have "unat x = unat p + (unat x - unat p)" "unat x = unat q + (unat x - unat q)"
    using assms in_page_iff by auto
  moreover have "unat x - unat p < 4096" "unat x - unat q < 4096" using assms in_page_iff by fastforce+
  ultimately have "unat p = unat q"
    using page_split [of "unat p" "unat q"] assms(1,2) unfolding paged_def by metis
  then show ?thesis by (simp add: word_unat_eq_iff)
qed

lemma entry_in_page:
  assumes "paged t" and "i < 512" and "n < 8"
  shows "unat (entry_addr t i + n - t) < 4096"
proof -
  have n: "unat n < 8" using assms(3) by (simp add: word_less_nat_alt)
  have "entry_addr t i + n - t = of_nat (8 * i + unat n)" by (simp add: entry_addr_def)
  then have "unat (entry_addr t i + n - t) = 8 * i + unat n"
    using n assms(2) by (simp add: unat_of_nat64 del: of_nat_add of_nat_mult)
  then show ?thesis using n assms(2) by simp
qed

subsection \<open>Reading and writing entries\<close>

lemma mem_pte_set: "mem (pte_set t i v s) = store64 (entry_addr t i) v (mem s)"
  by (simp add: pte_set_def)

lemma pte_get_store:
  assumes "paged t" and "paged u" and "i < 512" and "j < 512"
  shows "pte_get (store64 (entry_addr t i) v m) u j = (if t = u \<and> i = j then v else pte_get m u j)"
proof (cases "t = u \<and> i = j")
  case True
  then show ?thesis by (simp add: pte_get_def load64_store64_same)
next
  case False
  then have "entry_addr t i \<noteq> entry_addr u j" using assms by (simp add: entry_addr_inj)
  then show ?thesis
    using False assms by (auto simp: pte_get_def load64_store64_other entry_addr_aligned)
qed

lemma pte_get_cong:
  assumes "paged t" and "i < 512" and "\<And>x. unat (x - t) < 4096 \<Longrightarrow> m x = m' x"
  shows "pte_get m t i = pte_get m' t i"
  unfolding pte_get_def using assms by (intro load64_cong) (simp add: entry_in_page)

lemma pte_get_zero:
  assumes "paged p" and "paged t" and "i < 512"
  shows "pte_get (memzero p 4096 m) t i = (if t = p then 0 else pte_get m t i)"
proof (cases "t = p")
  case True
  have "pte_get (memzero p 4096 m) t i = pte_get (\<lambda>_. 0) t i"
    using assms True by (intro pte_get_cong) (simp_all add: memzero_eq)
  then show ?thesis using True by (simp add: pte_get_def load64_def)
next
  case False
  have "pte_get (memzero p 4096 m) t i = pte_get m t i"
    using assms False pages_apart [of p t] by (intro pte_get_cong) (auto simp: memzero_eq)
  then show ?thesis using False by simp
qed

lemma store_outside:
  assumes "paged t" and "i < 512" and "\<not> unat (x - t) < 4096"
  shows "store64 (entry_addr t i) v m x = m x"
proof (rule ccontr)
  assume "store64 (entry_addr t i) v m x \<noteq> m x"
  then have l: "x - entry_addr t i < 8" by (auto simp: store64_def split: if_splits)
  then have "unat (entry_addr t i + (x - entry_addr t i) - t) < 4096"
    using assms(1,2) entry_in_page by blast
  then show False using assms(3) by simp
qed

subsection \<open>Entries\<close>

lemma valid_iff: "valid e \<longleftrightarrow> bit e 0"
  by (simp add: valid_def PTE_V_def and_one_eq odd_iff_mod_2_eq_one [symmetric] bit_0)

lemma valid_0 [simp]: "\<not> valid 0"
  by (simp add: valid_iff)

lemma paged_plus: "paged a \<Longrightarrow> paged b \<Longrightarrow> paged (a + b)"
  unfolding paged_def unat_word_ariths by (intro dvd_mod dvd_add) simp_all

lemma paged_diff: "paged a \<Longrightarrow> paged b \<Longrightarrow> paged (a - b)"
  unfolding paged_def unat_sub_if' by (auto intro!: dvd_diff_nat)

lemma paged_OFFSET: "paged PAGE_OFFSET"
  by (simp add: paged_def PAGE_OFFSET_def)

lemma paged_push: "paged (push_bit 12 x)"
  unfolding paged_def by (simp add: push_bit_eq_mult unat_word_ariths dvd_mod)

lemma paged_take: "paged p \<longleftrightarrow> take_bit 12 p = 0"
  unfolding paged_def
  by (simp add: word_unat_eq_iff unsigned_take_bit_eq take_bit_eq_mod dvd_eq_mod_eq_0 unat_mod)

lemma next_table_paged: "paged (next_table e)"
  unfolding next_table_def phys_to_virt_def pte_pa_def by (intro paged_plus paged_push paged_OFFSET)

text \<open>An entry has ten flag bits below the number of the page.\<close>

definition page_num :: "u64 \<Rightarrow> u64" where "page_num pa = push_bit 12 (drop_bit 12 pa)"

lemma MAKE_PTE_pa: "f AND NOT 0x3FF = 0 \<Longrightarrow> pte_pa (MAKE_PTE pa f) = page_num pa"
proof -
  assume f: "f AND NOT 0x3FF = 0"
  have m: "(0x3FF :: u64) = mask 10" by (simp add: mask_eq_exp_minus_1)
  have nf: "\<not> bit f n" if "10 \<le> n" "n < 64" for n
  proof -
    have "bit (f AND NOT (mask 10)) n = False" using f unfolding m by simp
    then show ?thesis using that by (simp add: bit_simps)
  qed
  show ?thesis
  proof (rule bit_word_eqI)
    fix n :: nat
    assume "n < LENGTH(64)"
    then show "bit (pte_pa (MAKE_PTE pa f)) n = bit (page_num pa) n"
      using nf [of "n - 2"] by (auto simp: pte_pa_def MAKE_PTE_def page_num_def bit_simps)
  qed
qed

lemma MAKE_PTE_flags: "f AND NOT 0x3FF = 0 \<Longrightarrow> MAKE_PTE pa f AND 0x3FF = f"
proof -
  assume f: "f AND NOT 0x3FF = 0"
  have m: "(0x3FF :: u64) = mask 10" by (simp add: mask_eq_exp_minus_1)
  show ?thesis
  proof (rule bit_word_eqI)
    fix n :: nat
    assume n: "n < LENGTH(64)"
    have "bit (f AND NOT (mask 10)) n = False" using f unfolding m by simp
    then show "bit (MAKE_PTE pa f AND 0x3FF) n = bit f n"
      unfolding m using n by (auto simp: MAKE_PTE_def bit_simps)
  qed
qed

lemma page_num_phys: "paged p \<Longrightarrow> page_num (virt_to_phys p) = virt_to_phys p"
proof -
  assume "paged p"
  then have "take_bit 12 (virt_to_phys p) = 0"
    unfolding paged_take [symmetric] virt_to_phys_def using paged_diff paged_OFFSET by blast
  then show ?thesis unfolding page_num_def by (metis add.right_neutral bits_ident)
qed

lemma phys_virt [simp]: "phys_to_virt (virt_to_phys p) = p" "virt_to_phys (phys_to_virt p) = p"
  by (simp_all add: phys_to_virt_def virt_to_phys_def)

lemma table_entry:
  assumes "paged p"
  shows "valid (MAKE_PTE (virt_to_phys p) PTE_V)" "next_table (MAKE_PTE (virt_to_phys p) PTE_V) = p"
proof -
  have "PTE_V AND NOT 0x3FF = 0" by (simp add: PTE_V_def)
  then show "next_table (MAKE_PTE (virt_to_phys p) PTE_V) = p"
    using assms by (simp add: next_table_def MAKE_PTE_pa page_num_phys)
  show "valid (MAKE_PTE (virt_to_phys p) PTE_V)" by (simp add: valid_iff MAKE_PTE_def PTE_V_def bit_simps)
qed

subsection \<open>A fresh page\<close>

text \<open>The allocator hands out page-aligned pages.\<close>

definition kernel_inv :: "kernel \<Rightarrow> bool" where
  "kernel_inv s \<longleftrightarrow> slab_inv (heap s)"

abbreviation allotted :: "kernel \<Rightarrow> u64 set" where "allotted s \<equiv> fst ` live (heap s)"

lemma paged_page_addr: "paged (base_addr b) \<Longrightarrow> paged (page_addr b i)"
proof -
  assume "paged (base_addr b)"
  moreover have "4096 dvd (unat (base_addr b) + unat (of_nat i * 4096 :: u64)) mod 2 ^ 64"
  proof -
    have "4096 dvd unat (of_nat i * 4096 :: u64)"
      by (simp add: unat_word_ariths dvd_mod)
    then show ?thesis using calculation unfolding paged_def by (intro dvd_mod) auto
  qed
  ultimately show ?thesis by (simp add: page_addr_def paged_def unat_word_ariths)
qed

lemma slab_alloc_paged:
  assumes s: "slab_inv s" and sz: "2048 < sz" "unat sz \<le> 2 ^ 63"
    and e: "slab_alloc sz s = Some (p, s')" and p: "p \<noteq> 0"
  shows "paged p"
proof -
  have b: "paged (base_addr (page_allocator s))"
    using s by (simp add: slab_inv_def buddy_inv_def region_ok_def paged_def)
  obtain r where o: "alloc_order sz 0 = Some r" using alloc_order_ok [of 0 sz] sz(2) by auto
  show ?thesis
  proof (cases "has_room (page_allocator s) r")
    case True
    obtain idx b' where a: "buddy_alloc r (page_allocator s) = Some (page_addr (page_allocator s) idx, b')"
      "base_addr b' = base_addr (page_allocator s)"
      using slab_page_alloc [OF s True] by blast
    have "p = page_addr (page_allocator s) idx \<and> s' = s\<lparr>page_allocator := b'\<rparr>"
      using e sz(1) a(1) o by (simp add: slab_alloc_def)
    then show ?thesis using b paged_page_addr by simp
  next
    case False
    then have "p = 0" using e sz(1) o buddy_alloc_full by (simp add: slab_alloc_def)
    then show ?thesis using p by simp
  qed
qed

text \<open>What any object of the kernel heap may rely on.\<close>

lemma allocate_new:
  assumes "kernel_inv s" and "unat sz \<le> 2 ^ 63" and "allocate sz s = Some (p, s')" and "p \<noteq> 0"
  obtains h m where "s' = s\<lparr>heap := h\<rparr>" and "kernel_inv s'" and "unat sz \<le> m"
    and "live h = insert (p, m) (live (heap s))" and "p \<notin> allotted s" and "reserved h = reserved (heap s)"
proof -
  obtain h where h: "slab_alloc sz (heap s) = Some (p, h)" "s' = s\<lparr>heap := h\<rparr>"
    using assms(3) by (auto simp: allocate_def)
  have i: "slab_inv (heap s)" using assms(1) by (simp add: kernel_inv_def)
  obtain m where m: "slab_inv h" "reserved h = reserved (heap s)" "unat sz \<le> m"
    "live h = insert (p, m) (live (heap s))" "(p, m) \<notin> live (heap s)"
    using kmem.alloc_ok [OF i assms(2)] h(1) assms(4) by auto
  have "p \<notin> allotted s"
  proof
    assume "p \<in> allotted s"
    then obtain n where n: "(p, n) \<in> live (heap s)" by auto
    then have "n = m" using kmem.region_unique [OF m(1), of p n m] m(4) by simp
    then show False using m(5) n by simp
  qed
  then show thesis using h(2) m by (intro that [of h m]) (simp_all add: kernel_inv_def)
qed

lemma live_bound: "slab_inv h \<Longrightarrow> (p, m) \<in> live h \<Longrightarrow> p \<noteq> 0 \<and> 0 < m \<and> unat p + m \<le> 2 ^ 64"
  using live_of_region [of "page_allocator h" p m "all_free h"] by (simp add: slab_inv_def live_def)

lemma allocate_cases:
  assumes "kernel_inv s" and "unat sz \<le> 2 ^ 63"
  obtains (fail) h where "allocate sz s = Some (0, s\<lparr>heap := h\<rparr>)" and "slab_inv h" and "live h = live (heap s)"
  | (new) p h m where "allocate sz s = Some (p, s\<lparr>heap := h\<rparr>)" and "slab_inv h" and "p \<noteq> 0"
      and "live h = insert (p, m) (live (heap s))" and "p \<notin> allotted s"
proof -
  have i: "slab_inv (heap s)" using assms(1) by (simp add: kernel_inv_def)
  obtain p h where h: "slab_alloc sz (heap s) = Some (p, h)" "slab_inv h" "p = 0 \<longrightarrow> live h = live (heap s)"
    using slab_alloc_ok [OF i assms(2)] by blast
  have a: "allocate sz s = Some (p, s\<lparr>heap := h\<rparr>)" using h(1) by (simp add: allocate_def)
  show thesis
  proof (cases "p = 0")
    case True
    then show thesis using a h by (intro fail [of h]) simp_all
  next
    case False
    obtain k m where k: "s\<lparr>heap := h\<rparr> = s\<lparr>heap := k\<rparr>" "live k = insert (p, m) (live (heap s))" "p \<notin> allotted s"
      using allocate_new [OF assms a False] by metis
    have "k = h" using arg_cong [OF k(1), of heap] by simp
    then show thesis using a h(2) False k(2,3) by (intro new [of p h m]) simp_all
  qed
qed

lemma live_unique:
  assumes "slab_inv h" and "(p, m) \<in> live h" and "(p, n) \<in> live h"
  shows "m = n"
proof (rule ccontr)
  assume "m \<noteq> n"
  then have "region (p, m) \<inter> region (p, n) = {}" using kmem.regions_disjoint [OF assms] by simp
  then show False using live_bound [OF assms(1,2)] live_bound [OF assms(1,3)] by (auto simp: region_def)
qed

lemma kfree_live:
  assumes "kernel_inv s" and "(p, m) \<in> live (heap s)"
  obtains h where "kfree p s = Some (s\<lparr>heap := h\<rparr>)" and "kernel_inv (s\<lparr>heap := h\<rparr>)"
    and "live h = live (heap s) - {(p, m)}"
proof -
  have i: "slab_inv (heap s)" using assms(1) by (simp add: kernel_inv_def)
  obtain h where "slab_free p (heap s) = Some h" "slab_inv h" "live h = live (heap s) - {(p, m)}"
    using kmem.dealloc_ok [OF i assms(2)] by blast
  moreover have "p \<noteq> 0" using live_bound [OF i assms(2)] by blast
  ultimately show thesis by (intro that [of h]) (simp_all add: kfree_def kernel_inv_def)
qed

lemma allocate_page:
  assumes "kernel_inv s" and "allocate PAGE_SIZE s = Some (p, s')" and "p \<noteq> 0"
  obtains h where "s' = s\<lparr>heap := h\<rparr>" and "kernel_inv s'" and "paged p" and "p \<notin> allotted s"
    and "allotted s' = insert p (allotted s)"
    and "\<exists>m \<ge> 4096. (p, m) \<in> live h" and "live (heap s) \<subseteq> live h" and "reserved h = reserved (heap s)"
proof -
  have sz: "unat PAGE_SIZE = 4096" "2048 < PAGE_SIZE" by (simp_all add: PAGE_SIZE_def)
  then have le: "unat PAGE_SIZE \<le> 2 ^ 63" by simp
  obtain h m where h: "s' = s\<lparr>heap := h\<rparr>" "kernel_inv s'" "unat PAGE_SIZE \<le> m"
    "live h = insert (p, m) (live (heap s))" "p \<notin> allotted s" "reserved h = reserved (heap s)"
    using allocate_new [OF assms(1) le assms(2,3)] by metis
  have "slab_alloc PAGE_SIZE (heap s) = Some (p, heap s')" using assms(2) by (auto simp: allocate_def)
  then have "paged p" using slab_alloc_paged [OF _ sz(2) le] assms(1,3) by (simp add: kernel_inv_def)
  then show thesis using h sz(1) by (intro that [of h]) auto
qed

subsection \<open>The tree of tables\<close>

text \<open>The table that a path of indices leads to, and the leaf entry of a full path.  A user path
  goes through the lower half of the root.\<close>

fun walk :: "bytes \<Rightarrow> u64 \<Rightarrow> nat list \<Rightarrow> u64 option" where
  "walk m t [] = Some t"
| "walk m t (i # is) = (if valid (pte_get m t i) then walk m (next_table (pte_get m t i)) is else None)"

definition upath :: "nat list \<Rightarrow> bool" where
  "upath p \<longleftrightarrow> length p \<le> 2 \<and> (\<forall>i \<in> set p. i < 512) \<and> (p \<noteq> [] \<longrightarrow> hd p < 256)"

definition leaf :: "bytes \<Rightarrow> u64 \<Rightarrow> nat list \<Rightarrow> nat \<Rightarrow> u64 option" where
  "leaf m pgd p k =
     (case walk m pgd p of
        None \<Rightarrow> None
      | Some t \<Rightarrow> if valid (pte_get m t k) then Some (pte_get m t k) else None)"

definition tables :: "bytes \<Rightarrow> u64 \<Rightarrow> u64 set" where
  "tables m pgd = {t. \<exists>p. upath p \<and> walk m pgd p = Some t}"

definition tree :: "bytes \<Rightarrow> u64 \<Rightarrow> bool" where
  "tree m pgd \<longleftrightarrow> paged pgd \<and>
     (\<forall>p q t. upath p \<longrightarrow> upath q \<longrightarrow> walk m pgd p = Some t \<longrightarrow> walk m pgd q = Some t \<longrightarrow> p = q)"

lemma walk_append: "walk m t (p @ q) = Option.bind (walk m t p) (\<lambda>u. walk m u q)"
  by (induction p arbitrary: t) auto

lemma walk_paged: "paged t \<Longrightarrow> walk m t p = Some u \<Longrightarrow> paged u"
  by (induction p arbitrary: t) (auto split: if_splits intro: next_table_paged)

lemma upath_butlast: "upath (p @ [i]) \<Longrightarrow> upath p \<and> i < 512"
  by (cases p) (auto simp: upath_def)

lemma treeD:
  "tree m pgd \<Longrightarrow> upath p \<Longrightarrow> upath q \<Longrightarrow> walk m pgd p = Some t \<Longrightarrow> walk m pgd q = Some t \<Longrightarrow> p = q"
  unfolding tree_def by blast

lemma tables_paged: "paged pgd \<Longrightarrow> t \<in> tables m pgd \<Longrightarrow> paged t"
  unfolding tables_def using walk_paged by blast

lemma walk_agree:
  assumes "\<forall>t \<in> tables m pgd. \<forall>j < 512. pte_get m' t j = pte_get m t j" and "upath p"
  shows "walk m' pgd p = walk m pgd p"
  using assms(2)
proof (induction p rule: rev_induct)
  case (snoc j q)
  have q: "upath q" "j < 512" using upath_butlast [OF snoc.prems] by auto
  then have IH: "walk m' pgd q = walk m pgd q" using snoc.IH by simp
  show ?case
  proof (cases "walk m pgd q")
    case (Some t)
    then have "t \<in> tables m pgd" using q unfolding tables_def by blast
    then show ?thesis using Some IH assms(1) q(2) by (simp add: walk_append)
  qed (simp add: walk_append IH)
qed simp

lemma tree_agree:
  assumes "\<forall>t \<in> tables m pgd. \<forall>j < 512. pte_get m' t j = pte_get m t j"
  shows "tables m' pgd = tables m pgd" "tree m' pgd = tree m pgd"
    "upath p \<Longrightarrow> k < 512 \<Longrightarrow> leaf m' pgd p k = leaf m pgd p k"
proof -
  have w: "upath q \<Longrightarrow> walk m' pgd q = walk m pgd q" for q using walk_agree assms by blast
  show "tables m' pgd = tables m pgd" unfolding tables_def using w by auto
  show "tree m' pgd = tree m pgd" unfolding tree_def using w by auto
  show "leaf m' pgd p k = leaf m pgd p k" if p: "upath p" "k < 512"
  proof (cases "walk m pgd p")
    case (Some t)
    then have "t \<in> tables m pgd" using p unfolding tables_def by blast
    then show ?thesis using Some w [OF p(1)] assms p(2) by (simp add: leaf_def)
  qed (simp add: leaf_def w [OF p(1)])
qed

text \<open>Writing one entry of a table moves only the paths through that entry.\<close>

lemma walk_store:
  assumes t: "tree m pgd" and p: "upath p" "walk m pgd p = Some u" "i < 512"
    and q: "upath q" "\<nexists>r. q = p @ i # r"
  shows "walk (store64 (entry_addr u i) v m) pgd q = walk m pgd q"
  using q
proof (induction q rule: rev_induct)
  case (snoc j r)
  have r: "upath r" "j < 512" using upath_butlast [OF snoc.prems(1)] by auto
  have "\<nexists>r'. r = p @ i # r'" using snoc.prems(2) by auto
  then have IH: "walk (store64 (entry_addr u i) v m) pgd r = walk m pgd r" using snoc.IH r(1) by simp
  show ?case
  proof (cases "walk m pgd r")
    case (Some x)
    have "\<not> (u = x \<and> i = j)" using treeD [OF t p(1) r(1) p(2)] Some snoc.prems(2) by auto
    moreover have "paged u" "paged x" using t walk_paged p(2) Some unfolding tree_def by blast+
    ultimately have "pte_get (store64 (entry_addr u i) v m) x j = pte_get m x j"
      using p(3) r(2) by (auto simp: pte_get_store)
    then show ?thesis using Some IH by (simp add: walk_append)
  qed (simp add: walk_append IH)
qed simp

text \<open>Writing a leaf entry.\<close>

lemma leaf_store:
  assumes t: "tree m pgd" and p: "upath p" "length p = 2" "walk m pgd p = Some u" "k < 512"
  shows "upath q \<Longrightarrow> walk (store64 (entry_addr u k) v m) pgd q = walk m pgd q"
    "upath q \<Longrightarrow> j < 512 \<Longrightarrow> leaf (store64 (entry_addr u k) v m) pgd q j =
      (if q = p \<and> j = k then if valid v then Some v else None else leaf m pgd q j)"
proof -
  have w: "walk (store64 (entry_addr u k) v m) pgd q = walk m pgd q" if "upath q" for q
  proof (rule walk_store [OF t p(1,3,4) that])
    show "\<nexists>r. q = p @ k # r" using that p(2) by (auto simp: upath_def)
  qed
  show "upath q \<Longrightarrow> walk (store64 (entry_addr u k) v m) pgd q = walk m pgd q" by (rule w)
  assume q: "upath q" "j < 512"
  show "leaf (store64 (entry_addr u k) v m) pgd q j =
      (if q = p \<and> j = k then if valid v then Some v else None else leaf m pgd q j)"
  proof (cases "walk m pgd q")
    case None
    then show ?thesis using w [OF q(1)] p(3) by (auto simp: leaf_def)
  next
    case (Some x)
    have "paged u" "paged x" using t walk_paged p(3) Some unfolding tree_def by blast+
    then have e: "pte_get (store64 (entry_addr u k) v m) x j = (if u = x \<and> k = j then v else pte_get m x j)"
      using p(4) q(2) by (simp add: pte_get_store)
    have "u = x \<longleftrightarrow> q = p" using treeD [OF t p(1) q(1) p(3)] Some p(3) by auto
    then show ?thesis using Some w [OF q(1)] e by (auto simp: leaf_def)
  qed
qed

text \<open>Hanging an empty table under an invalid entry.\<close>

lemma attach_table:
  assumes t: "tree m pgd" and p: "upath p" "length p \<le> 1" "walk m pgd p = Some u" "i < 512" "p = [] \<longrightarrow> i < 256"
    and inv: "\<not> valid (pte_get m u i)"
    and x: "paged x" "x \<notin> tables m pgd" "\<forall>k < 512. pte_get m x k = 0"
    and m': "m' = store64 (entry_addr u i) (MAKE_PTE (virt_to_phys x) PTE_V) m"
  shows "walk m' pgd (p @ [i]) = Some x" "tree m' pgd" "tables m' pgd = insert x (tables m pgd)"
    "upath q \<Longrightarrow> length q = 2 \<Longrightarrow> j < 512 \<Longrightarrow> leaf m' pgd q j = leaf m pgd q j"
    "upath q \<Longrightarrow> walk m' pgd q = (if q = p @ [i] then Some x else walk m pgd q)"
proof -
  have pu: "paged u" using t walk_paged p(3) unfolding tree_def by blast
  have xu: "x \<noteq> u" using x(2) p(1,3) unfolding tables_def by blast
  have e: "pte_get m' y k = (if u = y \<and> i = k then MAKE_PTE (virt_to_phys x) PTE_V else pte_get m y k)"
    if "paged y" "k < 512" for y k
    unfolding m' using pte_get_store [OF pu that(1) p(4) that(2)] .
  have wp: "walk m' pgd p = Some u" unfolding m' using walk_store [OF t p(1,3,4) p(1)] p(3) by simp
  show wx: "walk m' pgd (p @ [i]) = Some x"
    using wp e [OF pu p(4)] table_entry [OF x(1)] by (simp add: walk_append)
  have wi: "walk m pgd (p @ i # r) = None" for r using p(3) inv by (simp add: walk_append)
  have w: "walk m' pgd q = (if q = p @ [i] then Some x else walk m pgd q)" if q: "upath q" for q
  proof (cases "\<exists>r. q = p @ i # r")
    case True
    then obtain r where r: "q = p @ i # r" by blast
    show ?thesis
    proof (cases r)
      case (Cons k ks)
      have "k < 512" using q r Cons by (auto simp: upath_def)
      moreover have "walk m' pgd q = walk m' x r"
        using r wx walk_append [of m' pgd "p @ [i]" r] by simp
      ultimately have "walk m' pgd q = None" using Cons e [OF x(1), of k] xu x(3) by simp
      then show ?thesis using wi r Cons by simp
    qed (simp add: r wx)
  next
    case False
    then show ?thesis unfolding m' using walk_store [OF t p(1,3,4) q] by auto
  qed
  then show "upath q \<Longrightarrow> walk m' pgd q = (if q = p @ [i] then Some x else walk m pgd q)" by blast
  have up: "upath (p @ [i])" using p(1,2,4,5) by (cases p) (auto simp: upath_def)
  have "y \<in> tables m' pgd \<longleftrightarrow> y \<in> insert x (tables m pgd)" for y
  proof -
    have "y \<in> tables m' pgd" if "y = x" using that up wx unfolding tables_def by blast
    moreover have "y \<in> tables m' pgd" if "upath q" "walk m pgd q = Some y" for q
      using that w [OF that(1)] wi [of "[]"] unfolding tables_def by (metis (mono_tags) mem_Collect_eq option.distinct(1))
    moreover have "y = x \<or> y \<in> tables m pgd" if "upath q" "walk m' pgd q = Some y" for q
      using that w [OF that(1)] unfolding tables_def by (auto split: if_splits)
    ultimately show ?thesis unfolding tables_def by blast
  qed
  then show "tables m' pgd = insert x (tables m pgd)" by blast
  show "tree m' pgd"
    using t x(2) unfolding tree_def tables_def by (auto simp: w split: if_splits)
  assume q: "upath q" "length q = 2" "j < 512"
  show "leaf m' pgd q j = leaf m pgd q j"
  proof (cases "walk m' pgd q")
    case None
    then show ?thesis using w [OF q(1)] by (auto simp: leaf_def split: if_splits)
  next
    case (Some y)
    have y: "paged y" using Some t walk_paged unfolding tree_def by blast
    show ?thesis
    proof (cases "q = p @ [i]")
      case True
      then show ?thesis using Some wx wi [of "[]"] e [OF y q(3)] xu x(3) q(3) by (simp add: leaf_def)
    next
      case False
      then have wy: "walk m pgd q = Some y" using w [OF q(1)] Some by simp
      then have "u \<noteq> y" using treeD [OF t p(1) q(1) p(3)] p(2) q(2) by auto
      then show ?thesis using Some wy e [OF y q(3)] by (simp add: leaf_def)
    qed
  qed
qed

subsection \<open>Mapping a page\<close>

text \<open>The tables of a task lie in pages of their own; and what an operation may change: the heap
  grows, no byte outside the tables moves, and new tables are new pages.\<close>

definition pt_ok :: "u64 \<Rightarrow> kernel \<Rightarrow> bool" where
  "pt_ok pgd s \<longleftrightarrow> kernel_inv s \<and> tree (mem s) pgd \<and> tables (mem s) pgd \<subseteq> allotted s"

definition grows :: "u64 \<Rightarrow> kernel \<Rightarrow> kernel \<Rightarrow> bool" where
  "grows pgd s s' \<longleftrightarrow>
     (\<exists>h m. s' = s\<lparr>mem := m, heap := h\<rparr>) \<and> live (heap s) \<subseteq> live (heap s') \<and>
     reserved (heap s') = reserved (heap s) \<and>
     tables (mem s') pgd \<inter> allotted s \<subseteq> tables (mem s) pgd \<and>
     tables (mem s) pgd \<subseteq> tables (mem s') pgd \<and>
     (\<forall>x. (\<forall>t \<in> tables (mem s') pgd. \<not> unat (x - t) < 4096) \<longrightarrow> mem s' x = mem s x)"

text \<open>Enough memory for \<open>n\<close> more pages.\<close>

fun can_alloc :: "nat \<Rightarrow> slab \<Rightarrow> bool" where
  "can_alloc 0 h = True"
| "can_alloc (Suc n) h = (case slab_alloc 4096 h of None \<Rightarrow> False | Some (p, h') \<Rightarrow> p \<noteq> 0 \<and> can_alloc n h')"

lemma can_alloc_less: "can_alloc n h \<Longrightarrow> m \<le> n \<Longrightarrow> can_alloc m h"
proof (induction n arbitrary: m h)
  case (Suc n)
  then show ?case by (cases m) (auto split: option.splits)
qed simp

lemma grows_refl: "grows pgd s s"
proof -
  have "s = s\<lparr>mem := mem s, heap := heap s\<rparr>" by simp
  then show ?thesis unfolding grows_def by blast
qed

lemma growsD:
  assumes "grows pgd s s'"
  shows "\<exists>h m. s' = s\<lparr>mem := m, heap := h\<rparr>" "live (heap s) \<subseteq> live (heap s')" "allotted s \<subseteq> allotted s'"
    "reserved (heap s') = reserved (heap s)" "tables (mem s') pgd \<inter> allotted s \<subseteq> tables (mem s) pgd"
    "tables (mem s) pgd \<subseteq> tables (mem s') pgd"
    "(\<And>t. t \<in> tables (mem s') pgd \<Longrightarrow> \<not> unat (x - t) < 4096) \<Longrightarrow> mem s' x = mem s x"
  using assms unfolding grows_def by (blast, blast, blast, blast, blast, blast, metis)

lemma grows_trans:
  assumes a: "grows pgd s s1" and b: "grows pgd s1 s2"
  shows "grows pgd s s2"
proof -
  obtain h1 m1 h2 m2 where e: "s1 = s\<lparr>mem := m1, heap := h1\<rparr>" "s2 = s1\<lparr>mem := m2, heap := h2\<rparr>"
    using growsD(1) [OF a] growsD(1) [OF b] by blast
  have "s2 = s\<lparr>mem := m2, heap := h2\<rparr>" unfolding e(2) by (simp add: e(1))
  then have 1: "\<exists>h m. s2 = s\<lparr>mem := m, heap := h\<rparr>" by blast
  have 2: "live (heap s) \<subseteq> live (heap s2)" using growsD(2) [OF a] growsD(2) [OF b] by (rule order_trans)
  have 3: "tables (mem s2) pgd \<inter> allotted s \<subseteq> tables (mem s) pgd"
    using growsD(3,5) [OF a] growsD(5) [OF b] by blast
  have 4: "tables (mem s) pgd \<subseteq> tables (mem s2) pgd"
    using growsD(6) [OF a] growsD(6) [OF b] by (rule order_trans)
  have 5: "mem s2 x = mem s x" if "\<forall>t \<in> tables (mem s2) pgd. \<not> unat (x - t) < 4096" for x
  proof -
    have "mem s2 x = mem s1 x" using growsD(7) [OF b] that by blast
    moreover have "mem s1 x = mem s x" using growsD(7) [OF a] growsD(6) [OF b] that by blast
    ultimately show ?thesis by simp
  qed
  show ?thesis unfolding grows_def
    using 1 2 3 4 5 growsD(4) [OF a] growsD(4) [OF b] by (intro conjI) auto
qed

lemma new_page_ok:
  assumes k: "kernel_inv s" and e: "new_page s = Some (p, s')"
  obtains h where "s' = s\<lparr>mem := memzero p 4096 (mem s), heap := h\<rparr>" and "kernel_inv s'" and "paged p"
    and "p \<notin> allotted s" and "allotted s' = insert p (allotted s)" and "live (heap s) \<subseteq> live h"
    and "reserved h = reserved (heap s)" and "p \<noteq> 0" and "\<exists>m \<ge> 4096. (p, m) \<in> live h"
proof -
  obtain s1 where a: "allocate PAGE_SIZE s = Some (p, s1)" "p \<noteq> 0" "s' = zero_page p s1"
    using e by (auto simp: new_page_def split: if_splits)
  obtain h where h: "s1 = s\<lparr>heap := h\<rparr>" "kernel_inv s1" "paged p" "p \<notin> allotted s" "allotted s1 = insert p (allotted s)"
    "live (heap s) \<subseteq> live h" "reserved h = reserved (heap s)" "\<exists>m \<ge> 4096. (p, m) \<in> live h"
    using allocate_page [OF k a(1,2)] by metis
  show thesis using h a(2,3) by (intro that [of h]) (simp_all add: zero_page_def kernel_inv_def)
qed

lemma new_page_some: "can_alloc (Suc k) (heap s) \<Longrightarrow> \<exists>p s'. new_page s = Some (p, s') \<and> can_alloc k (heap s')"
  by (auto simp: new_page_def allocate_def PAGE_SIZE_def zero_page_def split: option.splits)

text \<open>\<open>ensure_table\<close> at a table that a path of at most one index leads to.\<close>

lemma ensure_table_ok:
  assumes ok: "pt_ok pgd s"
    and p: "upath p" "length p \<le> 1" "walk (mem s) pgd p = Some u" "i < 512" "p = [] \<longrightarrow> i < 256"
    and e: "ensure_table u i s = Some (t, s')"
  shows "pt_ok pgd s'" "grows pgd s s'" "walk (mem s') pgd (p @ [i]) = Some t"
    "upath q \<Longrightarrow> length q = 2 \<Longrightarrow> j < 512 \<Longrightarrow> leaf (mem s') pgd q j = leaf (mem s) pgd q j"
    "upath q \<Longrightarrow> walk (mem s') pgd q = (if q = p @ [i] then Some t else walk (mem s) pgd q)"
proof -
  have k: "kernel_inv s" "tree (mem s) pgd" "tables (mem s) pgd \<subseteq> allotted s" using ok by (simp_all add: pt_ok_def)
  have "pt_ok pgd s' \<and> grows pgd s s' \<and> walk (mem s') pgd (p @ [i]) = Some t \<and>
    (\<forall>q j. upath q \<and> length q = 2 \<and> j < 512 \<longrightarrow> leaf (mem s') pgd q j = leaf (mem s) pgd q j) \<and>
    (\<forall>q. upath q \<longrightarrow> walk (mem s') pgd q = (if q = p @ [i] then Some t else walk (mem s) pgd q))"
  proof (cases "valid (pte_get (mem s) u i)")
    case True
    then have "s' = s" "t = next_table (pte_get (mem s) u i)" using e by (auto simp: ensure_table_def)
    then show ?thesis using True ok p(3) by (simp add: walk_append grows_refl)
  next
    case False
    obtain x s1 where n: "new_page s = Some (x, s1)" "s' = pte_set u i (MAKE_PTE (virt_to_phys x) PTE_V) s1"
      "t = next_table (pte_get (mem s') u i)"
      using e False by (auto simp: ensure_table_def)
    obtain h where h: "s1 = s\<lparr>mem := memzero x 4096 (mem s), heap := h\<rparr>" "kernel_inv s1" "paged x"
      "x \<notin> allotted s" "allotted s1 = insert x (allotted s)" "live (heap s) \<subseteq> live h" "reserved h = reserved (heap s)"
      using new_page_ok [OF k(1) n(1)] by metis
    define m where "m = memzero x 4096 (mem s)"
    have pg: "paged pgd" using k(2) by (simp add: tree_def)
    have xt: "x \<notin> tables (mem s) pgd" using h(4) k(3) by blast
    have ag: "\<forall>y \<in> tables (mem s) pgd. \<forall>j < 512. pte_get m y j = pte_get (mem s) y j"
      using pte_get_zero [OF h(3) tables_paged [OF pg]] xt unfolding m_def by auto
    note a = tree_agree [OF ag]
    have tr: "tree m pgd" "tables m pgd = tables (mem s) pgd" using a(1,2) k(2) by simp_all
    have wp: "walk m pgd p = Some u" using walk_agree [OF ag p(1)] p(3) by simp
    have ut: "u \<in> tables (mem s) pgd" using p(1,3) unfolding tables_def by blast
    have iv: "\<not> valid (pte_get m u i)" using ag ut p(4) False by simp
    have z: "\<forall>j < 512. pte_get m x j = 0"
      using pte_get_zero [OF h(3,3), of _ "mem s"] unfolding m_def by simp
    define m' where "m' = store64 (entry_addr u i) (MAKE_PTE (virt_to_phys x) PTE_V) m"
    have s': "s' = s\<lparr>mem := m', heap := h\<rparr>" using n(2) h(1) by (simp add: pte_set_def m'_def m_def)
    have xm: "x \<notin> tables m pgd" using xt tr(2) by simp
    note b = attach_table [OF tr(1) p(1,2) wp p(4,5) iv h(3) xm z m'_def]
    have up: "paged u" using tables_paged [OF pg ut] .
    have tx: "t = x" using n(3) s' up p(4) table_entry [OF h(3)] by (simp add: m'_def pte_get_store)
    have "grows pgd s s'"
    proof -
      have "mem s' y = mem s y" if "\<forall>t \<in> tables (mem s') pgd. \<not> unat (y - t) < 4096" for y
      proof -
        have "\<not> unat (y - u) < 4096" "\<not> unat (y - x) < 4096" using that b(3) s' ut tr(2) by auto
        then show ?thesis using s' store_outside [OF up p(4)] by (simp add: m'_def m_def memzero_eq)
      qed
      then show ?thesis unfolding grows_def using s' b(3) tr(2) h(4,6,7) by auto
    qed
    moreover have "pt_ok pgd s'"
      using s' b(2,3) tr(2) h(1,2,5) k(3) by (auto simp: pt_ok_def kernel_inv_def)
    moreover have "leaf (mem s') pgd q j = leaf (mem s) pgd q j" if "upath q" "length q = 2" "j < 512" for q j
      using b(4) [OF that] a(3) [OF that(1,3)] s' by simp
    moreover have "walk (mem s') pgd q = (if q = p @ [i] then Some t else walk (mem s) pgd q)" if "upath q" for q
      using b(5) [OF that] walk_agree [OF ag that] s' tx by simp
    ultimately show ?thesis using b(1) s' tx by simp
  qed
  then show "pt_ok pgd s'" "grows pgd s s'" "walk (mem s') pgd (p @ [i]) = Some t"
    "upath q \<Longrightarrow> length q = 2 \<Longrightarrow> j < 512 \<Longrightarrow> leaf (mem s') pgd q j = leaf (mem s) pgd q j"
    "upath q \<Longrightarrow> walk (mem s') pgd q = (if q = p @ [i] then Some t else walk (mem s) pgd q)" by blast+
qed

text \<open>The three indices of an address.\<close>

lemma vpn_nat: "unat (drop_bit k (a :: u64) AND 0x1FF) = unat a div 2 ^ k mod 512"
proof -
  have "(0x1FF :: u64) = mask 9" by (simp add: mask_eq_exp_minus_1)
  then have "unat (drop_bit k a AND 0x1FF) = unat (take_bit 9 (drop_bit k a))" by (simp add: take_bit_eq_mask)
  also have "\<dots> = unat a div 2 ^ k mod 512"
    by (simp only: unsigned_take_bit_eq unsigned_drop_bit_eq) (simp add: take_bit_eq_mod drop_bit_eq_div)
  finally show ?thesis .
qed

definition user_va :: "u64 \<Rightarrow> bool" where "user_va a \<longleftrightarrow> unat a < 2 ^ 38"

lemma vpn_bounds [simp]: "vpn1 a < 512" "vpn0 a < 512" "vpn2 a < 512"
  by (simp_all add: vpn0_def vpn1_def vpn2_def vpn_nat)

lemma user_vpn2: "user_va a \<Longrightarrow> vpn2 a < 256"
  by (simp add: vpn2_def vpn_nat user_va_def)

lemma user_below: "user_va a \<Longrightarrow> \<not> PAGE_OFFSET \<le> a"
  by (simp add: user_va_def PAGE_OFFSET_def word_le_nat_alt)

lemma nine_bits:
  fixes x y :: nat
  assumes "x < 2 ^ 27" and "y < 2 ^ 27" and "x mod 512 = y mod 512"
    and "x div 512 mod 512 = y div 512 mod 512" and "x div 262144 mod 512 = y div 262144 mod 512"
  shows "x = y"
proof -
  have split: "z = z mod 512 + 512 * (z div 512)" for z :: nat by (rule mod_mult_div_eq [symmetric])
  have d: "z div 512 div 512 = z div 262144" for z :: nat by (simp add: div_mult2_eq [symmetric])
  have b: "z div 262144 < 512" if "z < 2 ^ 27" for z :: nat
    using that by (simp add: less_mult_imp_div_less)
  have "x div 262144 = y div 262144" using assms(5) b [OF assms(1)] b [OF assms(2)] by (simp only: mod_less)
  then have "x div 512 = y div 512"
    using split [of "x div 512"] split [of "y div 512"] assms(4) unfolding d by simp
  then show ?thesis using split [of x] split [of y] assms(3) by simp
qed

lemma vpn_same_page:
  assumes "user_va a" and "user_va b"
  shows "vpn2 a = vpn2 b \<and> vpn1 a = vpn1 b \<and> vpn0 a = vpn0 b \<longleftrightarrow> unat a div 4096 = unat b div 4096"
proof -
  have v: "vpn0 x = unat x div 4096 mod 512" "vpn1 x = unat x div 4096 div 512 mod 512"
    "vpn2 x = unat x div 4096 div 262144 mod 512" for x
    by (simp_all add: vpn0_def vpn1_def vpn2_def vpn_nat div_mult2_eq [symmetric])
  have "unat a div 4096 < 2 ^ 27" "unat b div 4096 < 2 ^ 27" using assms by (simp_all add: user_va_def)
  then show ?thesis unfolding v using nine_bits [of "unat a div 4096" "unat b div 4096"] by auto
qed

lemma in_page_div: "paged p \<Longrightarrow> unat (a - p) < 4096 \<longleftrightarrow> unat a div 4096 = unat p div 4096"
proof -
  assume p: "paged p"
  obtain k where "unat p = 4096 * k" using pagedE [OF p] by blast
  then show ?thesis using in_page_iff [OF p, of a] by auto
qed

lemma MAKE_PTE_page: "paged p \<Longrightarrow> unat x < 4096 \<Longrightarrow> MAKE_PTE (p + x) f = MAKE_PTE p f"
proof -
  assume a: "paged p" "unat x < 4096"
  obtain k where k: "unat p = 4096 * k" using pagedE [OF a(1)] by blast
  have "unat (p + x) = unat p + unat x" using paged_add [OF a(1,2)] by simp
  then have "unat (drop_bit 12 (p + x)) = unat (drop_bit 12 p)"
    using k a(2) by (simp add: unat_div drop_bit_eq_div)
  then have "drop_bit 12 (p + x) = drop_bit 12 p" by (simp only: word_unat_eq_iff)
  then show ?thesis by (simp only: MAKE_PTE_def)
qed

lemma leaf_entry_leaf: "leaf_entry m pgd va = leaf m pgd [vpn2 va, vpn1 va] (vpn0 va)"
  by (simp add: leaf_entry_def leaf_def Let_def)

lemma user_upath: "user_va va \<Longrightarrow> upath [vpn2 va, vpn1 va] \<and> upath [vpn2 va]"
  by (simp add: upath_def user_vpn2)

lemma valid_leaf: "valid (MAKE_PTE pa (f OR PTE_V))"
  by (simp add: valid_iff MAKE_PTE_def PTE_V_def bit_simps)

text \<open>\<open>pagewalk\<close> at a user address.\<close>

lemma pagewalk_ok:
  assumes ok: "pt_ok pgd s" and u: "user_va va" and pgd: "active_user_pgd s = pgd"
    and e: "pagewalk va pa prot s = Some s'"
  shows "pt_ok pgd s'" "grows pgd s s'"
    "user_va a \<Longrightarrow> leaf_entry (mem s') pgd a =
      (if unat a div 4096 = unat va div 4096 then Some (MAKE_PTE pa (prot OR PTE_V)) else leaf_entry (mem s) pgd a)"
proof -
  obtain pmd s1 pte s2 where w: "ensure_table pgd (vpn2 va) s = Some (pmd, s1)"
    "ensure_table pmd (vpn1 va) s1 = Some (pte, s2)"
    "s' = pte_set pte (vpn0 va) (MAKE_PTE pa (prot OR PTE_V)) s2"
    using e user_below [OF u] pgd by (auto simp: pagewalk_def Let_def)
  have u0: "upath []" by (simp add: upath_def)
  note a1 = ensure_table_ok [OF ok u0 _ _ _ _ w(1), simplified, OF user_vpn2 [OF u]]
  have u1: "upath [vpn2 va]" "upath [vpn2 va, vpn1 va]" using user_upath [OF u] by auto
  have k1: "walk (mem s1) pgd [vpn2 va] = Some pmd" using a1(3) by simp
  note a2 = ensure_table_ok [OF a1(1) u1(1) _ k1 _ _ w(2), simplified]
  have g: "grows pgd s s2" using grows_trans [OF a1(2) a2(2)] .
  have k: "kernel_inv s2" "tree (mem s2) pgd" "tables (mem s2) pgd \<subseteq> allotted s2" using a2(1) by (simp_all add: pt_ok_def)
  have k2: "walk (mem s2) pgd [vpn2 va, vpn1 va] = Some pte" using a2(3) by simp
  define m where "m = store64 (entry_addr pte (vpn0 va)) (MAKE_PTE pa (prot OR PTE_V)) (mem s2)"
  have s': "s' = s2\<lparr>mem := m\<rparr>" using w(3) by (simp add: pte_set_def m_def)
  note l = leaf_store [OF k(2) u1(2) _ k2, of "vpn0 va", simplified]
  have wk: "walk m pgd q = walk (mem s2) pgd q" if "upath q" for q unfolding m_def using l(1) that .
  have t: "tables m pgd = tables (mem s2) pgd" "tree m pgd" using wk k(2) by (auto simp: tables_def tree_def)
  show "pt_ok pgd s'" using k t s' by (simp add: pt_ok_def kernel_inv_def)
  have pp: "paged pte" using walk_paged k(2) k2 unfolding tree_def by blast
  have pt: "pte \<in> tables m pgd" using t(1) u1(2) k2 unfolding tables_def by auto
  have "m x = mem s2 x" if "\<forall>t \<in> tables m pgd. \<not> unat (x - t) < 4096" for x
    unfolding m_def using store_outside [OF pp, of "vpn0 va" x] that pt by simp
  then have "grows pgd s2 s'" unfolding grows_def
    using s' t(1) by (intro conjI exI [of _ "heap s2"] exI [of _ m]) auto
  then show "grows pgd s s'" using grows_trans g by blast
  assume a: "user_va a"
  have up: "upath [vpn2 a, vpn1 a]" using user_upath [OF a] by simp
  have "leaf m pgd [vpn2 a, vpn1 a] (vpn0 a) =
      (if [vpn2 a, vpn1 a] = [vpn2 va, vpn1 va] \<and> vpn0 a = vpn0 va then Some (MAKE_PTE pa (prot OR PTE_V))
       else leaf (mem s2) pgd [vpn2 a, vpn1 a] (vpn0 a))"
    unfolding m_def using l(2) [OF up, of "vpn0 a"] valid_leaf by simp
  moreover have "leaf (mem s2) pgd [vpn2 a, vpn1 a] (vpn0 a) = leaf (mem s) pgd [vpn2 a, vpn1 a] (vpn0 a)"
    using a1(4) [OF up] a2(4) [OF up] by simp
  ultimately show "leaf_entry (mem s') pgd a =
      (if unat a div 4096 = unat va div 4096 then Some (MAKE_PTE pa (prot OR PTE_V)) else leaf_entry (mem s) pgd a)"
    using vpn_same_page [OF a u] s' by (auto simp: leaf_entry_leaf)
qed

text \<open>With memory for two pages it returns.\<close>

lemma ensure_table_some:
  "can_alloc (Suc k) (heap s) \<Longrightarrow> \<exists>t s'. ensure_table u i s = Some (t, s') \<and> can_alloc k (heap s')"
  using new_page_some [of k s] can_alloc_less [of "Suc k" "heap s" k]
  by (auto simp: ensure_table_def pte_set_def)

lemma pagewalk_some:
  assumes "can_alloc (Suc (Suc k)) (heap s)"
  shows "\<exists>s'. pagewalk va pa prot s = Some s' \<and> can_alloc k (heap s')"
proof -
  let ?pgd = "if PAGE_OFFSET \<le> va then kernel_pgd s else active_user_pgd s"
  obtain t s1 where 1: "ensure_table ?pgd (vpn2 va) s = Some (t, s1)" "can_alloc (Suc k) (heap s1)"
    using ensure_table_some [OF assms] by blast
  obtain t' s2 where 2: "ensure_table t (vpn1 va) s1 = Some (t', s2)" "can_alloc k (heap s2)"
    using ensure_table_some [OF 1(2)] by blast
  then show ?thesis using 1 by (simp add: pagewalk_def Let_def pte_set_def)
qed

lemma grows_pgd: "grows pgd s s' \<Longrightarrow> active_user_pgd s' = active_user_pgd s"
  using growsD(1) by fastforce

text \<open>The page at offset \<open>i\<close> of an area.\<close>

lemma area_page:
  assumes "paged va" and "paged pa" and "paged i"
  shows "unat a div 4096 = unat (va + i) div 4096 \<longleftrightarrow> unat i \<le> unat (a - va) \<and> unat (a - va) < unat i + 4096"
    and "unat i \<le> unat (a - va) \<Longrightarrow> unat (a - va) < unat i + 4096 \<Longrightarrow>
      MAKE_PTE (pa + (a - va)) f = MAKE_PTE (pa + i) f"
proof -
  have p: "paged (va + i)" "paged (pa + i)" using assms by (auto intro: paged_plus)
  have w: "unat (a - va - i) < 4096 \<longleftrightarrow> unat i \<le> unat (a - va) \<and> unat (a - va) < unat i + 4096"
    using in_page_iff [OF assms(3), of "a - va"] by auto
  then show "unat a div 4096 = unat (va + i) div 4096 \<longleftrightarrow> unat i \<le> unat (a - va) \<and> unat (a - va) < unat i + 4096"
    using in_page_div [OF p(1), of a] by (simp add: diff_diff_eq)
  show "MAKE_PTE (pa + (a - va)) f = MAKE_PTE (pa + i) f"
    if "unat i \<le> unat (a - va)" "unat (a - va) < unat i + 4096"
    using MAKE_PTE_page [OF p(2), of "a - va - i"] w that by simp
qed

lemma map_loop_some:
  assumes "n < 2 ^ 52" and "k \<le> n" and "can_alloc (2 * (n - k) + d) (heap s)"
  shows "\<exists>s'. map_loop va (of_nat (4096 * n)) pa prot (of_nat (4096 * k)) s = Some s' \<and> can_alloc d (heap s')"
  using assms(2,3)
proof (induction "n - k" arbitrary: k s)
  case 0
  then show ?case by (subst map_loop.simps) simp
next
  case (Suc m)
  have lt: "(of_nat (4096 * k) :: u64) < of_nat (4096 * n)"
    using Suc.hyps(2) assms(1) by (simp add: word_less_nat_alt unat_of_nat64 del: of_nat_mult)
  have nx: "(of_nat (4096 * k) :: u64) + PAGE_SIZE = of_nat (4096 * Suc k)" by (simp add: PAGE_SIZE_def)
  have "2 * (n - k) + d = Suc (Suc (2 * (n - Suc k) + d))" using Suc.hyps(2) by simp
  then obtain s1 where s1: "pagewalk (va + of_nat (4096 * k)) (pa + of_nat (4096 * k)) prot s = Some s1"
    "can_alloc (2 * (n - Suc k) + d) (heap s1)"
    using pagewalk_some Suc.prems(2) by metis
  have "\<exists>s'. map_loop va (of_nat (4096 * n)) pa prot (of_nat (4096 * Suc k)) s1 = Some s' \<and> can_alloc d (heap s')"
    using Suc.hyps s1(2) by (intro Suc.hyps(1)) auto
  then show ?case by (subst map_loop.simps) (simp only: lt if_True s1(1) bind.bind_lunit nx)
qed

lemma map_loop_ok:
  assumes "pt_ok pgd s" and "active_user_pgd s = pgd" and "paged va" and "paged pa"
    and "unat va + 4096 * n \<le> 2 ^ 38" and "k \<le> n"
    and "map_loop va (of_nat (4096 * n)) pa prot (of_nat (4096 * k)) s = Some s'"
  shows "pt_ok pgd s' \<and> grows pgd s s' \<and> (\<forall>a. user_va a \<longrightarrow> leaf_entry (mem s') pgd a =
        (if 4096 * k \<le> unat (a - va) \<and> unat (a - va) < 4096 * n
         then Some (MAKE_PTE (pa + (a - va)) (prot OR PTE_V)) else leaf_entry (mem s) pgd a))"
  using assms
proof (induction "n - k" arbitrary: k s)
  case 0
  have "map_loop va (of_nat (4096 * n)) pa prot (of_nat (4096 * n)) s = Some s" by (subst map_loop.simps) simp
  then have "s' = s" using 0(1,8,7) by simp
  then show ?case using 0 by (auto simp: grows_refl)
next
  case (Suc d)
  have kn: "k < n" "d = n - Suc k" using Suc.hyps(2) by simp_all
  have big: "4096 * n < 2 ^ 64" "4096 * k < 2 ^ 64" using Suc.prems(5) kn by simp_all
  let ?i = "of_nat (4096 * k) :: u64"
  have ik: "unat ?i = 4096 * k" using big by (simp add: unat_of_nat64 del: of_nat_mult)
  have pi: "paged ?i" using ik by (simp add: paged_def)
  have lt: "?i < of_nat (4096 * n)"
    using kn big by (simp add: word_less_nat_alt unat_of_nat64 del: of_nat_mult)
  have nx: "?i + PAGE_SIZE = of_nat (4096 * Suc k)" by (simp add: PAGE_SIZE_def)
  obtain s1 where w1: "pagewalk (va + ?i) (pa + ?i) prot s = Some s1"
    and r: "map_loop va (of_nat (4096 * n)) pa prot (of_nat (4096 * Suc k)) s1 = Some s'"
    using Suc.prems(7) by (subst (asm) map_loop.simps) (auto simp only: lt if_True nx elim!: bind_SomeE)
  have "unat (va + ?i) = unat va + 4096 * k" using Suc.prems(5) kn ik by (simp add: unat_word_ariths)
  then have uv: "user_va (va + ?i)" using Suc.prems(5) kn by (simp add: user_va_def)
  note w = pagewalk_ok [OF Suc.prems(1) uv Suc.prems(2) w1]
  have p1: "active_user_pgd s1 = pgd" using grows_pgd [OF w(2)] Suc.prems(2) by simp
  have i: "pt_ok pgd s'" "grows pgd s1 s'" "\<And>a. user_va a \<Longrightarrow> leaf_entry (mem s') pgd a =
      (if 4096 * Suc k \<le> unat (a - va) \<and> unat (a - va) < 4096 * n
       then Some (MAKE_PTE (pa + (a - va)) (prot OR PTE_V)) else leaf_entry (mem s1) pgd a)"
    using Suc.hyps(1) [OF kn(2) w(1) p1 Suc.prems(3,4,5) _ r] kn by auto
  have "leaf_entry (mem s') pgd a = (if 4096 * k \<le> unat (a - va) \<and> unat (a - va) < 4096 * n
      then Some (MAKE_PTE (pa + (a - va)) (prot OR PTE_V)) else leaf_entry (mem s) pgd a)" if a: "user_va a" for a
  proof -
    have "unat a div 4096 = unat (va + ?i) div 4096 \<longleftrightarrow> 4096 * k \<le> unat (a - va) \<and> unat (a - va) < 4096 * Suc k"
      using area_page(1) [OF Suc.prems(3,4) pi, of a] ik by auto
    then show ?thesis
      using i(3) [OF a] w(3) [OF a] area_page(2) [OF Suc.prems(3,4) pi, of a] ik kn by (auto split: if_splits)
  qed
  then show ?case using i(1,2) w(2) grows_trans by blast
qed

lemma map_pages_ok:
  assumes "pt_ok pgd s" and "active_user_pgd s = pgd" and "paged va" and "paged pa"
    and "unat va + 4096 * n \<le> 2 ^ 38" and "map_pages va (of_nat (4096 * n)) pa prot s = Some s'"
  shows "pt_ok pgd s' \<and> grows pgd s s' \<and> (\<forall>a. user_va a \<longrightarrow> leaf_entry (mem s') pgd a =
        (if unat (a - va) < 4096 * n then Some (MAKE_PTE (pa + (a - va)) (prot OR PTE_V))
         else leaf_entry (mem s) pgd a))"
  using map_loop_ok [OF assms(1-5) le0, of prot s'] assms(6) by (simp add: map_pages_def)

lemma map_pages_some:
  "n < 2 ^ 52 \<Longrightarrow> can_alloc (2 * n + d) (heap s) \<Longrightarrow>
   \<exists>s'. map_pages va (of_nat (4096 * n)) pa prot s = Some s' \<and> can_alloc d (heap s')"
  using map_loop_some [of n 0 d s va pa prot] by (simp add: map_pages_def)

text \<open>One page.\<close>

lemma map_page_ok:
  assumes "pt_ok pgd s" and "active_user_pgd s = pgd" and "paged va" and "paged pa" and "user_va va"
    and "map_pages va PAGE_SIZE pa prot s = Some s'"
  shows "pt_ok pgd s' \<and> grows pgd s s' \<and>
      (\<forall>a. user_va a \<longrightarrow> leaf_entry (mem s') pgd a =
        (if unat (a - va) < 4096 then Some (MAKE_PTE pa (prot OR PTE_V)) else leaf_entry (mem s) pgd a))"
proof -
  obtain k where k: "unat va = 4096 * k" using pagedE [OF assms(3)] by blast
  have "k < 67108864" using assms(5) k by (simp add: user_va_def)
  then have b: "unat va + 4096 * 1 \<le> 2 ^ 38" using k by simp
  have sz: "of_nat (4096 * 1) = PAGE_SIZE" by (simp add: PAGE_SIZE_def)
  have "MAKE_PTE (pa + (a - va)) f = MAKE_PTE pa f" if "unat (a - va) < 4096" for a f
    using MAKE_PTE_page [OF assms(4) that] .
  then show ?thesis using map_pages_ok [OF assms(1-4) b, unfolded sz, OF assms(6)] by simp
qed

text \<open>\<open>iterate_page_table\<close> reads the leaf entry.\<close>

lemma iterate_leaf:
  "iterate_page_table m pgd va func =
     (case leaf_entry m pgd va of
        None \<Rightarrow> 0
      | Some e \<Rightarrow> (case func of
            CHECK_COW \<Rightarrow> if e AND PTE_COW \<noteq> 0 then 1 else 0
          | GET_PA \<Rightarrow> pte_pa e
          | GET_PROT \<Rightarrow> (e AND 0x3FF) AND NOT PTE_COW))"
  by (simp add: iterate_page_table_def leaf_entry_def Let_def)

subsection \<open>An example\<close>

text \<open>Eight and sixteen free pages, and a kernel with eight.\<close>

definition eight_pages :: slab where
  "eight_pages = \<lparr>page_allocator =
     \<lparr>frame_array = \<lparr>f_order = 3, f_status = FRAME_FREE\<rparr> # replicate 7 \<lparr>f_order = - 1, f_status = FRAME_BUDDY\<rparr>,
      freelists = replicate 3 [] @ [[0]] @ replicate 7 [], freelists_size = replicate 3 0 @ [1] @ replicate 7 0,
      base_addr = 0xffffffc000100000, total_pages = 8\<rparr>, pools = initial_pools\<rparr>"

fun pages_taken :: "nat \<Rightarrow> slab" where
  "pages_taken 0 = eight_pages"
| "pages_taken (Suc n) = snd (the (slab_alloc 4096 (pages_taken n)))"

lemma eight_pages_inv: "slab_inv eight_pages"
proof -
  have "startup_buddy 0xffffffc000100000 8 [] = Some (page_allocator eight_pages)" by code_simp
  then have "buddy_inv (page_allocator eight_pages)" "used_blocks (page_allocator eight_pages) = {}"
    using startup_buddy_ok [of 8 "0xffffffc000100000" "[]"] by simp_all
  then show ?thesis
    using initial_pools_inv [of "page_allocator eight_pages"] by (simp add: used_ok_def eight_pages_def)
qed

definition sixteen_pages :: slab where
  "sixteen_pages = \<lparr>page_allocator =
     \<lparr>frame_array = \<lparr>f_order = 4, f_status = FRAME_FREE\<rparr> # replicate 15 \<lparr>f_order = - 1, f_status = FRAME_BUDDY\<rparr>,
      freelists = replicate 4 [] @ [[0]] @ replicate 6 [], freelists_size = replicate 4 0 @ [1] @ replicate 6 0,
      base_addr = 0xffffffc000100000, total_pages = 16\<rparr>, pools = initial_pools\<rparr>"

lemma sixteen_pages_inv: "slab_inv sixteen_pages"
proof -
  have "startup_buddy 0xffffffc000100000 16 [] = Some (page_allocator sixteen_pages)" by code_simp
  then have "buddy_inv (page_allocator sixteen_pages)" "used_blocks (page_allocator sixteen_pages) = {}"
    using startup_buddy_ok [of 16 "0xffffffc000100000" "[]"] by simp_all
  then show ?thesis
    using initial_pools_inv [of "page_allocator sixteen_pages"] by (simp add: used_ok_def sixteen_pages_def)
qed

fun sixteen_taken :: "nat \<Rightarrow> slab" where
  "sixteen_taken 0 = sixteen_pages"
| "sixteen_taken (Suc n) = snd (the (slab_alloc 4096 (sixteen_taken n)))"

lemma sixteen_taken:
  "slab_alloc 4096 (sixteen_taken 0) = Some (0xffffffc000100000, sixteen_taken 1)"
  "slab_alloc 4096 (sixteen_taken 1) = Some (0xffffffc000101000, sixteen_taken 2)"
  by code_simp+

lemma pages_taken: "slab_alloc 4096 (pages_taken 0) = Some (0xffffffc000100000, pages_taken 1)"
  by code_simp

definition page_kernel :: kernel where
  "page_kernel = blank_kernel\<lparr>heap := eight_pages\<rparr>"

lemma new_tables:
  assumes "kernel_inv s" and "new_page s = Some (p, s')"
  shows "upath q \<Longrightarrow> walk (mem s') p q = (if q = [] then Some p else None)" "tables (mem s') p = {p}"
    "user_va a \<Longrightarrow> leaf_entry (mem s') p a = None"
proof -
  obtain h where h: "s' = s\<lparr>mem := memzero p 4096 (mem s), heap := h\<rparr>" "paged p"
    using new_page_ok [OF assms] by metis
  have z: "pte_get (mem s') p i = 0" if "i < 512" for i
    using pte_get_zero [OF h(2,2) that, of "mem s"] h(1) by simp
  show w: "walk (mem s') p q = (if q = [] then Some p else None)" if "upath q" for q
    using that z by (cases q) (auto simp: upath_def)
  have u: "upath []" by (simp add: upath_def)
  show "tables (mem s') p = {p}" unfolding tables_def using w w [OF u] u by (auto split: if_splits)
  show "leaf_entry (mem s') p a = None" if "user_va a"
    using w user_upath [OF that] by (simp add: leaf_entry_leaf leaf_def del: walk.simps)
qed

lemma new_pt_ok:
  assumes "kernel_inv s" and "new_page s = Some (p, s')"
  shows "pt_ok p s'"
proof -
  obtain h where h: "kernel_inv s'" "paged p" "allotted s' = insert p (allotted s)"
    using new_page_ok [OF assms] by metis
  have "tree (mem s') p" unfolding tree_def using new_tables(1) [OF assms] h(2) by (auto split: if_splits)
  then show ?thesis using h(1,3) new_tables(2) [OF assms] by (simp add: pt_ok_def)
qed

lemma new_page_taken:
  "slab_alloc 4096 (heap s) = Some (p, h) \<Longrightarrow> p \<noteq> 0 \<Longrightarrow>
   new_page s = Some (p, s\<lparr>heap := h, mem := memzero p 4096 (mem s)\<rparr>)"
  by (simp add: new_page_def allocate_def PAGE_SIZE_def zero_page_def)

text \<open>An empty address space with seven more free pages.\<close>

definition example_pgd :: u64 where "example_pgd = 0xffffffc000100000"

definition example_space :: kernel where
  "example_space = page_kernel\<lparr>heap := pages_taken 1, mem := memzero example_pgd 4096 (\<lambda>_. 0),
     active_user_pgd := example_pgd\<rparr>"

lemma example_ok: "pt_ok example_pgd example_space" "active_user_pgd example_space = example_pgd"
proof -
  have h: "heap (page_kernel\<lparr>active_user_pgd := example_pgd\<rparr>) = pages_taken 0" "mem page_kernel = (\<lambda>_. 0)"
    by (simp_all add: page_kernel_def)
  have k: "kernel_inv (page_kernel\<lparr>active_user_pgd := example_pgd\<rparr>)"
    using eight_pages_inv by (simp add: kernel_inv_def page_kernel_def)
  have "new_page (page_kernel\<lparr>active_user_pgd := example_pgd\<rparr>) = Some (example_pgd, example_space)"
    using new_page_taken [of "page_kernel\<lparr>active_user_pgd := example_pgd\<rparr>" example_pgd "pages_taken 1"]
      pages_taken h by (simp add: example_space_def example_pgd_def del: pages_taken.simps memzero.simps)
  then show "pt_ok example_pgd example_space" using new_pt_ok [OF k] by simp
  show "active_user_pgd example_space = example_pgd" by (simp add: example_space_def)
qed

lemma example_room: "can_alloc 7 (heap example_space)"
proof -
  have "can_alloc 7 (pages_taken 1)" by code_simp
  then show ?thesis by (simp only: example_space_def mm.select_convs mm.update_convs machine.update_convs) simp
qed

subsection \<open>Properties\<close>

text \<open>C2: Mapping an area of user pages updates the map from addresses to leaf entries at
  exactly the pages of the area, each with its physical page and the permissions, whether or not
  the tables for it exist; it changes no memory outside the tables of the task and takes new tables
  from free memory only.  With memory for two tables per page it succeeds.\<close>

theorem map_pages_refines:
  assumes "pt_ok pgd s" and "active_user_pgd s = pgd" and "paged va" and "paged pa"
    and "unat va + 4096 * n \<le> 2 ^ 38" and "can_alloc (2 * n) (heap s)"
  shows "\<exists>s'. map_pages va (of_nat (4096 * n)) pa prot s = Some s' \<and> pt_ok pgd s' \<and> grows pgd s s' \<and>
    (\<forall>a. user_va a \<longrightarrow> leaf_entry (mem s') pgd a =
      (if unat (a - va) < 4096 * n then Some (MAKE_PTE (pa + (a - va)) (prot OR PTE_V))
       else leaf_entry (mem s) pgd a))"
proof -
  have "n < 2 ^ 52" "can_alloc (2 * n + 0) (heap s)" using assms(5,6) by simp_all
  then obtain s' where "map_pages va (of_nat (4096 * n)) pa prot s = Some s'" using map_pages_some by blast
  then show ?thesis using map_pages_ok [OF assms(1-5)] by blast
qed

lemma map_pages_refines_witness:
  "\<exists>s'. map_pages 0x1000 0x2000 0x200000 PROT_USER_RW example_space = Some s' \<and> pt_ok example_pgd s' \<and>
     leaf_entry (mem s') example_pgd 0x2abc = Some (MAKE_PTE 0x201abc (PROT_USER_RW OR PTE_V)) \<and>
     leaf_entry (mem s') example_pgd 0x3000 = leaf_entry (mem example_space) example_pgd 0x3000"
proof -
  have "can_alloc (2 * 2) (heap example_space)" using example_room by (rule can_alloc_less) simp
  moreover have "paged 0x1000" "paged 0x200000" "user_va 0x2abc" "user_va 0x3000" by (simp_all add: paged_def user_va_def)
  ultimately show ?thesis
    using map_pages_refines [OF example_ok, of "0x1000" "0x200000" 2 PROT_USER_RW] by auto
qed

end
