(* ===== verification/Page_Faults.thy ===== *)
theory Page_Faults
  imports Page_Tables
begin

text \<open>
  What the page fault handler of src/lab7/src/paging.c achieves: the private copy after a write to
  a shared page, and the zeroed page at the first touch of a mapped area, up to the access that
  is tried again.
\<close>

subsection \<open>Frames\<close>

text \<open>A page that is no table can be written without a change of the tree.\<close>

lemma page_write:
  assumes "paged pgd" and "paged p" and "p \<notin> tables m pgd" and "\<And>x. \<not> unat (x - p) < 4096 \<Longrightarrow> m' x = m x"
  shows "tables m' pgd = tables m pgd" "tree m' pgd = tree m pgd"
    "user_va a \<Longrightarrow> leaf_entry m' pgd a = leaf_entry m pgd a"
proof -
  have ag: "\<forall>t \<in> tables m pgd. \<forall>j < 512. pte_get m' t j = pte_get m t j"
  proof (intro ballI allI impI)
    fix t and j :: nat
    assume t: "t \<in> tables m pgd" and j: "j < 512"
    have pt: "paged t" using tables_paged [OF assms(1) t] .
    show "pte_get m' t j = pte_get m t j"
      using pages_apart [OF assms(2) pt] t assms(3) by (intro pte_get_cong [OF pt j] assms(4)) auto
  qed
  note a = tree_agree [OF ag]
  show "tables m' pgd = tables m pgd" "tree m' pgd = tree m pgd" by (rule a(1), rule a(2))
  show "user_va a \<Longrightarrow> leaf_entry m' pgd a = leaf_entry m pgd a"
    using a(3) user_upath by (simp add: leaf_entry_leaf)
qed

lemma fresh_frame_ok:
  assumes k: "pt_ok pgd s" and e: "fresh_frame s = Some (p, s')"
  obtains h where "s' = set_page_ref_init (virt_to_phys p) (s\<lparr>mem := memzero p 4096 (mem s), heap := h\<rparr>)"
    and "pt_ok pgd s'" and "paged p" and "p \<notin> allotted s" and "allotted s' = insert p (allotted s)"
    and "live (heap s) \<subseteq> live h" and "tables (mem s') pgd = tables (mem s) pgd"
    and "\<forall>a. user_va a \<longrightarrow> leaf_entry (mem s') pgd a = leaf_entry (mem s) pgd a"
proof -
  obtain s1 where n: "new_page s = Some (p, s1)" "s' = set_page_ref_init (virt_to_phys p) s1"
    using e by (auto simp: fresh_frame_def)
  have i: "kernel_inv s" "tree (mem s) pgd" "tables (mem s) pgd \<subseteq> allotted s" using k by (simp_all add: pt_ok_def)
  obtain h where h: "s1 = s\<lparr>mem := memzero p 4096 (mem s), heap := h\<rparr>" "kernel_inv s1" "paged p" "p \<notin> allotted s"
    "allotted s1 = insert p (allotted s)" "live (heap s) \<subseteq> live h"
    using new_page_ok [OF i(1) n(1)] by metis
  have same: "mem s' = mem s1" "heap s' = heap s1" using n(2) by (simp_all add: set_page_ref_init_def Let_def)
  have m: "mem s1 x = mem s x" if "\<not> unat (x - p) < 4096" for x using h(1) that by (simp add: memzero_eq)
  have pg: "paged pgd" using i(2) by (simp add: tree_def)
  have pt: "p \<notin> tables (mem s) pgd" using h(4) i(3) by blast
  note w = page_write [OF pg h(3) pt m]
  show thesis
  proof (rule that [of h])
    show "pt_ok pgd s'" using i(2,3) h(2,5) w(1,2) same by (auto simp: pt_ok_def kernel_inv_def)
  qed (use n(2) h w same in auto)
qed

lemma fresh_frame_some:
  "can_alloc (Suc k) (heap s) \<Longrightarrow> \<exists>p s'. fresh_frame s = Some (p, s') \<and> can_alloc k (heap s')"
  using new_page_some [of k s] by (auto simp: fresh_frame_def set_page_ref_init_def Let_def)

text \<open>Printing changes the console only.\<close>

lemma put_bytes_sel [simp]:
  "mem (put_bytes bs s) = mem s" "mm.heap (put_bytes bs (s :: 'a mm_scheme)) = heap s"
  by (simp_all add: put_bytes_def)

lemma pt_ok_cong: "mem s' = mem s \<Longrightarrow> heap s' = heap s \<Longrightarrow> pt_ok pgd s' = pt_ok pgd s"
  by (simp add: pt_ok_def kernel_inv_def)

text \<open>The page of an address.\<close>

lemma page_of:
  fixes va :: u64
  shows "unat (va AND NOT 4095) = unat va div 4096 * 4096" "paged (va AND NOT 4095)"
    "user_va va \<Longrightarrow> user_va (va AND NOT 4095)"
    "unat (a - (va AND NOT 4095)) < 4096 \<longleftrightarrow> unat a div 4096 = unat va div 4096"
proof -
  have m: "(4095 :: u64) = mask 12" by (simp add: mask_eq_exp_minus_1)
  show u: "unat (va AND NOT 4095) = unat va div 4096 * 4096" unfolding m using unat_and_not_mask [of va 12] by simp
  then show p: "paged (va AND NOT 4095)" by (simp add: paged_def)
  show "user_va va \<Longrightarrow> user_va (va AND NOT 4095)"
    unfolding user_va_def u by (rule le_less_trans [OF div_times_less_eq_dividend])
  show "unat (a - (va AND NOT 4095)) < 4096 \<longleftrightarrow> unat a div 4096 = unat va div 4096"
    using in_page_div [OF p, of a] u by simp
qed

lemma grows_page:
  assumes "grows pgd s s'" and "pt_ok pgd s'" and "paged q" and "q \<in> allotted s" and "q \<notin> tables (mem s) pgd"
    and "unat (x - q) < 4096"
  shows "mem s' x = mem s x"
proof (rule growsD(7) [OF assms(1)])
  fix t
  assume t: "t \<in> tables (mem s') pgd"
  have "paged pgd" using assms(2) by (simp add: pt_ok_def tree_def)
  then have "paged t" using t tables_paged by blast
  moreover have "t \<noteq> q" using t growsD(5) [OF assms(1)] assms(4,5) by blast
  ultimately show "\<not> unat (x - t) < 4096" using pages_apart assms(3,6) by blast
qed

lemma map_current_ok:
  assumes "pt_ok pgd s" and "paged p" and "user_va va"
    and "map_current pgd (va AND NOT 4095) (virt_to_phys p) prot s = Some s'"
  shows "pt_ok pgd s' \<and> grows pgd (s\<lparr>active_user_pgd := pgd\<rparr>) s' \<and>
      (\<forall>a. user_va a \<longrightarrow> leaf_entry (mem s') pgd a =
        (if unat a div 4096 = unat va div 4096 then Some (MAKE_PTE (virt_to_phys p) (prot OR PTE_V))
         else leaf_entry (mem s) pgd a))"
proof -
  have ok: "pt_ok pgd (s\<lparr>active_user_pgd := pgd\<rparr>)" "active_user_pgd (s\<lparr>active_user_pgd := pgd\<rparr>) = pgd"
    using assms(1) by (simp_all add: pt_ok_def kernel_inv_def)
  have pp: "paged (virt_to_phys p)" unfolding virt_to_phys_def using assms(2) paged_OFFSET by (rule paged_diff)
  show ?thesis
    using map_page_ok [OF ok page_of(2) pp page_of(3) [OF assms(3)]] assms(4) page_of(4)
    by (simp add: map_current_def)
qed

lemma map_current_some:
  "can_alloc (Suc (Suc d)) (heap s) \<Longrightarrow> \<exists>s'. map_current pgd va pa prot s = Some s' \<and> can_alloc d (heap s')"
  using map_pages_some [of 1 d "s\<lparr>active_user_pgd := pgd\<rparr>" va pa prot] by (simp add: map_current_def PAGE_SIZE_def)

subsection \<open>The private copy\<close>

lemma fault_text:
  "\<exists>bs. uart_printf ''[Permission fault]: %x\<newline>'' [W a] s = Some (put_bytes bs s)"
  "\<exists>bs. uart_printf ''[Mmap Translation fault]: %x\<newline>'' [W a] s = Some (put_bytes bs s)"
  by (simp_all add: uart_printf_def str8_def char_u8_def) blast+

text \<open>The new entry: the old flags, writable instead of copy-on-write.\<close>

definition private_flags :: "u64 \<Rightarrow> u64" where
  "private_flags e = (e AND 0x3FF AND NOT PTE_COW) OR PTE_W"

lemma bit_power: "k < 64 \<Longrightarrow> bit (2 ^ k :: u64) n \<longleftrightarrow> n = k"
  by (auto simp: bit_exp_iff)

lemma flag_bits: "bit PTE_W n \<longleftrightarrow> n = 2" "bit PTE_COW n \<longleftrightarrow> n = 8" "bit PTE_V n \<longleftrightarrow> n = 0"
  using bit_power [of 2 n] bit_power [of 8 n] bit_power [of 0 n]
  by (simp_all add: PTE_W_def PTE_COW_def PTE_V_def)

lemma private_flags:
  "valid e \<Longrightarrow> ((e AND 0x3FF) AND NOT PTE_COW OR PTE_W) OR PTE_V = private_flags e"
  "private_flags e AND NOT 0x3FF = 0" "private_flags e AND PTE_W \<noteq> 0" "private_flags e AND PTE_COW = 0"
proof -
  have m: "(0x3FF :: u64) = mask 10" by (simp add: mask_eq_exp_minus_1)
  show "valid e \<Longrightarrow> ((e AND 0x3FF) AND NOT PTE_COW OR PTE_W) OR PTE_V = private_flags e"
    unfolding valid_iff private_flags_def m by (rule bit_word_eqI) (auto simp: bit_simps flag_bits)
  show "private_flags e AND NOT 0x3FF = 0" unfolding private_flags_def m
    by (rule bit_word_eqI) (auto simp: bit_simps flag_bits)
  show "private_flags e AND PTE_COW = 0" unfolding private_flags_def m
    by (rule bit_word_eqI) (auto simp: bit_simps flag_bits)
  have "bit (private_flags e AND PTE_W) 2" by (simp add: private_flags_def bit_simps flag_bits)
  then show "private_flags e AND PTE_W \<noteq> 0" by fastforce
qed

lemma page_idx_distinct:
  assumes "paged p" and "paged q" and "page_idx dbg (virt_to_phys p) = page_idx dbg (virt_to_phys q)"
  shows "p = q"
proof -
  let ?f = "\<lambda>x. virt_to_phys x - RAM_START dbg"
  have r: "paged (RAM_START dbg)" by (simp add: RAM_START_def paged_def)
  have p: "paged (?f p)" "paged (?f q)" unfolding virt_to_phys_def using assms(1,2) r paged_OFFSET by (intro paged_diff; simp)+
  have "drop_bit 12 (?f p) = drop_bit 12 (?f q)" using assms(3) by (simp add: page_idx_def word_unat_eq_iff)
  moreover have "take_bit 12 (?f p) = take_bit 12 (?f q)" using p by (simp add: paged_take)
  ultimately have "?f p = ?f q" by (metis bits_ident)
  then show ?thesis by (simp add: virt_to_phys_def)
qed

text \<open>The hypotheses about the shared page: the entry of the address, and its frame in use and
  no table.\<close>

definition shared_page :: "u64 \<Rightarrow> kernel \<Rightarrow> u64 \<Rightarrow> u64 \<Rightarrow> bool" where
  "shared_page pgd s va e \<longleftrightarrow>
     pt_ok pgd s \<and> user_va va \<and> leaf_entry (mem s) pgd va = Some e \<and>
     next_table e \<in> allotted s \<and> next_table e \<notin> tables (mem s) pgd"

text \<open>What happens to the shared frame: it loses a reference, and stays in use exactly when others are left
  (a frame outside the pages that have a counter counts as referenced once).\<close>

definition reference_dropped :: "u64 \<Rightarrow> kernel \<Rightarrow> kernel \<Rightarrow> bool" where
  "reference_dropped e s s' \<longleftrightarrow>
     (let i = page_idx (debug s) (pte_pa e)
      in allotted s - {next_table e} \<subseteq> allotted s' \<and>
         (if i < NUM_PAGES (debug s) \<and> 1 < page_ref_counts s i
          then next_table e \<in> allotted s' \<and> page_ref_counts s' i = page_ref_counts s i - 1
          else next_table e \<notin> allotted s'))"

text \<open>After the fault the address has a page of its own: a frame that was free, with the old
  contents and flags but writable; every other page of the task is mapped as before, no page
  that was in use and is no table changes, and the shared frame loses the reference.\<close>

definition private_copy :: "u64 \<Rightarrow> u64 \<Rightarrow> u64 \<Rightarrow> kernel \<Rightarrow> kernel \<Rightarrow> bool" where
  "private_copy pgd va e s s' \<longleftrightarrow>
     pt_ok pgd s' \<and> satp s' = satp s \<and> reference_dropped e s s' \<and>
     (\<exists>p. paged p \<and> p \<notin> allotted s \<and> p \<in> allotted s' \<and> p \<notin> tables (mem s') pgd \<and>
        leaf_entry (mem s') pgd va = Some (MAKE_PTE (virt_to_phys p) (private_flags e)) \<and>
        (\<forall>k < 4096. mem s' (p + of_nat k) = mem s (next_table e + of_nat k))) \<and>
     (\<forall>a. user_va a \<and> unat a div 4096 \<noteq> unat va div 4096 \<longrightarrow>
        leaf_entry (mem s') pgd a = leaf_entry (mem s) pgd a) \<and>
     (\<forall>q x. paged q \<and> q \<in> allotted s \<and> q \<notin> tables (mem s) pgd \<and> unat (x - q) < 4096 \<longrightarrow> mem s' x = mem s x)"

lemma copy_frame:
  assumes "paged p" and "paged q" and "p \<noteq> q"
  shows "k < 4096 \<Longrightarrow> memcpy p q 4096 m (p + of_nat k) = m (q + of_nat k)"
    "\<not> unat (x - p) < 4096 \<Longrightarrow> memcpy p q 4096 m x = m x"
proof -
  have "p + of_nat i \<noteq> q + of_nat j" if "i < 4096" "j < 4096" for i j :: nat
  proof
    assume eq: "p + of_nat i = q + of_nat j"
    have "unat (p + of_nat i - p) < 4096" using that by (simp add: unat_of_nat64)
    moreover have "unat (p + of_nat i - q) < 4096" unfolding eq using that by (simp add: unat_of_nat64)
    ultimately have "unat (p + of_nat i - p) < 4096 \<and> unat (p + of_nat i - q) < 4096" by blast
    then show False using pages_apart [OF assms(1,2), of "p + of_nat i"] assms(3) by blast
  qed
  then have c: "memcpy p q 4096 m = (\<lambda>x. if unat (x - p) < 4096 then m (q + (x - p)) else m x)"
    by (intro memcpy_eq) auto
  show "k < 4096 \<Longrightarrow> memcpy p q 4096 m (p + of_nat k) = m (q + of_nat k)"
    unfolding c by (simp add: unat_of_nat64)
  show "\<not> unat (x - p) < 4096 \<Longrightarrow> memcpy p q 4096 m x = m x" unfolding c by simp
qed

lemma decrement_sel:
  "mem (snd (decrement_page_ref pa s)) = mem s" "heap (snd (decrement_page_ref pa s)) = heap s"
  "satp (snd (decrement_page_ref pa s)) = satp s"
  by (simp_all add: decrement_page_ref_def Let_def)

text \<open>The last step: the shared frame loses a reference, and is freed with the last one.\<close>

lemma decrement_zero:
  assumes "decrement_page_ref pa s = (n, s1)" and "i = page_idx (debug s) pa"
  shows "n = 0 \<longleftrightarrow> \<not> (i < NUM_PAGES (debug s) \<and> 1 < page_ref_counts s i)"
    "n \<noteq> 0 \<Longrightarrow> page_ref_counts s1 i = page_ref_counts s i - 1"
proof -
  define c where "c = page_ref_counts s i"
  have u: "unat (c - 1) = 0 \<longleftrightarrow> c = 1" by (metis right_minus_eq unsigned_eq_0_iff)
  have o: "1 < c \<longleftrightarrow> c \<noteq> 0 \<and> c \<noteq> 1" by (auto simp: word_less_nat_alt word_unat_eq_iff)
  have d: "n = (if i < NUM_PAGES (debug s) \<and> 0 < c then unat (c - 1) else 0)"
    "i < NUM_PAGES (debug s) \<Longrightarrow> 0 < c \<Longrightarrow> page_ref_counts s1 i = c - 1"
    using assms by (auto simp: decrement_page_ref_def Let_def c_def word_gt_0 split: if_splits)
  have z: "0 < c \<longleftrightarrow> c \<noteq> 0" by (auto simp: word_gt_0)
  show e: "n = 0 \<longleftrightarrow> \<not> (i < NUM_PAGES (debug s) \<and> 1 < page_ref_counts s i)"
    using u by (auto simp: d(1) z o c_def [symmetric])
  show "page_ref_counts s1 i = page_ref_counts s i - 1" if "n \<noteq> 0"
    using that d(2) e o z by (simp add: c_def [symmetric])
qed

lemma fst_remove:
  assumes "\<And>j. (a, j) \<in> L \<Longrightarrow> j = m"
  shows "fst ` (L - {(a, m)}) = fst ` L - {a}"
proof -
  have "x \<in> fst ` (L - {(a, m)})" if "(x, n) \<in> L" "x \<noteq> a" for x n
    using that by (intro image_eqI [of _ _ "(x, n)"]) simp_all
  then show ?thesis using assms by fastforce
qed

lemma drop_reference:
  assumes "pt_ok pgd s" and "next_table e \<in> allotted s" and "next_table e \<notin> tables (mem s) pgd"
    and r: "r = (case decrement_page_ref (pte_pa e) s of (n, s1) \<Rightarrow> if n = 0 then kfree (next_table e) s1 else Some s1)"
  shows "\<exists>s'. r = Some s' \<and> pt_ok pgd s' \<and> mem s' = mem s \<and> satp s' = satp s \<and> reference_dropped e s s'"
proof -
  obtain n s1 where d: "decrement_page_ref (pte_pa e) s = (n, s1)" by (cases "decrement_page_ref (pte_pa e) s")
  have s1: "mem s1 = mem s" "heap s1 = heap s" "satp s1 = satp s" using decrement_sel [of "pte_pa e" s] d by simp_all
  note z = decrement_zero [OF d refl]
  have ok: "kernel_inv s1" "tree (mem s1) pgd" "tables (mem s1) pgd \<subseteq> allotted s1"
    using assms(1) s1 by (simp_all add: pt_ok_def kernel_inv_def)
  show ?thesis
  proof (cases "n = 0")
    case True
    obtain m where m: "(next_table e, m) \<in> live (heap s1)" using assms(2) s1 by auto
    obtain h where h: "kfree (next_table e) s1 = Some (s1\<lparr>heap := h\<rparr>)" "kernel_inv (s1\<lparr>heap := h\<rparr>)"
      "live h = live (heap s1) - {(next_table e, m)}"
      using kfree_live [OF ok(1) m] .
    have "j = m" if "(next_table e, j) \<in> live (heap s1)" for j
      using live_unique that m ok(1) unfolding kernel_inv_def by blast
    then have iu: "allotted (s1\<lparr>heap := h\<rparr>) = allotted s - {next_table e}"
      using fst_remove [of "next_table e" "live (heap s1)" m] h(3) s1(2) by simp
    moreover have "tables (mem s1) pgd \<subseteq> allotted s - {next_table e}" using ok(3) assms(3) s1 by auto
    ultimately have "pt_ok pgd (s1\<lparr>heap := h\<rparr>)" using ok(2) h(2) by (simp add: pt_ok_def)
    moreover have "reference_dropped e s (s1\<lparr>heap := h\<rparr>)"
      using True z(1) unfolding reference_dropped_def Let_def iu by simp
    ultimately show ?thesis using r d True h(1) s1 by simp
  next
    case False
    then have "reference_dropped e s s1"
      unfolding reference_dropped_def Let_def using z s1(2) assms(2) by auto
    then show ?thesis using r d s1 False assms(1) pt_ok_cong [of s1 s pgd] by simp
  qed
qed

text \<open>The fresh frame filled from another page.\<close>

lemma copied_frame:
  assumes ok: "pt_ok pgd s" and f: "fresh_frame s = Some (p, s1)"
    and F: "paged F" "F \<in> allotted s" and s2: "s2 = s1\<lparr>mem := memcpy p F 4096 (mem s1)\<rparr>"
  shows "pt_ok pgd s2" "paged p" "p \<notin> allotted s" "allotted s2 = insert p (allotted s)"
    "tables (mem s2) pgd = tables (mem s) pgd"
    "user_va a \<Longrightarrow> leaf_entry (mem s1) pgd a = leaf_entry (mem s) pgd a"
    "user_va a \<Longrightarrow> leaf_entry (mem s2) pgd a = leaf_entry (mem s) pgd a"
    "k < 4096 \<Longrightarrow> mem s2 (p + of_nat k) = mem s (F + of_nat k)"
    "\<not> unat (x - p) < 4096 \<Longrightarrow> mem s2 x = mem s x"
    "satp s2 = satp s" "debug s2 = debug s"
    "page_ref_counts s2 (page_idx (debug s) (virt_to_phys F)) = page_ref_counts s (page_idx (debug s) (virt_to_phys F))"
proof -
  obtain h where h: "s1 = set_page_ref_init (virt_to_phys p) (s\<lparr>mem := memzero p 4096 (mem s), heap := h\<rparr>)"
    "pt_ok pgd s1" "paged p" "p \<notin> allotted s" "allotted s1 = insert p (allotted s)"
    "tables (mem s1) pgd = tables (mem s) pgd"
    "\<forall>a. user_va a \<longrightarrow> leaf_entry (mem s1) pgd a = leaf_entry (mem s) pgd a"
    using fresh_frame_ok [OF ok f] by metis
  have ne: "p \<noteq> F" using h(4) F(2) by auto
  have m1: "mem s1 = memzero p 4096 (mem s)" unfolding h(1) by (simp add: set_page_ref_init_def Let_def)
  show "satp s2 = satp s" "debug s2 = debug s" unfolding s2 h(1) by (simp_all add: set_page_ref_init_def Let_def)
  show "page_ref_counts s2 (page_idx (debug s) (virt_to_phys F)) = page_ref_counts s (page_idx (debug s) (virt_to_phys F))"
    using page_idx_distinct [OF F(1) h(3), of "debug s"] ne unfolding s2 h(1) by (auto simp: set_page_ref_init_def Let_def)
  have o1: "mem s1 x = mem s x" if "\<not> unat (x - p) < 4096" for x using m1 that by (simp add: memzero_eq)
  have pt: "p \<notin> tables (mem s1) pgd" using h(4,6) ok unfolding pt_ok_def by auto
  have pg: "paged pgd" using ok by (simp add: pt_ok_def tree_def)
  have out: "mem s2 x = mem s1 x" if "\<not> unat (x - p) < 4096" for x
    unfolding s2 using copy_frame(2) [OF h(3) F(1) ne that] by simp
  note w = page_write [where m' = "mem s2", OF pg h(3) pt out]
  show "pt_ok pgd s2" using h(2) w(1,2) by (simp add: pt_ok_def kernel_inv_def s2)
  show "paged p" "p \<notin> allotted s" "allotted s2 = insert p (allotted s)" using h(3-5) by (simp_all add: s2)
  show "tables (mem s2) pgd = tables (mem s) pgd" using w(1) h(6) by simp
  show "user_va a \<Longrightarrow> leaf_entry (mem s1) pgd a = leaf_entry (mem s) pgd a" using h(7) by blast
  then show "user_va a \<Longrightarrow> leaf_entry (mem s2) pgd a = leaf_entry (mem s) pgd a" using w(3) by simp
  show "\<not> unat (x - p) < 4096 \<Longrightarrow> mem s2 x = mem s x" using out o1 by simp
  show "mem s2 (p + of_nat k) = mem s (F + of_nat k)" if k: "k < 4096"
  proof -
    have "unat (F + of_nat k - F) < 4096" using k by (simp add: unat_of_nat64)
    then have "\<not> unat (F + of_nat k - p) < 4096" using pages_apart [OF h(3) F(1)] ne by blast
    then show ?thesis unfolding s2 using copy_frame(1) [OF h(3) F(1) ne k] o1 by simp
  qed
qed

text \<open>Mapping the copy and dropping the reference to the shared frame.\<close>

lemma copy_mapped:
  assumes sp: "shared_page pgd s va e"
    and s2: "pt_ok pgd s2" "paged p" "p \<notin> allotted s" "allotted s2 = insert p (allotted s)"
      "tables (mem s2) pgd = tables (mem s) pgd"
      "\<And>a. user_va a \<Longrightarrow> leaf_entry (mem s2) pgd a = leaf_entry (mem s) pgd a"
      "\<And>k. k < 4096 \<Longrightarrow> mem s2 (p + of_nat k) = mem s (next_table e + of_nat k)"
      "\<And>x. \<not> unat (x - p) < 4096 \<Longrightarrow> mem s2 x = mem s x"
    and c2: "satp s2 = satp s" "debug s2 = debug s"
      "page_ref_counts s2 (page_idx (debug s) (pte_pa e)) = page_ref_counts s (page_idx (debug s) (pte_pa e))"
    and m: "map_current pgd (va AND NOT 4095) (virt_to_phys p) ((e AND 0x3FF) AND NOT PTE_COW OR PTE_W) s2 = Some s3"
  shows "\<exists>s'. (case decrement_page_ref (pte_pa e) s3 of (n, s4) \<Rightarrow> if n = 0 then kfree (next_table e) s4 else Some s4) = Some s' \<and>
    private_copy pgd va e s s'"
proof -
  have ok: "pt_ok pgd s" "user_va va" "leaf_entry (mem s) pgd va = Some e"
    "next_table e \<in> allotted s" "next_table e \<notin> tables (mem s) pgd"
    using sp by (simp_all add: shared_page_def)
  have ve: "valid e" using ok(3) by (auto simp: leaf_entry_def Let_def split: if_splits)
  note u = map_current_ok [OF s2(1,2) ok(2) m]
  have g: "grows pgd (s2\<lparr>active_user_pgd := pgd\<rparr>) s3" and k: "pt_ok pgd s3" using u by blast+
  have l: "leaf_entry (mem s3) pgd a = (if unat a div 4096 = unat va div 4096
      then Some (MAKE_PTE (virt_to_phys p) (private_flags e)) else leaf_entry (mem s) pgd a)" if "user_va a" for a
    using u that s2(6) [OF that] private_flags(1) [OF ve] by simp
  have iu: "allotted s2 \<subseteq> allotted s3" using growsD(3) [OF g] by simp
  have nt: "tables (mem s3) pgd \<inter> allotted s2 \<subseteq> tables (mem s) pgd" using growsD(5) [OF g] s2(5) by simp
  have sub: "tables (mem s) pgd \<subseteq> allotted s" using ok(1) by (simp add: pt_ok_def)
  have F: "next_table e \<in> allotted s3" "next_table e \<notin> tables (mem s3) pgd"
    using iu nt ok(4,5) s2(4) by auto
  obtain s' where r: "(case decrement_page_ref (pte_pa e) s3 of (n, s4) \<Rightarrow> if n = 0 then kfree (next_table e) s4 else Some s4) = Some s'"
    "pt_ok pgd s'" "mem s' = mem s3" "satp s' = satp s3" "reference_dropped e s3 s'"
    using drop_reference [OF k F refl] by blast
  have same: "satp s3 = satp s" "debug s3 = debug s" "page_ref_counts s3 = page_ref_counts s2"
    using growsD(1) [OF g] c2 by auto
  have left: "allotted s3 - {next_table e} \<subseteq> allotted s'" using r(5) by (simp add: reference_dropped_def Let_def)
  have "allotted s \<subseteq> allotted s3" using order_trans [OF subset_insertI iu [unfolded s2(4)]] .
  then have "allotted s - {next_table e} \<subseteq> allotted s'" using order_trans [OF Diff_mono [OF _ order_refl] left] by metis
  then have rd: "reference_dropped e s s'"
    using r(5) unfolding reference_dropped_def Let_def same c2(3) by simp
  have keep: "mem s3 x = mem s2 x" if "paged q" "q \<in> allotted s2" "q \<notin> tables (mem s) pgd" "unat (x - q) < 4096" for q x
    using grows_page [OF g k that(1)] that s2(5) by simp
  have content: "mem s' (p + of_nat i) = mem s (next_table e + of_nat i)" if "i < 4096" for i
    using keep [OF s2(2), of "p + of_nat i"] s2(3,4,7) sub that r(3) by (auto simp: unat_of_nat64)
  have rest: "mem s' x = mem s x"
    if "paged q" "q \<in> allotted s" "q \<notin> tables (mem s) pgd" "unat (x - q) < 4096" for q x
  proof -
    have "\<not> unat (x - p) < 4096" using pages_apart [OF that(1) s2(2) that(4)] that(2) s2(3) by blast
    then show ?thesis using keep [OF that(1) _ that(3,4)] that(2) s2(4,8) r(3) by simp
  qed
  have "p \<noteq> next_table e" "p \<in> allotted s3" using s2(3,4) ok(4) iu by blast+
  then have live: "p \<in> allotted s'" using left by blast
  have "p \<in> allotted s2" "p \<notin> tables (mem s) pgd" using s2(3,4) sub by blast+
  then have new: "p \<notin> tables (mem s') pgd" unfolding r(3) using nt by blast
  have "private_copy pgd va e s s'"
    unfolding private_copy_def
  proof (intro conjI)
    show "\<exists>p. paged p \<and> p \<notin> allotted s \<and> p \<in> allotted s' \<and> p \<notin> tables (mem s') pgd \<and>
        leaf_entry (mem s') pgd va = Some (MAKE_PTE (virt_to_phys p) (private_flags e)) \<and>
        (\<forall>k < 4096. mem s' (p + of_nat k) = mem s (next_table e + of_nat k))"
      using s2(2,3) live new content l [OF ok(2)] r(3) by (intro exI [of _ p] conjI allI impI) simp_all
    show "\<forall>q x. paged q \<and> q \<in> allotted s \<and> q \<notin> tables (mem s) pgd \<and> unat (x - q) < 4096 \<longrightarrow> mem s' x = mem s x"
      using rest by blast
  qed (use r(2-4) rd same(1) l in simp_all)
  then show ?thesis using r(1) by blast
qed

lemma cow_fault_ok:
  assumes sp: "shared_page pgd s va e" and room: "can_alloc 3 (heap s)"
  shows "\<exists>s'. cow_fault pgd va s = Some s' \<and> private_copy pgd va e s s'"
proof -
  have ok: "pt_ok pgd s" "user_va va" "leaf_entry (mem s) pgd va = Some e"
    "next_table e \<in> allotted s" "next_table e \<notin> tables (mem s) pgd"
    using sp by (simp_all add: shared_page_def)
  define F where "F = next_table e"
  have pF: "paged F" unfolding F_def by (rule next_table_paged)
  obtain bs where t: "uart_printf ''[Permission fault]: %x\<newline>'' [W va] s = Some (put_bytes bs s)"
    using fault_text(1) [of va s] by blast
  define s0 where "s0 = put_bytes bs s"
  have s0: "mem s0 = mem s" "heap s0 = heap s" "pt_ok pgd s0" "F \<in> allotted s0"
    using ok(1,4) by (simp_all add: s0_def pt_ok_cong [of "put_bytes bs s" s] F_def)
  have c0: "satp s0 = satp s" "debug s0 = debug s" "page_ref_counts s0 = page_ref_counts s"
    by (simp_all add: s0_def put_bytes_def)
  have "can_alloc (Suc 2) (heap s0)" using room s0(2) by (simp add: numeral_3_eq_3 numeral_2_eq_2)
  then obtain p s1 where f: "fresh_frame s0 = Some (p, s1)" "can_alloc 2 (heap s1)"
    using fresh_frame_some by blast
  define s2 where "s2 = s1\<lparr>mem := memcpy p F 4096 (mem s1)\<rparr>"
  note c = copied_frame [OF s0(3) f(1) pF s0(4) s2_def]
  have l: "leaf_entry (mem s1) pgd va = Some e" "leaf_entry (mem s2) pgd va = Some e"
    using c(6,7) [OF ok(2)] ok(3) s0(1) by simp_all
  define prot where "prot = (e AND 0x3FF) AND NOT PTE_COW OR PTE_W"
  have "can_alloc (Suc (Suc 0)) (heap s2)" using f(2) by (simp add: s2_def numeral_2_eq_2)
  then obtain s3 where m: "map_current pgd (va AND NOT 4095) (virt_to_phys p) prot s2 = Some s3"
    using map_current_some by blast
  have unf: "cow_fault pgd va s = (case decrement_page_ref (pte_pa e) s3 of (n, s4) \<Rightarrow>
      if n = 0 then kfree F s4 else Some s4)"
  proof -
    have it: "iterate_page_table (mem s1) pgd va GET_PA = pte_pa e"
      "iterate_page_table (memcpy p F 4096 (mem s1)) pgd va GET_PROT = (e AND 0x3FF) AND NOT PTE_COW"
      using l by (simp_all add: iterate_leaf s2_def)
    have "phys_to_virt (pte_pa e) = F" by (simp add: F_def next_table_def)
    then show ?thesis using t f(1) it m
      by (simp add: cow_fault_def s0_def [symmetric] s2_def prot_def Let_def cong: if_cong)
  qed
  have sp0: "shared_page pgd s0 va e" using sp s0(1-3) by (simp add: shared_page_def)
  have pa: "virt_to_phys F = pte_pa e" by (simp add: F_def next_table_def phys_to_virt_def virt_to_phys_def)
  have "\<exists>s'. (case decrement_page_ref (pte_pa e) s3 of (n, s4) \<Rightarrow>
      if n = 0 then kfree (next_table e) s4 else Some s4) = Some s' \<and> private_copy pgd va e s0 s'"
    by (rule copy_mapped [OF sp0 c(1-5) c(7) _ c(9) c(10,11) c(12) [unfolded pa]])
      (use c(8) m in \<open>simp_all add: F_def prot_def\<close>)
  then obtain s' where s': "cow_fault pgd va s = Some s'" "private_copy pgd va e s0 s'"
    using unf unfolding F_def by auto
  then have "private_copy pgd va e s s'" using s0(1,2) c0 by (simp add: private_copy_def reference_dropped_def cong: if_cong)
  then show ?thesis using s'(1) by blast
qed

lemma shared_page_cong:
  "mem s' = mem s \<Longrightarrow> heap s' = heap s \<Longrightarrow> shared_page pgd s' va e = shared_page pgd s va e"
  by (simp add: shared_page_def pt_ok_def kernel_inv_def)

text \<open>An address space with one mapped page, and a current task with it.\<close>

lemma example_mapped:
  assumes "f AND NOT 0x3FF = 0"
  obtains s p where "paged p" and "can_alloc 4 (heap s)"
    and "shared_page example_pgd s 0x1abc (MAKE_PTE (virt_to_phys p) (f OR PTE_V))"
proof -
  have "can_alloc (Suc 6) (heap example_space)" using example_room by (simp add: numeral_eq_Suc)
  then obtain p s1 where f: "fresh_frame example_space = Some (p, s1)" "can_alloc 6 (heap s1)"
    using fresh_frame_some by blast
  obtain h where h: "pt_ok example_pgd s1" "paged p" "p \<notin> allotted example_space" "allotted s1 = insert p (allotted example_space)"
    "tables (mem s1) example_pgd = tables (mem example_space) example_pgd"
    using fresh_frame_ok [OF example_ok(1) f(1)] by metis
  have u: "user_va 0x1abc" by (simp add: user_va_def)
  have "can_alloc (Suc (Suc 4)) (heap s1)" using f(2) by (simp add: numeral_eq_Suc)
  then obtain s2 where m: "map_current example_pgd (0x1abc AND NOT 4095) (virt_to_phys p) f s1 = Some s2" "can_alloc 4 (heap s2)"
    using map_current_some by blast
  have k: "pt_ok example_pgd s2" "grows example_pgd (s1\<lparr>active_user_pgd := example_pgd\<rparr>) s2"
    "leaf_entry (mem s2) example_pgd 0x1abc = Some (MAKE_PTE (virt_to_phys p) (f OR PTE_V))"
    using map_current_ok [OF h(1,2) u m(1)] u by auto
  have fv: "(f OR PTE_V) AND NOT 0x3FF = 0"
    using assms by (simp add: bit.conj_disj_distrib2 PTE_V_def)
  have n: "next_table (MAKE_PTE (virt_to_phys p) (f OR PTE_V)) = p"
    by (simp add: next_table_def MAKE_PTE_pa [OF fv] page_num_phys [OF h(2)])
  have "p \<in> allotted s2" using growsD(3) [OF k(2)] h(4) by simp
  moreover have "p \<notin> tables (mem s1) example_pgd" using h(3,5) example_ok(1) by (auto simp: pt_ok_def)
  then have "p \<notin> tables (mem s2) example_pgd" using growsD(5) [OF k(2)] h(4) by auto
  ultimately show thesis using that [OF h(2) m(2)] k u n by (simp add: shared_page_def)
qed

definition with_task :: "u64 \<Rightarrow> task_struct \<Rightarrow> kernel \<Rightarrow> kernel" where
  "with_task va t s = s\<lparr>tp := 16, stval := va, task_structs := [16 \<mapsto> t]\<rparr>"

lemma with_task_sel [simp]:
  "mem (with_task va t s) = mem s" "heap (with_task va t s) = heap s" "stval (with_task va t s) = va"
  "task_structs (with_task va t s) (get_current (with_task va t s)) = Some t"
  "satp (with_task va t s) = satp s"
  by (simp_all add: with_task_def get_current_def)

subsection \<open>The first touch\<close>

lemma vma_prot_bits:
  "vma_page_prot prot AND NOT 0x3FF = 0" "vma_page_prot prot OR PTE_V = vma_page_prot prot"
  "vma_page_prot prot AND PTE_U \<noteq> 0"
  "prot AND 1 \<noteq> 0 \<Longrightarrow> vma_page_prot prot AND PTE_R \<noteq> 0"
proof -
  have all: "vma_page_prot prot \<in> {0xD1, 0xD3, 0xD7, 0xD9, 0xDB, 0xDF}"
    "prot AND 1 \<noteq> 0 \<Longrightarrow> vma_page_prot prot \<in> {0xD3, 0xD7, 0xDB, 0xDF}"
    by (auto simp: vma_page_prot_def Let_def PROT_USER_BASE_def PTE_V_def PTE_U_def PTE_A_def PTE_D_def
      PTE_R_def PTE_W_def PTE_X_def)
  show "vma_page_prot prot AND NOT 0x3FF = 0" "vma_page_prot prot OR PTE_V = vma_page_prot prot"
    "vma_page_prot prot AND PTE_U \<noteq> 0" using all(1) by (auto simp: PTE_V_def PTE_U_def)
  show "prot AND 1 \<noteq> 0 \<Longrightarrow> vma_page_prot prot AND PTE_R \<noteq> 0" using all(2) by (auto simp: PTE_R_def)
qed

text \<open>The demand page: a frame that was free, zeroed, mapped with the permissions of the area, and
  nothing else of the task's pages or of the pages in use changed.\<close>

definition demand_page :: "u64 \<Rightarrow> u64 \<Rightarrow> u32 \<Rightarrow> kernel \<Rightarrow> kernel \<Rightarrow> bool" where
  "demand_page pgd va prot s s' \<longleftrightarrow>
     pt_ok pgd s' \<and> satp s' = satp s \<and>
     (\<exists>p. paged p \<and> p \<notin> allotted s \<and> p \<in> allotted s' \<and>
        leaf_entry (mem s') pgd va = Some (MAKE_PTE (virt_to_phys p) (vma_page_prot prot)) \<and>
        (\<forall>k < 4096. mem s' (p + of_nat k) = 0)) \<and>
     (\<forall>a. user_va a \<and> unat a div 4096 \<noteq> unat va div 4096 \<longrightarrow>
        leaf_entry (mem s') pgd a = leaf_entry (mem s) pgd a) \<and>
     (\<forall>q x. paged q \<and> q \<in> allotted s \<and> q \<notin> tables (mem s) pgd \<and> unat (x - q) < 4096 \<longrightarrow> mem s' x = mem s x)"

lemma vma_fault_ok:
  assumes ok: "pt_ok pgd s" and u: "user_va va" and room: "can_alloc 3 (heap s)"
  shows "\<exists>s'. vma_fault pgd prot va s = Some s' \<and> demand_page pgd va prot s s'"
proof -
  obtain bs where t: "uart_printf ''[Mmap Translation fault]: %x\<newline>'' [W va] s = Some (put_bytes bs s)"
    using fault_text(2) [of va s] by blast
  define s0 where "s0 = put_bytes bs s"
  have s0: "mem s0 = mem s" "heap s0 = heap s" "pt_ok pgd s0" "satp s0 = satp s"
    using ok by (simp_all add: s0_def pt_ok_cong [of "put_bytes bs s" s]) (simp add: put_bytes_def)
  have "can_alloc (Suc 2) (heap s0)" using room s0(2) by (simp add: numeral_3_eq_3 numeral_2_eq_2)
  then obtain p s1 where f: "fresh_frame s0 = Some (p, s1)" "can_alloc 2 (heap s1)" using fresh_frame_some by blast
  obtain h where h: "s1 = set_page_ref_init (virt_to_phys p) (s0\<lparr>mem := memzero p 4096 (mem s0), heap := h\<rparr>)"
    "pt_ok pgd s1" "paged p" "p \<notin> allotted s0" "allotted s1 = insert p (allotted s0)"
    "tables (mem s1) pgd = tables (mem s0) pgd"
    "\<forall>a. user_va a \<longrightarrow> leaf_entry (mem s1) pgd a = leaf_entry (mem s0) pgd a"
    using fresh_frame_ok [OF s0(3) f(1)] by metis
  have m1: "mem s1 = memzero p 4096 (mem s)" "satp s1 = satp s"
    unfolding h(1) using s0 by (simp_all add: set_page_ref_init_def Let_def)
  have "can_alloc (Suc (Suc 0)) (heap s1)" using f(2) by (simp add: numeral_2_eq_2)
  then obtain s' where m: "map_current pgd (va AND NOT 4095) (virt_to_phys p) (vma_page_prot prot) s1 = Some s'"
    using map_current_some by blast
  note k = map_current_ok [OF h(2,3) u m]
  have g: "grows pgd (s1\<lparr>active_user_pgd := pgd\<rparr>) s'" and ok': "pt_ok pgd s'" using k by blast+
  have keep: "mem s' x = mem s1 x" if "paged q" "q \<in> allotted s1" "q \<notin> tables (mem s) pgd" "unat (x - q) < 4096" for q x
    using grows_page [OF g ok' that(1)] that h(6) s0(1) by simp
  have "satp s' = satp s" using growsD(1) [OF g] m1(2) by auto
  moreover have "p \<in> allotted s'" using growsD(3) [OF g] h(5) by simp
  moreover have "mem s' (p + of_nat i) = 0" if "i < 4096" for i
  proof -
    have "p \<notin> tables (mem s) pgd" using h(4) ok s0(2) by (auto simp: pt_ok_def)
    then show ?thesis using keep [OF h(3), of "p + of_nat i"] h(5) that m1(1)
      by (simp add: memzero_eq unat_of_nat64)
  qed
  moreover have "mem s' x = mem s x"
    if "paged q" "q \<in> allotted s" "q \<notin> tables (mem s) pgd" "unat (x - q) < 4096" for q x
  proof -
    have "\<not> unat (x - p) < 4096" using pages_apart [OF that(1) h(3) that(4)] that(2) h(4) s0(2) by auto
    then show ?thesis using keep [OF that(1) _ that(3,4)] that(2) h(5) s0(2) m1(1) by (simp add: memzero_eq)
  qed
  moreover have "vma_fault pgd prot va s = Some s'"
    using t f(1) m by (simp add: vma_fault_def s0_def [symmetric])
  ultimately show ?thesis
    unfolding demand_page_def using k h(3,4,7) s0(1,2) u vma_prot_bits(2) by auto
qed

subsection \<open>Properties\<close>

text \<open>C5: A store to a page that a fork left copy-on-write gives the task its own page: a frame that
  was free, with the contents and the flags of the shared one but writable and unmarked; the shared
  frame and every other page in use keep their contents, and all other pages of the task stay
  mapped as they were.  The shared frame loses a reference and is given back exactly when none is
  left.  With memory for three pages the handler succeeds.\<close>

theorem cow_write_private:
  assumes "task_structs s (get_current s) = Some t" and "shared_page (ts_pgd t) s (stval s) e"
    and "e AND PTE_COW \<noteq> 0" and "can_alloc 3 (heap s)"
  shows "\<exists>s'. page_fault_handler env 15 s = Some s' \<and> private_copy (ts_pgd t) (stval s) e s s'"
proof -
  have "leaf_entry (mem s) (ts_pgd t) (stval s) = Some e" using assms(2) by (simp add: shared_page_def)
  then have "page_fault_handler env 15 s = cow_fault (ts_pgd t) (stval s) s"
    using assms(1,3) by (simp add: page_fault_handler_def iterate_leaf)
  then show ?thesis using cow_fault_ok [OF assms(2,4)] by simp
qed

lemma cow_write_private_witness:
  "\<exists>s s' e. shared_page example_pgd s 0x1abc e \<and> stval s = 0x1abc \<and> e AND PTE_COW \<noteq> 0 \<and>
     page_fault_handler Some 15 s = Some s' \<and> private_copy example_pgd 0x1abc e s s'"
proof -
  define f where "f = PROT_USER_RX OR PTE_COW"
  have f: "f AND NOT 0x3FF = 0"
    by (simp add: f_def PROT_USER_RX_def PROT_USER_BASE_def PTE_V_def PTE_U_def PTE_A_def PTE_D_def PTE_R_def PTE_X_def PTE_COW_def)
  obtain s p where s: "paged p" "can_alloc 4 (heap s)"
    "shared_page example_pgd s 0x1abc (MAKE_PTE (virt_to_phys p) (f OR PTE_V))"
    using example_mapped [OF f] by blast
  define e where "e = MAKE_PTE (virt_to_phys p) (f OR PTE_V)"
  define t where "t = zero_task\<lparr>ts_pgd := example_pgd\<rparr>"
  have t: "ts_pgd t = example_pgd" by (simp add: t_def)
  have "bit (e AND PTE_COW) 8" by (simp add: e_def MAKE_PTE_def f_def bit_simps flag_bits)
  then have c: "e AND PTE_COW \<noteq> 0" by fastforce
  have sp: "shared_page (ts_pgd t) (with_task 0x1abc t s) (stval (with_task 0x1abc t s)) e"
    using s(3) shared_page_cong [of "with_task 0x1abc t s" s] by (simp add: e_def t)
  have r: "can_alloc 3 (heap (with_task 0x1abc t s))" using can_alloc_less [OF s(2), of 3] by simp
  obtain s' where "page_fault_handler Some 15 (with_task 0x1abc t s) = Some s'"
    "private_copy (ts_pgd t) (stval (with_task 0x1abc t s)) e (with_task 0x1abc t s) s'"
    using cow_write_private [OF with_task_sel(4) sp c r] by blast
  then have "shared_page example_pgd (with_task 0x1abc t s) 0x1abc e \<and> stval (with_task 0x1abc t s) = 0x1abc \<and>
      e AND PTE_COW \<noteq> 0 \<and> page_fault_handler Some 15 (with_task 0x1abc t s) = Some s' \<and>
      private_copy example_pgd 0x1abc e (with_task 0x1abc t s) s'"
    using sp c by (simp add: t)
  then show ?thesis by blast
qed



end
