(* ===== verification/Areas.thy ===== *)
theory Areas
  imports Syscall Page_Faults
begin

text \<open>
  The mapped areas of a task (\<open>sys_mmap\<close>, \<open>find_free_vma_space\<close> and \<open>check_vma_overlap\<close> of
  src/lab7/src/syscall.c): their invariant, which every call keeps as long as the end of the
  requested area does not wrap around, and the area that an address belongs to afterwards.
\<close>

subsection \<open>What mapping leaves alone\<close>

text \<open>Mapping memory changes bytes, the allocator, the reference counts and the active table.\<close>

definition memory_only :: "kernel \<Rightarrow> kernel \<Rightarrow> bool" where
  "memory_only s s' \<longleftrightarrow> (\<exists>m h r a. s' = s\<lparr>mem := m, heap := h, page_ref_counts := r, active_user_pgd := a\<rparr>)"

lemma memory_onlyI: "s' = s\<lparr>mem := m, heap := h, page_ref_counts := r, active_user_pgd := a\<rparr> \<Longrightarrow> memory_only s s'"
  by (auto simp: memory_only_def)

lemma memory_only_refl [simp]: "memory_only s s"
  by (rule memory_onlyI [where m = "mem s" and h = "heap s" and r = "page_ref_counts s" and a = "active_user_pgd s"]) simp

lemma memory_only_trans [trans]: "memory_only s s' \<Longrightarrow> memory_only s' s'' \<Longrightarrow> memory_only s s''"
  unfolding memory_only_def by (elim exE) (simp, blast)

lemma memory_only_upd [simp]:
  "memory_only s (s\<lparr>mem := m\<rparr>)" "memory_only s (s\<lparr>heap := h\<rparr>)"
  "memory_only s (s\<lparr>page_ref_counts := r\<rparr>)" "memory_only s (s\<lparr>active_user_pgd := a\<rparr>)"
  using memory_onlyI [of "s\<lparr>mem := m\<rparr>" "active_user_pgd s" "page_ref_counts s" "heap s" m s]
    memory_onlyI [of "s\<lparr>heap := h\<rparr>" "active_user_pgd s" "page_ref_counts s" h "mem s" s]
    memory_onlyI [of "s\<lparr>page_ref_counts := r\<rparr>" "active_user_pgd s" r "heap s" "mem s" s]
    memory_onlyI [of "s\<lparr>active_user_pgd := a\<rparr>" a "page_ref_counts s" "heap s" "mem s" s]
  by simp_all

lemma memory_only_sel:
  assumes "memory_only s s'"
  shows "task_structs s' = task_structs s" "get_current s' = get_current s" "tframes s' = tframes s"
    "debug s' = debug s" "zombie_queue s' = zombie_queue s" "run_queue s' = run_queue s"
  using assms by (auto simp: memory_only_def get_current_def)

lemma memory_only_allocate: "allocate n s = Some (p, s') \<Longrightarrow> memory_only s s'"
  by (auto simp: allocate_def split: bind_splits)

lemma memory_only_zero_page [simp]: "memory_only s (zero_page p s)"
  by (simp add: zero_page_def)

lemma memory_only_ref_init [simp]: "memory_only s (set_page_ref_init pa s)"
  by (simp add: set_page_ref_init_def Let_def)

lemma memory_only_new_page: "new_page s = Some (p, s') \<Longrightarrow> memory_only s s'"
  unfolding new_page_def
  by (auto split: bind_splits if_splits dest!: memory_only_allocate intro: memory_only_trans [OF _ memory_only_zero_page])

lemma memory_only_pte_set [simp]: "memory_only s (pte_set t i e s)"
  by (simp add: pte_set_def)

lemma memory_only_ensure: "ensure_table t i s = Some (u, s') \<Longrightarrow> memory_only s s'"
  unfolding ensure_table_def
  by (auto split: bind_splits if_splits dest!: memory_only_new_page intro: memory_only_trans)

lemma memory_only_pagewalk: "pagewalk va pa prot s = Some s' \<Longrightarrow> memory_only s s'"
  unfolding pagewalk_def Let_def
  by (auto split: bind_splits prod.splits dest!: memory_only_ensure intro: memory_only_trans)

lemma memory_only_map_loop:
  assumes "map_loop va sz pa prot i s = Some s'"
  shows "memory_only s s'"
proof (rule map_loop.raw_induct [where P = "\<lambda>va sz pa prot i s s'. memory_only s s'", OF _ assms])
  fix loop va sz pa prot i s s'
  assume IH: "\<And>va sz pa prot i s s'. loop va sz pa prot i s = Some s' \<Longrightarrow> memory_only s s'"
    and e: "(if i < sz then pagewalk (va + i) (pa + i) prot s \<bind> loop va sz pa prot (i + PAGE_SIZE) else Some s) = Some s'"
  show "memory_only s s'"
  proof (cases "i < sz")
    case True
    then obtain s1 where "pagewalk (va + i) (pa + i) prot s = Some s1" "loop va sz pa prot (i + PAGE_SIZE) s1 = Some s'"
      using e by (auto split: bind_splits)
    then show ?thesis using memory_only_pagewalk IH memory_only_trans by blast
  qed (use e in simp)
qed

lemma memory_only_map_current: "map_current pgd va pa prot s = Some s' \<Longrightarrow> memory_only s s'"
  unfolding map_current_def map_pages_def
  using memory_only_trans [OF memory_only_upd(4) memory_only_map_loop] by blast

lemma memory_only_populate:
  assumes "populate_loop pgd va len prot i s = Some r"
  shows "memory_only s (snd r)"
proof (rule populate_loop.raw_induct [where P = "\<lambda>pgd va len prot i s r. memory_only s (snd r)", OF _ assms])
  fix loop pgd va len prot i s and r :: "bool \<times> kernel"
  assume IH: "\<And>pgd va len prot i s r. loop pgd va len prot i s = Some r \<Longrightarrow> memory_only s (snd r)"
    and e: "(if i < len then allocate PAGE_SIZE s \<bind> (\<lambda>(p, s1).
         if p = 0 then Some (False, s1)
         else map_current pgd (va + i) (virt_to_phys p) prot (set_page_ref_init (virt_to_phys p) (zero_page p s1))
           \<bind> loop pgd va len prot (i + PAGE_SIZE)) else Some (True, s)) = Some r"
  show "memory_only s (snd r)"
  proof (cases "i < len")
    case True
    then obtain p s1 where a: "allocate PAGE_SIZE s = Some (p, s1)" using e by (auto split: bind_splits)
    note o = memory_only_allocate [OF a]
    show ?thesis
    proof (cases "p = 0")
      case True
      then show ?thesis using e \<open>i < len\<close> a o by auto
    next
      case False
      then obtain s2 where s2: "map_current pgd (va + i) (virt_to_phys p) prot
          (set_page_ref_init (virt_to_phys p) (zero_page p s1)) = Some s2"
        and r: "loop pgd va len prot (i + PAGE_SIZE) s2 = Some r"
        using e \<open>i < len\<close> a by (auto split: bind_splits)
      have "memory_only s1 s2"
        using memory_only_trans [OF memory_only_zero_page memory_only_ref_init]
          memory_only_trans memory_only_map_current [OF s2] by blast
      then show ?thesis using o IH [OF r] memory_only_trans by blast
    qed
  qed (use e in auto)
qed

subsection \<open>The invariant of the areas\<close>

definition areas :: "task_struct \<Rightarrow> vm_area list" where
  "areas t = take (ts_vma_count t) (ts_vmas t)"

definition area_ok :: "task_struct \<Rightarrow> vm_area \<Rightarrow> bool" where
  "area_ok t v \<longleftrightarrow> paged (vm_start v) \<and> paged (vm_end v) \<and> vm_start v < vm_end v \<and>
     ts_code_size t \<le> vm_start v \<and> (vm_end v \<le> USER_STACK \<or> USER_STACK + STACK_SIZE \<le> vm_start v)"

definition apart :: "vm_area \<Rightarrow> vm_area \<Rightarrow> bool" where
  "apart v w \<longleftrightarrow> vm_end v \<le> vm_start w \<or> vm_end w \<le> vm_start v"

definition areas_ok :: "task_struct \<Rightarrow> bool" where
  "areas_ok t \<longleftrightarrow> length (ts_vmas t) = 32 \<and> ts_vma_count t \<le> 32 \<and>
     (\<forall>v \<in> set (areas t). area_ok t v) \<and> sorted_wrt apart (areas t)"

text \<open>The area \<open>v\<close> is new: it is the last one, and just its addresses belong to it.\<close>

definition area_added :: "task_struct \<Rightarrow> vm_area \<Rightarrow> task_struct \<Rightarrow> bool" where
  "area_added t v t' \<longleftrightarrow> areas t' = areas t @ [v] \<and>
     (\<forall>a. find_vma t' a = (if vm_start v \<le> a \<and> a < vm_end v then Some v else find_vma t a))"

lemma no_overlap:
  assumes "\<not> check_vma_overlap t (vm_start v) (vm_end v)" and "paged (vm_start v)" and "paged (vm_end v)"
    and "vm_start v < vm_end v"
  shows "area_ok t v" "\<forall>w \<in> set (areas t). apart w v"
  using assms by (auto simp: check_vma_overlap_def area_ok_def apart_def areas_def not_less)

lemma find_append: "List.find P (xs @ [y]) = (case List.find P xs of Some x \<Rightarrow> Some x | None \<Rightarrow> if P y then Some y else None)"
  by (induction xs) auto

lemma add_vma_ok:
  assumes ok: "areas_ok t" and room: "ts_vma_count t < 32" and new: "area_ok t v" "\<forall>w \<in> set (areas t). apart w v"
  shows "areas_ok (add_vma v t)" "area_added t v (add_vma v t)"
proof -
  have a: "areas (add_vma v t) = areas t @ [v]"
    using ok room by (simp add: areas_def add_vma_def areas_ok_def take_Suc_conv_app_nth)
  have same: "area_ok (add_vma v t) w = area_ok t w" for w by (simp add: area_ok_def add_vma_def)
  show "areas_ok (add_vma v t)"
    using ok room new same by (auto simp: areas_ok_def a sorted_wrt_append) (simp_all add: add_vma_def)
  have "List.find (\<lambda>w. vm_start w \<le> x \<and> x < vm_end w) (areas t) = None" if "vm_start v \<le> x" "x < vm_end v" for x
    using new(2) that by (auto simp: find_None_iff apart_def)
  then show "area_added t v (add_vma v t)"
    unfolding area_added_def find_vma_def areas_def [symmetric] a
    by (auto simp: find_append split: option.splits)
qed

lemma find_space:
  assumes len: "unat len \<le> 2 ^ 63"
  shows "paged base \<Longrightarrow> unat base \<le> 2 ^ 39 \<Longrightarrow> 0 < unat base \<Longrightarrow>
    \<exists>r. vma_space_loop t len base = Some r \<and> (r = 0 \<or>
      paged r \<and> base \<le> r \<and> unat r + unat len \<le> unat USER_STACK \<and> \<not> check_vma_overlap t r (r + len))"
proof (induction "2 ^ 40 - unat base" arbitrary: base rule: less_induct)
  case less
  have sum: "unat (base + len) = unat base + unat len" using len less.prems(2) by (simp add: unat_word_ariths)
  show ?case
  proof (cases "base + len \<le> USER_STACK \<and> check_vma_overlap t base (base + len)")
    case False
    then show ?thesis using less.prems sum by (subst vma_space_loop.simps) (auto simp: word_le_nat_alt)
  next
    case True
    then have u: "unat base \<le> unat USER_STACK" using sum by (simp add: word_le_nat_alt)
    then have next_base: "unat (base + 4096) = unat base + 4096"
      by (simp add: unat_word_ariths USER_STACK_def)
    then have "paged (base + 4096)" using less.prems(1) by (simp add: paged_def)
    moreover have "2 ^ 40 - unat (base + 4096) < 2 ^ 40 - unat base"
      "unat (base + 4096) \<le> 2 ^ 39" "0 < unat (base + 4096)"
      unfolding next_base using u by (auto simp: USER_STACK_def)
    ultimately obtain r where "vma_space_loop t len (base + 4096) = Some r" "r = 0 \<or>
        paged r \<and> base + 4096 \<le> r \<and> unat r + unat len \<le> unat USER_STACK \<and> \<not> check_vma_overlap t r (r + len)"
      using less.hyps [of "base + 4096"] by blast
    moreover have "base \<le> base + 4096" by (simp add: word_le_nat_alt next_base)
    ultimately show ?thesis using True by (subst vma_space_loop.simps) auto
  qed
qed

lemma align_len:
  assumes "unat len \<le> 2 ^ 63"
  shows "unat (align len 4096) \<le> 2 ^ 63" "paged (align len 4096)"
proof -
  have u: "unat (align len 4096) = (unat len + 4095) div 4096 * 4096" using assms by (intro align_page) simp
  show "paged (align len 4096)" by (simp add: paged_def u)
  show "unat (align len 4096) \<le> 2 ^ 63" unfolding u using assms by simp
qed

text \<open>The place that \<open>sys_mmap\<close> chooses for the area.\<close>

definition hint_ok :: "task_struct \<Rightarrow> u64 \<Rightarrow> u64 \<Rightarrow> bool" where
  "hint_ok t addr len \<longleftrightarrow> addr \<noteq> 0 \<and> addr AND 4095 = 0 \<and> \<not> check_vma_overlap t addr (addr + len)"

lemma paged_and: "addr AND 4095 = 0 \<longleftrightarrow> paged addr"
proof -
  have "(4095 :: u64) = mask 12" by (simp add: mask_eq_exp_minus_1)
  then show ?thesis by (simp only: take_bit_eq_mask [symmetric] paged_take)
qed

lemma fresh_area:
  assumes "paged va" and "paged len" and "len \<noteq> 0" and "unat va + unat len < 2 ^ 64"
    and "\<not> check_vma_overlap t va (va + len)"
  shows "area_ok t \<lparr>vm_start = va, vm_end = va + len, vm_prot = prot, vm_flags = flags\<rparr>"
    "\<forall>w \<in> set (areas t). apart w \<lparr>vm_start = va, vm_end = va + len, vm_prot = prot, vm_flags = flags\<rparr>"
proof -
  have "unat (va + len) = unat va + unat len" using assms(4) by (simp add: unat_word_ariths)
  moreover have "0 < unat len" using assms(3) by (simp add: unat_gt_0)
  ultimately have "va < va + len" by (simp add: word_less_nat_alt)
  then show "area_ok t \<lparr>vm_start = va, vm_end = va + len, vm_prot = prot, vm_flags = flags\<rparr>"
    "\<forall>w \<in> set (areas t). apart w \<lparr>vm_start = va, vm_end = va + len, vm_prot = prot, vm_flags = flags\<rparr>"
    using no_overlap [of t "\<lparr>vm_start = va, vm_end = va + len, vm_prot = prot, vm_flags = flags\<rparr>"]
      assms(1,2,5) paged_plus by simp_all
qed

lemma mmap_place:
  assumes len: "unat len \<le> 2 ^ 63" and "unat addr + unat (align len 4096) < 2 ^ 64"
    and "align len 4096 \<noteq> 0"
  obtains va where "(if addr = 0 \<or> addr AND 4095 \<noteq> 0 \<or> check_vma_overlap t addr (addr + align len 4096)
      then find_free_vma_space t (align len 4096) else Some addr) = Some va"
    and "hint_ok t addr (align len 4096) \<Longrightarrow> va = addr"
    and "va \<noteq> 0 \<Longrightarrow> area_ok t \<lparr>vm_start = va, vm_end = va + align len 4096, vm_prot = prot, vm_flags = flags\<rparr> \<and>
      (\<forall>w \<in> set (areas t). apart w \<lparr>vm_start = va, vm_end = va + align len 4096, vm_prot = prot, vm_flags = flags\<rparr>)"
proof (cases "hint_ok t addr (align len 4096)")
  case True
  then have h: "paged addr" "\<not> check_vma_overlap t addr (addr + align len 4096)" "addr AND 4095 = 0" "addr \<noteq> 0"
    using paged_and by (simp_all add: hint_ok_def)
  note n = fresh_area [OF h(1) align_len(2) [OF len] assms(3,2) h(2)]
  show thesis
  proof (rule that [of addr])
    show "area_ok t \<lparr>vm_start = addr, vm_end = addr + align len 4096, vm_prot = prot, vm_flags = flags\<rparr> \<and>
      (\<forall>w \<in> set (areas t). apart w \<lparr>vm_start = addr, vm_end = addr + align len 4096, vm_prot = prot, vm_flags = flags\<rparr>)"
      using n by blast
  qed (use h in simp_all)
next
  case False
  obtain r where r: "vma_space_loop t (align len 4096) 0x60000000 = Some r" "r = 0 \<or>
      paged r \<and> unat r + unat (align len 4096) \<le> unat USER_STACK \<and> \<not> check_vma_overlap t r (r + align len 4096)"
    using find_space [OF align_len(1) [OF len], where base = "0x60000000" and t = t] by (auto simp: paged_def)
  show thesis
  proof (rule that [of r])
    show "(if addr = 0 \<or> addr AND 4095 \<noteq> 0 \<or> check_vma_overlap t addr (addr + align len 4096)
      then find_free_vma_space t (align len 4096) else Some addr) = Some r"
      using False r(1) by (auto simp: hint_ok_def find_free_vma_space_def)
    assume "r \<noteq> 0"
    then show "area_ok t \<lparr>vm_start = r, vm_end = r + align len 4096, vm_prot = prot, vm_flags = flags\<rparr> \<and>
      (\<forall>w \<in> set (areas t). apart w \<lparr>vm_start = r, vm_end = r + align len 4096, vm_prot = prot, vm_flags = flags\<rparr>)"
      using r(2) fresh_area [of r "align len 4096", OF _ align_len(2) [OF len] assms(3)] by (auto simp: USER_STACK_def)
  qed (use False in simp)
qed

text \<open>The call behind the choice of the place: the area is registered, then filled if asked for.\<close>

definition register_area :: "task_struct \<Rightarrow> vm_area \<Rightarrow> kernel \<Rightarrow> (u64 \<times> kernel) option" where
  "register_area t v s = (let s1 = s\<lparr>task_structs := (task_structs s)(get_current s \<mapsto> add_vma v t)\<rparr> in
     if vm_flags v AND MAP_POPULATE \<noteq> 0 then do {
       (ok, s2) \<leftarrow> populate_loop (ts_pgd t) (vm_start v) (vm_end v - vm_start v) (vma_page_prot (vm_prot v)) 0 s1;
       Some (if ok then vm_start v else - 1, s2)
     } else Some (vm_start v, s1))"

lemma register_area_sel:
  assumes "register_area t v s = Some (r, s')"
  shows "task_structs s' = (task_structs s)(get_current s \<mapsto> add_vma v t)"
    "r = vm_start v \<or> r = - 1 \<and> vm_flags v AND MAP_POPULATE \<noteq> 0"
proof -
  define s1 where "s1 = s\<lparr>task_structs := (task_structs s)(get_current s \<mapsto> add_vma v t)\<rparr>"
  have "task_structs s' = task_structs s1 \<and> (r = vm_start v \<or> r = - 1 \<and> vm_flags v AND MAP_POPULATE \<noteq> 0)"
  proof (cases "vm_flags v AND MAP_POPULATE = 0")
    case True
    then show ?thesis using assms by (auto simp: register_area_def Let_def s1_def)
  next
    case False
    then obtain ok where p: "populate_loop (ts_pgd t) (vm_start v) (vm_end v - vm_start v) (vma_page_prot (vm_prot v)) 0 s1 = Some (ok, s')"
      and "r = (if ok then vm_start v else - 1)"
      using assms by (auto simp: register_area_def Let_def s1_def split: bind_splits)
    then show ?thesis using False memory_only_sel(1) [OF memory_only_populate [OF p]] by auto
  qed
  then show "task_structs s' = (task_structs s)(get_current s \<mapsto> add_vma v t)"
    "r = vm_start v \<or> r = - 1 \<and> vm_flags v AND MAP_POPULATE \<noteq> 0" by (simp_all add: s1_def)
qed

lemma sys_mmap_eq:
  assumes "task_structs s (get_current s) = Some t"
    and "unat len \<le> 2 ^ 63" and "unat addr + unat (align len 4096) < 2 ^ 64"
  obtains "sys_mmap addr len prot flags s = Some (- 1, s)"
      and "32 \<le> ts_vma_count t \<or> align len 4096 = 0 \<or> \<not> hint_ok t addr (align len 4096)"
  | v where "sys_mmap addr len prot flags s = register_area t v s" and "ts_vma_count t < 32"
      and "vm_end v = vm_start v + align len 4096" and "vm_prot v = prot" and "vm_flags v = flags"
      and "hint_ok t addr (align len 4096) \<longrightarrow> vm_start v = addr"
      and "area_ok t v" and "\<forall>w \<in> set (areas t). apart w v"
proof (cases "32 \<le> ts_vma_count t \<or> align len 4096 = 0")
  case True
  then have "sys_mmap addr len prot flags s = Some (- 1, s)" using assms(1) by (auto simp: sys_mmap_def Let_def)
  then show thesis using True by (intro that(1)) auto
next
  case False
  then have nz: "align len 4096 \<noteq> 0" and room: "ts_vma_count t < 32" by simp_all
  obtain va where va: "(if addr = 0 \<or> addr AND 4095 \<noteq> 0 \<or> check_vma_overlap t addr (addr + align len 4096)
      then find_free_vma_space t (align len 4096) else Some addr) = Some va"
    "hint_ok t addr (align len 4096) \<Longrightarrow> va = addr"
    "va \<noteq> 0 \<Longrightarrow> area_ok t \<lparr>vm_start = va, vm_end = va + align len 4096, vm_prot = prot, vm_flags = flags\<rparr> \<and>
      (\<forall>w \<in> set (areas t). apart w \<lparr>vm_start = va, vm_end = va + align len 4096, vm_prot = prot, vm_flags = flags\<rparr>)"
    using mmap_place [OF assms(2,3) nz] by metis
  show thesis
  proof (cases "va = 0")
    case True
    then have "sys_mmap addr len prot flags s = Some (- 1, s)"
      using False assms(1) va(1) by (simp add: sys_mmap_def Let_def)
    moreover have "\<not> hint_ok t addr (align len 4096)" using va(2) True by (auto simp: hint_ok_def)
    ultimately show thesis by (intro that(1)) simp_all
  next
    case va0: False
    define v where "v = \<lparr>vm_start = va, vm_end = va + align len 4096, vm_prot = prot, vm_flags = flags\<rparr>"
    have v: "vm_start v = va" "vm_end v = va + align len 4096" "vm_prot v = prot" "vm_flags v = flags" by (simp_all add: v_def)
    have "sys_mmap addr len prot flags s = register_area t v s"
      using False va0 assms(1) va(1)
      by (simp add: sys_mmap_def Let_def update_task_def v_def [symmetric] register_area_def v cong: if_cong)
    then show thesis using va(2) va(3) [OF va0] room by (intro that(2) [of v]) (simp_all add: v_def)
  qed
qed

lemma mmap_returns:
  assumes "task_structs s (get_current s) = Some t"
    and "unat len \<le> 2 ^ 63" and "unat addr + unat (align len 4096) < 2 ^ 64"
  shows "flags AND MAP_POPULATE = 0 \<Longrightarrow> sys_mmap addr len prot flags s \<noteq> None"
  by (rule sys_mmap_eq [OF assms, of prot flags]) (simp_all add: register_area_def Let_def)

lemma mmap_added:
  assumes "task_structs s (get_current s) = Some t" and "areas_ok t"
    and "unat len \<le> 2 ^ 63" and "unat addr + unat (align len 4096) < 2 ^ 64"
    and e: "sys_mmap addr len prot flags s = Some (r, s')"
  shows "\<exists>t'. task_structs s' = (task_structs s)(get_current s \<mapsto> t') \<and> areas_ok t' \<and>
        (r = - 1 \<and> t' = t \<and> (ts_vma_count t = 32 \<or> align len 4096 = 0 \<or> \<not> hint_ok t addr (align len 4096)) \<or>
         (\<exists>v. area_added t v t' \<and> vm_end v = vm_start v + align len 4096 \<and> vm_prot v = prot \<and>
            (hint_ok t addr (align len 4096) \<longrightarrow> vm_start v = addr) \<and>
            (r = vm_start v \<or> r = - 1 \<and> flags AND MAP_POPULATE \<noteq> 0)))"
proof (rule sys_mmap_eq [OF assms(1,3,4), of prot flags])
  assume f: "32 \<le> ts_vma_count t \<or> align len 4096 = 0 \<or> \<not> hint_ok t addr (align len 4096)"
  assume "sys_mmap addr len prot flags s = Some (- 1, s)"
  then have "r = - 1" "task_structs s' = (task_structs s)(get_current s \<mapsto> t)"
    using e assms(1) by (auto simp: fun_upd_idem)
  moreover have "ts_vma_count t = 32 \<or> align len 4096 = 0 \<or> \<not> hint_ok t addr (align len 4096)"
    using f assms(2) by (auto simp: areas_ok_def)
  ultimately show ?thesis using assms(2) by blast
next
  fix v
  assume v: "sys_mmap addr len prot flags s = register_area t v s" "ts_vma_count t < 32"
    "vm_end v = vm_start v + align len 4096" "vm_prot v = prot" "vm_flags v = flags"
    "hint_ok t addr (align len 4096) \<longrightarrow> vm_start v = addr" "area_ok t v" "\<forall>w \<in> set (areas t). apart w v"
  note n = add_vma_ok [OF assms(2) v(2,7,8)]
  have "register_area t v s = Some (r, s')" using e v(1) by simp
  note m = register_area_sel [OF this]
  have "r = vm_start v \<or> r = - 1 \<and> flags AND MAP_POPULATE \<noteq> 0" using m(2) v(5) by blast
  then show ?thesis using m(1) n v(3,4,6) by blast
qed

subsection \<open>The property\<close>

text \<open>C9: \<open>sys_mmap\<close> keeps the areas of the task whole pages, apart from each other, from the
  code and from the stack; it adds one area of the aligned length with the requested permissions,
  at the hint when that is free; the addresses of the new area, and only those, are found in it.  It
  registers none only when 32 are in use, the length is 0 or the hint is not usable.  Without MAP_POPULATE it
  always returns: the search for a place ends.  The end of the requested area must not wrap around.\<close>

theorem sys_mmap_areas:
  assumes "task_structs s (get_current s) = Some t" and "areas_ok t"
    and "unat len \<le> 2 ^ 63" and "unat addr + unat (align len 4096) < 2 ^ 64"
  shows "(flags AND MAP_POPULATE = 0 \<longrightarrow> sys_mmap addr len prot flags s \<noteq> None) \<and>
    (\<forall>r s'. sys_mmap addr len prot flags s = Some (r, s') \<longrightarrow>
      (\<exists>t'. task_structs s' = (task_structs s)(get_current s \<mapsto> t') \<and> areas_ok t' \<and>
        (r = - 1 \<and> t' = t \<and> (ts_vma_count t = 32 \<or> align len 4096 = 0 \<or> \<not> hint_ok t addr (align len 4096)) \<or>
         (\<exists>v. area_added t v t' \<and> vm_end v = vm_start v + align len 4096 \<and> vm_prot v = prot \<and>
            (hint_ok t addr (align len 4096) \<longrightarrow> vm_start v = addr) \<and>
            (r = vm_start v \<or> r = - 1 \<and> flags AND MAP_POPULATE \<noteq> 0)))))"
proof (intro conjI impI allI)
  fix r s' assume "sys_mmap addr len prot flags s = Some (r, s')"
  then show "\<exists>t'. task_structs s' = (task_structs s)(get_current s \<mapsto> t') \<and> areas_ok t' \<and>
        (r = - 1 \<and> t' = t \<and> (ts_vma_count t = 32 \<or> align len 4096 = 0 \<or> \<not> hint_ok t addr (align len 4096)) \<or>
         (\<exists>v. area_added t v t' \<and> vm_end v = vm_start v + align len 4096 \<and> vm_prot v = prot \<and>
            (hint_ok t addr (align len 4096) \<longrightarrow> vm_start v = addr) \<and>
            (r = vm_start v \<or> r = - 1 \<and> flags AND MAP_POPULATE \<noteq> 0)))"
    by (rule mmap_added [OF assms])
qed (use mmap_returns [OF assms(1,3,4)] in simp)

lemma sys_mmap_areas_witness:
  "\<exists>s' t' v. sys_mmap 0x10000 5000 3 0x20 (with_task 0 zero_task page_kernel) = Some (0x10000, s') \<and>
     task_structs s' 16 = Some t' \<and> areas_ok t' \<and> area_added zero_task v t' \<and> vm_start v = 0x10000"
proof -
  define s where "s = with_task 0 zero_task page_kernel"
  have t: "task_structs s (get_current s) = Some zero_task" by (simp add: s_def)
  have c: "get_current s = 16" by (simp add: s_def with_task_def get_current_def)
  have ok: "areas_ok zero_task" by (simp add: areas_ok_def areas_def zero_task_def)
  have n: "(0x20 :: u32) AND MAP_POPULATE = 0" by (simp add: MAP_POPULATE_def)
  have al: "align 5000 4096 = 8192" by (simp add: align_def)
  then have w: "unat (5000 :: u64) \<le> 2 ^ 63" "unat (0x10000 :: u64) + unat (align 5000 4096) < 2 ^ 64" by simp_all
  have h: "hint_ok zero_task 0x10000 (align 5000 4096)" "ts_vma_count zero_task \<noteq> 32" "align 5000 4096 \<noteq> 0"
    by (simp_all add: al hint_ok_def check_vma_overlap_def zero_task_def USER_STACK_def)
  note p = sys_mmap_areas [OF t ok w, of "0x20" 3]
  obtain r s' where e: "sys_mmap 0x10000 5000 3 0x20 s = Some (r, s')" using p n by auto
  then obtain t' v where "task_structs s' = (task_structs s)(get_current s \<mapsto> t')" "areas_ok t'"
    "area_added zero_task v t'" "vm_start v = 0x10000" "r = vm_start v"
    using p n h by blast
  then have "sys_mmap 0x10000 5000 3 0x20 s = Some (0x10000, s') \<and> task_structs s' 16 = Some t' \<and> areas_ok t' \<and>
      area_added zero_task v t' \<and> vm_start v = 0x10000" using e c by simp
  then show ?thesis unfolding s_def by blast
qed

end
