(* ===== verification/Signals.thy ===== *)
theory Signals
  imports Areas Trap
begin

text \<open>
  Delivery of a signal and the way back: \<open>check_pending_signals\<close> of src/lab7/src/trap.c and
  \<open>sys_sigreturn\<close> of src/lab7/src/syscall.c.
\<close>

subsection \<open>Writing to a fresh region\<close>

lemma paged_order:
  assumes "paged p" and "paged t" and "unat p \<le> unat x" and "unat x < unat t + 4096"
  shows "unat p \<le> unat t"
proof -
  obtain i j where "unat p = 4096 * i" "unat t = 4096 * j" using pagedE assms(1,2) by metis
  then show ?thesis using assms(3,4) by simp
qed

text \<open>A region that was free is no part of the tables.\<close>

lemma area_write:
  assumes ok: "pt_ok pgd s" and h: "slab_inv h" "live h = insert (p, m) (live (heap s))" "p \<notin> allotted s"
    and p: "paged p" "n \<le> m" and same: "\<forall>x. \<not> unat (x - p) < n \<longrightarrow> m' x = mem s x"
  shows "tables m' pgd = tables (mem s) pgd" "tree m' pgd = tree (mem s) pgd"
    "user_va a \<Longrightarrow> leaf_entry m' pgd a = leaf_entry (mem s) pgd a"
proof -
  have pgd: "paged pgd" "tables (mem s) pgd \<subseteq> allotted s" using ok by (simp_all add: pt_ok_def tree_def)
  have b: "unat p + m \<le> 2 ^ 64" using live_bound [OF h(1)] h(2) by simp
  have "\<not> unat (x - p) < n" if t: "t \<in> tables (mem s) pgd" and x: "unat (x - t) < 4096" for t x
  proof
    assume "unat (x - p) < n"
    then have xp: "unat p \<le> unat x" "unat x < unat p + m"
      using b p(2) by (auto simp: unat_sub_if' split: if_splits)
    have pt: "paged t" using tables_paged [OF pgd(1) t] .
    have xt: "unat t \<le> unat x" "unat x < unat t + 4096" using x in_page_iff [OF pt] by auto
    have "unat p \<le> unat t" using paged_order [OF p(1) pt xp(1) xt(2)] .
    then have i: "unat t \<in> region (p, m)" using xt(1) xp(2) by (simp add: region_def)
    obtain k where k: "(t, k) \<in> live (heap s)" using t pgd(2) by auto
    moreover have "t \<noteq> p" using t pgd(2) h(3) by blast
    ultimately have "(t, k) \<noteq> (p, m)" "0 < k" using h(2) live_bound [OF h(1), of t k] by auto
    moreover from this have "unat t \<in> region (t, k)" by (simp add: region_def)
    ultimately show False using kmem.regions_disjoint [OF h(1), of "(t, k)" "(p, m)"] h(2) k i by blast
  qed
  then have ag: "\<forall>t \<in> tables (mem s) pgd. \<forall>j < 512. pte_get m' t j = pte_get (mem s) t j"
    using same pte_get_cong tables_paged [OF pgd(1)] by metis
  note a = tree_agree [OF ag]
  show "tables m' pgd = tables (mem s) pgd" "tree m' pgd = tree (mem s) pgd" by (rule a(1), rule a(2))
  show "user_va a \<Longrightarrow> leaf_entry m' pgd a = leaf_entry (mem s) pgd a"
    using a(3) user_upath by (simp add: leaf_entry_leaf)
qed

subsection \<open>Delivery\<close>

text \<open>The task that has a handler for the pending signal, and memory for the delivery.\<close>

definition deliverable :: "u64 \<Rightarrow> task_struct \<Rightarrow> u64 \<Rightarrow> pt_regs \<Rightarrow> kernel \<Rightarrow> bool" where
  "deliverable regs t handler f s \<longleftrightarrow>
     task_structs s (get_current s) = Some t \<and> tframes s regs = Some f \<and>
     (\<exists>r \<in> live (heap s). unat regs \<in> region r) \<and>
     ts_sig_handlers t ! SIGTERM = handler \<and> handler \<noteq> 0 \<and> bit (ts_pending_signals t) SIGTERM \<and>
     pt_ok (ts_pgd t) s \<and> active_user_pgd s = ts_pgd t"

definition signal_memory :: "slab \<Rightarrow> u64 \<Rightarrow> u64 \<Rightarrow> slab \<Rightarrow> bool" where
  "signal_memory h saved stack h2 \<longleftrightarrow> (\<exists>h1. slab_alloc sizeof_pt_regs h = Some (saved, h1) \<and> saved \<noteq> 0 \<and>
     slab_alloc STACK_SIZE h1 = Some (stack, h2) \<and> stack \<noteq> 0 \<and> can_alloc 8 h2)"

text \<open>\<open>li a7, 11\<close> and \<open>ecall\<close>, little-endian.\<close>

definition trampoline :: "u8 list" where
  "trampoline = [0x93, 0x08, 0xb0, 0x00, 0x73, 0x00, 0x00, 0x00]"

lemma signal_memory_ok:
  assumes "kernel_inv s" and "signal_memory (heap s) saved stack h2"
  obtains h1 m1 m2 where "paged stack" and "saved \<noteq> stack" and "slab_inv h1" and "slab_inv h2"
    and "live h1 = insert (saved, m1) (live (heap s))" and "live h2 = insert (stack, m2) (live h1)"
    and "stack \<notin> fst ` live h1" and "16384 \<le> m2"
    and "allocate sizeof_pt_regs s = Some (saved, s\<lparr>heap := h1\<rparr>)"
    and "allocate STACK_SIZE (s\<lparr>heap := h1\<rparr>) = Some (stack, s\<lparr>heap := h2\<rparr>)"
    and "saved \<noteq> 0" and "stack \<noteq> 0" and "can_alloc 8 h2" and "saved \<notin> allotted s"
proof -
  have sz: "unat sizeof_pt_regs \<le> 2 ^ 63" "unat STACK_SIZE = 16384" "2048 < STACK_SIZE"
    by (simp_all add: sizeof_pt_regs_def STACK_SIZE_def)
  obtain h1 where h1: "slab_alloc sizeof_pt_regs (heap s) = Some (saved, h1)" "saved \<noteq> 0"
    "slab_alloc STACK_SIZE h1 = Some (stack, h2)" "stack \<noteq> 0" "can_alloc 8 h2"
    using assms(2) unfolding signal_memory_def by blast
  define s1 where "s1 = s\<lparr>heap := h1\<rparr>"
  have a1: "allocate sizeof_pt_regs s = Some (saved, s1)" using h1(1) by (simp add: allocate_def s1_def)
  have a2: "allocate STACK_SIZE s1 = Some (stack, s\<lparr>heap := h2\<rparr>)" using h1(3) by (simp add: allocate_def s1_def)
  obtain k1 m1 where n1: "s1 = s\<lparr>heap := k1\<rparr>" "kernel_inv s1" "live k1 = insert (saved, m1) (live (heap s))"
    "saved \<notin> allotted s" using allocate_new [OF assms(1) sz(1) a1 h1(2)] by metis
  have le: "unat STACK_SIZE \<le> 2 ^ 63" using sz(2) by simp
  obtain k2 m2 where n2: "s\<lparr>heap := h2\<rparr> = s1\<lparr>heap := k2\<rparr>" "kernel_inv (s\<lparr>heap := h2\<rparr>)" "unat STACK_SIZE \<le> m2"
    "live k2 = insert (stack, m2) (live (heap s1))" "stack \<notin> allotted s1"
    using allocate_new [OF n1(2) le a2 h1(4)] by metis
  have k: "k1 = h1" "k2 = h2" using arg_cong [OF n1(1), of heap] arg_cong [OF n2(1), of heap] by (simp_all add: s1_def)
  have "paged stack" using slab_alloc_paged [OF _ sz(3) le h1(3,4)] n1(2) by (simp add: kernel_inv_def s1_def)
  moreover have "saved \<noteq> stack" using n1(3) n2(5) k by (auto simp: s1_def)
  moreover have "slab_inv h1" "slab_inv h2" using n1(2) n2(2) by (simp_all add: kernel_inv_def s1_def)
  moreover have "live h1 = insert (saved, m1) (live (heap s))" using n1(3) k by simp
  moreover have "live h2 = insert (stack, m2) (live h1)" "stack \<notin> fst ` live h1" using n2(4,5) k by (simp_all add: s1_def)
  moreover have "16384 \<le> m2" using n2(3) sz(2) by simp
  ultimately show thesis using a1 [unfolded s1_def] a2 [unfolded s1_def] h1(2,4,5) n1(4) by (rule that)
qed

text \<open>The mapping of the signal stack.\<close>

lemma signal_stack_mapped:
  assumes "pt_ok pgd s" and "active_user_pgd s = pgd" and "paged stack" and "can_alloc 8 (heap s)"
  obtains s4 where "map_pages SIGNAL_STACK STACK_SIZE (virt_to_phys stack) (PROT_USER_RW OR PTE_X) s = Some s4"
    and "pt_ok pgd s4" and "grows pgd s s4"
    and "\<forall>a. user_va a \<longrightarrow> leaf_entry (mem s4) pgd a = (if unat (a - SIGNAL_STACK) < 16384
      then Some (MAKE_PTE (virt_to_phys stack + (a - SIGNAL_STACK)) ((PROT_USER_RW OR PTE_X) OR PTE_V))
      else leaf_entry (mem s) pgd a)"
proof -
  have pa: "paged (virt_to_phys stack)" unfolding virt_to_phys_def using assms(3) paged_OFFSET by (rule paged_diff)
  have va: "paged SIGNAL_STACK" "unat SIGNAL_STACK + 4096 * 4 \<le> 2 ^ 38" by (simp_all add: paged_def SIGNAL_STACK_def)
  have sz: "of_nat (4096 * 4) = STACK_SIZE" by (simp add: STACK_SIZE_def)
  have "can_alloc (2 * 4 + 0) (heap s)" using assms(4) by simp
  then obtain s4 where m: "map_pages SIGNAL_STACK (of_nat (4096 * 4)) (virt_to_phys stack) (PROT_USER_RW OR PTE_X) s = Some s4"
    using map_pages_some [of 4 0 s] by fastforce
  note r = map_pages_ok [OF assms(1,2) va(1) pa va(2) m]
  have "4096 * 4 = (16384 :: nat)" by simp
  then show thesis using r m [unfolded sz] by (intro that [of s4]) simp_all
qed

lemma deliver_ok:
  assumes d: "deliverable regs t handler f s" and room: "signal_memory (heap s) saved stack h2"
  obtains s' m1 m2 where "check_pending_signals regs s = Some s'"
    and "tframes s' = (tframes s)(saved \<mapsto> f, regs \<mapsto> handler_frame handler f)"
    and "task_structs s' = (task_structs s)(get_current s \<mapsto> t\<lparr>ts_saved_regs := saved, ts_signal_stack := stack,
      ts_pending_signals := ts_pending_signals t AND NOT (push_bit SIGTERM 1)\<rparr>)"
    and "get_current s' = get_current s"
    and "\<forall>a. user_va a \<longrightarrow> leaf_entry (mem s') (ts_pgd t) a = (if unat (a - SIGNAL_STACK) < 16384
      then Some (MAKE_PTE (virt_to_phys stack + (a - SIGNAL_STACK)) ((PROT_USER_RW OR PTE_X) OR PTE_V))
      else leaf_entry (mem s) (ts_pgd t) a)"
    and "map (\<lambda>i. mem s' (stack + of_nat i)) [0..<8] = trampoline"
    and "pt_ok (ts_pgd t) s'" and "(saved, m1) \<in> live (heap s')" and "(stack, m2) \<in> live (heap s')"
    and "live (heap s) \<subseteq> live (heap s')" and "saved \<noteq> regs" and "saved \<noteq> stack"
proof -
  have t: "task_structs s (get_current s) = Some t" "tframes s regs = Some f" "pt_ok (ts_pgd t) s"
    "active_user_pgd s = ts_pgd t" "ts_sig_handlers t ! SIGTERM = handler" "handler \<noteq> 0"
    "bit (ts_pending_signals t) SIGTERM" using d by (simp_all add: deliverable_def)
  have ki: "kernel_inv s" using t(3) by (simp add: pt_ok_def)
  obtain h1 m1 m2 where h: "paged stack" "saved \<noteq> stack" "slab_inv h1" "slab_inv h2"
    "live h1 = insert (saved, m1) (live (heap s))" "live h2 = insert (stack, m2) (live h1)"
    "stack \<notin> fst ` live h1" "16384 \<le> m2"
    "allocate sizeof_pt_regs s = Some (saved, s\<lparr>heap := h1\<rparr>)"
    "allocate STACK_SIZE (s\<lparr>heap := h1\<rparr>) = Some (stack, s\<lparr>heap := h2\<rparr>)"
    "saved \<noteq> 0" "stack \<noteq> 0" "can_alloc 8 h2" "saved \<notin> allotted s"
    using signal_memory_ok [OF ki room] by metis
  define s3 where "s3 = s\<lparr>heap := h2, tframes := (tframes s)(saved \<mapsto> f), mem := memzero stack (unat STACK_SIZE) (mem s),
    task_structs := (task_structs s)(get_current s \<mapsto> t\<lparr>ts_saved_regs := saved, ts_signal_stack := stack\<rparr>)\<rparr>"
  have sel3: "heap s3 = h2" "mem s3 = memzero stack 16384 (mem s)" "active_user_pgd s3 = ts_pgd t"
    "get_current s3 = get_current s"
    using t(4) by (simp_all add: s3_def STACK_SIZE_def get_current_def)
  have o1: "pt_ok (ts_pgd t) (s\<lparr>heap := h1\<rparr>)" using t(3) h(3,5) by (auto simp: pt_ok_def kernel_inv_def)
  have same3: "\<forall>x. \<not> unat (x - stack) < 16384 \<longrightarrow> mem s3 x = mem (s\<lparr>heap := h1\<rparr>) x" by (simp add: sel3 memzero_eq)
  have l2: "live h2 = insert (stack, m2) (live (heap (s\<lparr>heap := h1\<rparr>)))" "stack \<notin> allotted (s\<lparr>heap := h1\<rparr>)"
    using h(6,7) by simp_all
  note w = area_write [OF o1 h(4) l2 h(1,8) same3]
  have st: "stack \<notin> tables (mem s3) (ts_pgd t)" "stack \<in> allotted s3" using w(1) o1 h(6,7) by (auto simp: pt_ok_def sel3)
  have ok3: "pt_ok (ts_pgd t) s3" using w(1,2) o1 h(4,6) by (auto simp: pt_ok_def kernel_inv_def sel3)
  obtain s4 where s4: "map_pages SIGNAL_STACK STACK_SIZE (virt_to_phys stack) (PROT_USER_RW OR PTE_X) s3 = Some s4"
    "pt_ok (ts_pgd t) s4" "grows (ts_pgd t) s3 s4"
    "\<forall>a. user_va a \<longrightarrow> leaf_entry (mem s4) (ts_pgd t) a = (if unat (a - SIGNAL_STACK) < 16384
      then Some (MAKE_PTE (virt_to_phys stack + (a - SIGNAL_STACK)) ((PROT_USER_RW OR PTE_X) OR PTE_V))
      else leaf_entry (mem s3) (ts_pgd t) a)"
    using signal_stack_mapped [OF ok3 sel3(3) h(1)] h(13) sel3(1) by metis
  obtain hh mm where e4: "s4 = s3\<lparr>mem := mm, heap := hh\<rparr>" using growsD(1) [OF s4(3)] by blast
  define s5 where "s5 = store32 (stack + 4) 0x00000073 (store32 stack 0x00b00893 s4)"
  have pgd: "paged (ts_pgd t)" "stack \<notin> tables (mem s4) (ts_pgd t)"
    using s4(2) st growsD(5) [OF s4(3)] by (auto simp: pt_ok_def tree_def)
  have m5: "mem s5 x = mem s4 x" if "\<not> unat (x - stack) < 4096" for x
  proof -
    have "x - stack \<notin> {0, 1, 2, 3, 4, 5, 6, 7}" using that by auto
    then show ?thesis by (auto simp: s5_def store32_def)
  qed
  note p = page_write [OF pgd(1) h(1) pgd(2) m5]
  define s' where "s' = s5\<lparr>tframes := (tframes s5)(regs \<mapsto> handler_frame handler f),
    task_structs := (task_structs s5)(get_current s \<mapsto> t\<lparr>ts_saved_regs := saved, ts_signal_stack := stack,
      ts_pending_signals := ts_pending_signals t AND NOT (push_bit SIGTERM 1)\<rparr>)\<rparr>"
  have sel5: "heap s5 = heap s4" "tframes s5 = (tframes s)(saved \<mapsto> f)" "task_structs s5 = task_structs s3"
    "get_current s5 = get_current s"
    by (simp_all add: s5_def store32_def e4 s3_def get_current_def)
  have sel: "mem s' = mem s5" "heap s' = heap s4" by (simp_all add: s'_def sel5)
  have c3: "task_structs s3 (get_current s) = Some (t\<lparr>ts_saved_regs := saved, ts_signal_stack := stack\<rparr>)"
    "task_structs s (get_current s) = Some t" using t(1) by (simp_all add: s3_def)
  have pend: "ts_pending_signals t AND push_bit SIGTERM 1 \<noteq> 0" "ts_pending_signals t \<noteq> 0"
    using t(7) by (auto simp: push_bit_of_1 and_exp_eq_0_iff_not_bit)
  have upd: "check_pending_signals regs s = Some s'"
    using t(2,5,6) c3 pend h(9-12) s4(1) sel5(3)
    by (simp add: check_pending_signals_def Let_def update_task_def s3_def [symmetric] s5_def [symmetric] s'_def)
  show thesis
  proof (rule that [of s' m1 m2])
    show "check_pending_signals regs s = Some s'" by (rule upd)
    show "tframes s' = (tframes s)(saved \<mapsto> f, regs \<mapsto> handler_frame handler f)" by (simp add: s'_def sel5)
    show "task_structs s' = (task_structs s)(get_current s \<mapsto> t\<lparr>ts_saved_regs := saved, ts_signal_stack := stack,
      ts_pending_signals := ts_pending_signals t AND NOT (push_bit SIGTERM 1)\<rparr>)" by (simp add: s'_def sel5 s3_def)
    show "get_current s' = get_current s" using sel5(4) by (simp add: s'_def get_current_def)
    show "\<forall>a. user_va a \<longrightarrow> leaf_entry (mem s') (ts_pgd t) a = (if unat (a - SIGNAL_STACK) < 16384
      then Some (MAKE_PTE (virt_to_phys stack + (a - SIGNAL_STACK)) ((PROT_USER_RW OR PTE_X) OR PTE_V))
      else leaf_entry (mem s) (ts_pgd t) a)"
      using s4(4) p(3) w(3) by (simp add: sel)
    show "map (\<lambda>i. mem s' (stack + of_nat i)) [0..<8] = trampoline"
      by (simp add: sel s5_def store32_def trampoline_def upt_rec)
    show "pt_ok (ts_pgd t) s'" using s4(2) p(1,2) by (simp add: pt_ok_def kernel_inv_def sel)
    have l: "live h2 \<subseteq> live (heap s')" using growsD(2) [OF s4(3)] by (simp add: sel sel3)
    show "(saved, m1) \<in> live (heap s')" "(stack, m2) \<in> live (heap s')" "live (heap s) \<subseteq> live (heap s')"
      using l h(5,6) by auto
    obtain r where r: "r \<in> live (heap s)" "unat regs \<in> region r" using d by (auto simp: deliverable_def)
    have "unat saved \<in> region (saved, m1)" using live_bound [OF h(3), of saved m1] h(5) by (simp add: region_def)
    moreover have "r \<noteq> (saved, m1)" using r(1) h(14) by (metis fst_conv image_eqI)
    ultimately show "saved \<noteq> regs" using kmem.regions_disjoint [OF h(3), of r "(saved, m1)"] h(5) r by auto
    show "saved \<noteq> stack" by (rule h(2))
  qed
qed

subsection \<open>Return\<close>

lemma sigreturn_ok:
  assumes "kernel_inv s" and "task_structs s (get_current s) = Some t"
    and "ts_saved_regs t = saved" and "ts_signal_stack t = stack" and "tframes s saved = Some f"
    and "(saved, m1) \<in> live (heap s)" and "(stack, m2) \<in> live (heap s)" and "saved \<noteq> stack" and "saved \<noteq> regs"
  shows "\<exists>s'. sys_sigreturn regs s = Some s' \<and> tframes s' regs = Some f \<and>
    task_structs s' = (task_structs s)(get_current s \<mapsto> t\<lparr>ts_saved_regs := 0, ts_signal_stack := 0\<rparr>) \<and>
    live (heap s') = live (heap s) - {(stack, m2), (saved, m1)} \<and> mem s' = mem s"
proof -
  define s0 where "s0 = s\<lparr>tframes := (tframes s)(regs \<mapsto> f)\<rparr>"
  have h0: "kernel_inv s0" "heap s0 = heap s" using assms(1) by (simp_all add: s0_def kernel_inv_def)
  have in0: "(stack, m2) \<in> live (heap s0)" using assms(7) h0(2) by simp
  obtain h1 where h1: "kfree stack s0 = Some (s0\<lparr>heap := h1\<rparr>)" "kernel_inv (s0\<lparr>heap := h1\<rparr>)"
    "live h1 = live (heap s0) - {(stack, m2)}" using kfree_live [OF h0(1) in0] by metis
  have in1: "(saved, m1) \<in> live (heap (s0\<lparr>heap := h1\<rparr>))" using h1(3) assms(6,8) h0(2) by simp
  obtain h2 where h2: "kfree saved (s0\<lparr>heap := h1\<rparr>) = Some (s0\<lparr>heap := h1\<rparr>\<lparr>heap := h2\<rparr>)"
    "live h2 = live (heap (s0\<lparr>heap := h1\<rparr>)) - {(saved, m1)}" using kfree_live [OF h1(2) in1] by metis
  have "saved \<noteq> 0" using assms(1,6) live_bound by (auto simp: kernel_inv_def)
  then show ?thesis
    using assms(2-5,9) h1(1) h2(1) h1(3) h2(2) h0(2)
    by (auto simp: sys_sigreturn_def s0_def update_task_def get_current_def)
qed

subsection \<open>The property\<close>


text \<open>A task with a handler, its trap frame on a kernel stack in the first of sixteen pages.\<close>

lemma sixteen_signal: "\<exists>saved stack h2. signal_memory (sixteen_taken 2) saved stack h2"
proof -
  have "(case slab_alloc sizeof_pt_regs (sixteen_taken 2) of None \<Rightarrow> False | Some (p, h1) \<Rightarrow> p \<noteq> 0 \<and>
      (case slab_alloc STACK_SIZE h1 of None \<Rightarrow> False | Some (q, h2) \<Rightarrow> q \<noteq> 0 \<and> can_alloc 8 h2))"
    by code_simp
  then show ?thesis unfolding signal_memory_def by (auto split: option.splits simp del: can_alloc.simps sixteen_taken.simps)
qed

definition signal_task :: task_struct where
  "signal_task = zero_task\<lparr>ts_pgd := 0xffffffc000101000, ts_sig_handlers := (replicate 32 0)[SIGTERM := 0x400],
     ts_pending_signals := push_bit SIGTERM 1\<rparr>"

definition signal_kernel :: kernel where
  "signal_kernel = blank_kernel\<lparr>tp := 16, heap := sixteen_taken 1, task_structs := [16 \<mapsto> signal_task],
     tframes := [0xffffffc000100800 \<mapsto> (\<lambda>_. 7)], active_user_pgd := 0xffffffc000101000\<rparr>"

lemma signal_kernel_ok:
  obtains s where "deliverable 0xffffffc000100800 signal_task 0x400 (\<lambda>_. 7) s" and "heap s = sixteen_taken 2"
proof -
  have ne: "(0xffffffc000100000 :: u64) \<noteq> 0" "(0xffffffc000101000 :: u64) \<noteq> 0" by simp_all
  obtain m where m: "slab_inv (sixteen_taken 1)" "4096 \<le> m" "(0xffffffc000100000, m) \<in> live (sixteen_taken 1)"
    using kmem.alloc_ok [OF sixteen_pages_inv, of 4096] sixteen_taken(1) by auto
  have l: "live (sixteen_taken 1) \<subseteq> live (sixteen_taken 2)"
    using kmem.alloc_ok [OF m(1), of 4096] sixteen_taken(2) by auto
  have h: "heap signal_kernel = sixteen_taken 1" by (simp add: signal_kernel_def del: sixteen_taken.simps)
  define s where "s = signal_kernel\<lparr>heap := sixteen_taken 2, mem := memzero 0xffffffc000101000 4096 (mem signal_kernel)\<rparr>"
  have "new_page signal_kernel = Some (0xffffffc000101000, s)"
    unfolding s_def by (rule new_page_taken [OF _ ne(2)]) (simp only: h sixteen_taken)
  then have pt: "pt_ok 0xffffffc000101000 s" using new_pt_ok [of signal_kernel] m(1) h unfolding kernel_inv_def by metis
  have sel: "heap s = sixteen_taken 2" "get_current s = 16" "task_structs s = [16 \<mapsto> signal_task]"
    "tframes s = [0xffffffc000100800 \<mapsto> (\<lambda>_. 7)]" "active_user_pgd s = 0xffffffc000101000"
    by (simp_all add: s_def signal_kernel_def get_current_def del: memzero.simps sixteen_taken.simps)
  have "unat (0xffffffc000100800 :: u64) \<in> region (0xffffffc000100000, m)" using m(2) by (simp add: region_def)
  then have "\<exists>r \<in> live (heap s). unat (0xffffffc000100800 :: u64) \<in> region r" unfolding sel(1) using m(3) l by blast
  moreover have "ts_pgd signal_task = 0xffffffc000101000" "ts_sig_handlers signal_task ! SIGTERM = 0x400"
    "bit (ts_pending_signals signal_task) SIGTERM"
    by (simp_all add: signal_task_def SIGTERM_def bit_push_bit_iff)
  ultimately have "deliverable 0xffffffc000100800 signal_task 0x400 (\<lambda>_. 7) s"
    using pt by (simp add: deliverable_def sel del: sixteen_taken.simps)
  then show thesis using sel(1) by (rule that)
qed


end
