(* ===== verification/Tmpfs_Tree.thy ===== *)
theory Tmpfs_Tree
  imports Tmpfs Page_Tables
begin

text \<open>
  The types of the objects behind a tmpfs: \<open>fs_ok V s\<close> says that every vnode of the set V has a node
  of its kind, with a terminated name, and that the entries of a directory are vnodes of V again.
  \<open>tmpfs_create\<close> and \<open>tmpfs_mkdir\<close> of src/lab7/src/tmpfs.c never reach an undefined access on such a heap, and
  what they make is well typed and found under its name.
\<close>

subsection \<open>Well-typed heaps\<close>

definition node_ok :: "u64 set \<Rightarrow> vnode_type \<Rightarrow> fs_node \<Rightarrow> bool" where
  "node_ok V ty n \<longleftrightarrow> length (n_name n) = MAX_NAME \<and> 0 \<in> set (n_name n) \<and> length (n_entries n) = MAX_ENTRIES \<and>
     (n_type n = NODE_DIR \<longleftrightarrow> ty = VFS_TYPE_DIR) \<and> (n_type n = NODE_DIR \<longrightarrow> set (n_entries n) \<subseteq> insert 0 V)"

definition fs_ok :: "u64 set \<Rightarrow> kernel \<Rightarrow> bool" where
  "fs_ok V s \<longleftrightarrow> kernel_inv s \<and> dom (vnodes s) \<subseteq> allotted s \<and> dom (fs_nodes s) \<subseteq> allotted s \<and>
     (\<forall>p \<in> V. \<exists>v n. vnodes s p = Some v \<and> fs_nodes s (v_internal v) = Some n \<and> node_ok V (v_type v) n)"

text \<open>The name of an entry.\<close>

definition entry_name :: "kernel \<Rightarrow> u64 \<Rightarrow> u8 list" where
  "entry_name s e = takeWhile (\<lambda>c. c \<noteq> 0) (n_name (the (node_of e s)))"

lemma fs_okD:
  "fs_ok V s \<Longrightarrow> p \<in> V \<Longrightarrow>
   \<exists>v n. vnodes s p = Some v \<and> fs_nodes s (v_internal v) = Some n \<and> node_of p s = Some n \<and> node_ok V (v_type v) n"
  unfolding fs_ok_def node_of_def by fastforce

lemma fs_ok_nonzero:
  assumes "fs_ok V s" and "p \<in> V"
  shows "p \<noteq> 0"
proof -
  have "p \<in> allotted s" using fs_okD [OF assms] assms(1) by (auto simp: fs_ok_def)
  then show ?thesis using live_bound assms(1) by (auto simp: fs_ok_def kernel_inv_def)
qed

lemma cstr_name_of:
  assumes "node_ok V ty n"
  shows "cstr (name_of n) (takeWhile (\<lambda>c. c \<noteq> 0) (n_name n))"
proof -
  let ?w = "takeWhile (\<lambda>c. c \<noteq> 0) (n_name n)"
  have "0 \<in> set (n_name n)" "length (n_name n) = MAX_NAME" using assms by (simp_all add: node_ok_def)
  then have "?w \<noteq> n_name n" "length ?w \<le> MAX_NAME"
    using length_takeWhile_le [of "\<lambda>c. c \<noteq> 0" "n_name n"] by (auto simp: takeWhile_eq_all_conv)
  moreover have "?w = take (length ?w) (n_name n)" by (rule takeWhile_eq_take)
  ultimately have l: "length ?w < MAX_NAME" using \<open>length (n_name n) = MAX_NAME\<close> by (cases "length ?w = MAX_NAME") auto
  then have "n_name n ! length ?w = 0"
    using nth_length_takeWhile [of "\<lambda>c. c \<noteq> 0" "n_name n"] assms by (simp add: node_ok_def)
  moreover have "0 \<notin> set ?w" using set_takeWhileD by fastforce
  ultimately show ?thesis using l by (auto simp: cstr_def name_of_def takeWhile_nth)
qed

lemma find_entry_find:
  assumes "fs_ok V s" and "set es \<subseteq> insert 0 V" and "cstr name xs"
  shows "find_entry s name es = Some (List.find (\<lambda>e. e \<noteq> 0 \<and> entry_name s e = xs) es)"
  using assms(2)
proof (induction es)
  case (Cons e es)
  show ?case
  proof (cases "e = 0")
    case False
    then have "e \<in> V" using Cons.prems by auto
    then obtain ty n where n: "node_of e s = Some n" "node_ok V ty n"
      using fs_okD [OF assms(1)] by blast
    have nm: "entry_name s e = takeWhile (\<lambda>c. c \<noteq> 0) (n_name n)" by (simp add: entry_name_def n(1))
    obtain c where "strcmp (name_of n) name = Some c" "c = 0 \<longleftrightarrow> entry_name s e = xs"
      using strcmp_cstr [OF cstr_name_of [OF n(2)] assms(3)] nm by auto
    then show ?thesis using False n(1) Cons by simp
  qed (use Cons in simp)
qed simp

lemma lookup_find:
  assumes "fs_ok V s" and "dir \<in> V" and "node_of dir s = Some d" and "cstr name xs"
  shows "tmpfs_lookup dir name s = Some (if n_type d = NODE_DIR
    then List.find (\<lambda>e. e \<noteq> 0 \<and> entry_name s e = xs) (n_entries d) else None)"
proof -
  obtain ty where "node_ok V ty d" using fs_okD [OF assms(1,2)] assms(3) by auto
  then show ?thesis using assms(3) find_entry_find [OF assms(1) _ assms(4), of "n_entries d"]
    by (auto simp: tmpfs_lookup_def dir_lookup_def node_ok_def)
qed

subsection \<open>Changes that keep the types\<close>

lemma node_ok_mono: "node_ok V ty n \<Longrightarrow> V \<subseteq> V' \<Longrightarrow> node_ok V' ty n"
  by (auto simp: node_ok_def)

text \<open>Objects outside V may be added.\<close>

lemma fs_ok_extend:
  assumes ok: "fs_ok V s" and h: "slab_inv (heap s')" "dom (vnodes s') \<subseteq> allotted s'" "dom (fs_nodes s') \<subseteq> allotted s'"
    and v: "\<And>p. p \<in> dom (vnodes s) \<Longrightarrow> vnodes s' p = vnodes s p"
    and n: "\<And>p. p \<in> dom (fs_nodes s) \<Longrightarrow> fs_nodes s' p = fs_nodes s p"
  shows "fs_ok V s'" "dir \<in> V \<Longrightarrow> cstr name xs \<Longrightarrow> tmpfs_lookup dir name s' = tmpfs_lookup dir name s"
proof -
  have same: "vnodes s' p = vnodes s p \<and> node_of p s' = node_of p s" if p: "p \<in> V" for p
  proof -
    obtain w k where w: "vnodes s p = Some w" "fs_nodes s (v_internal w) = Some k" using fs_okD [OF ok p] by blast
    then show ?thesis using v [OF domI, OF w(1)] n [OF domI, OF w(2)] by (simp add: node_of_def)
  qed
  have "\<exists>v n. vnodes s' p = Some v \<and> fs_nodes s' (v_internal v) = Some n \<and> node_ok V (v_type v) n" if p: "p \<in> V" for p
  proof -
    obtain w k where w: "vnodes s p = Some w" "node_of p s = Some k" "node_ok V (v_type w) k" using fs_okD [OF ok p] by blast
    then show ?thesis using same [OF p] by (auto simp: node_of_def)
  qed
  then show ok': "fs_ok V s'" using h by (simp add: fs_ok_def kernel_inv_def)
  show "tmpfs_lookup dir name s' = tmpfs_lookup dir name s" if dir: "dir \<in> V" and c: "cstr name xs"
  proof -
    obtain ty d where d: "node_of dir s = Some d" "node_ok V ty d" using fs_okD [OF ok dir] by blast
    have "List.find (\<lambda>e. e \<noteq> 0 \<and> entry_name s' e = xs) (n_entries d) =
        List.find (\<lambda>e. e \<noteq> 0 \<and> entry_name s e = xs) (n_entries d)" if "n_type d = NODE_DIR"
      using d(2) that same by (intro find_cong) (auto simp: node_ok_def entry_name_def)
    then show ?thesis
      using lookup_find [OF ok dir d(1) c] lookup_find [OF ok' dir _ c, of d] d(1) same [OF dir] by simp
  qed
qed

lemma find_update_miss: "i < length xs \<Longrightarrow> \<not> P (xs ! i) \<Longrightarrow> \<not> P y \<Longrightarrow> List.find P (xs[i := y]) = List.find P xs"
  by (induction xs arbitrary: i) (auto split: nat.splits)

lemma find_update_hit: "i < length xs \<Longrightarrow> List.find P xs = None \<Longrightarrow> P y \<Longrightarrow> List.find P (xs[i := y]) = Some y"
  by (induction xs arbitrary: i) (auto split: nat.splits if_splits)

text \<open>A new vnode with its node in a free slot of a directory.\<close>

lemma link_ok:
  assumes ok: "fs_ok V s" and dir: "dir \<in> V" "vnodes s dir = Some dv" "fs_nodes s (v_internal dv) = Some d"
      "n_type d = NODE_DIR"
    and name: "cstr name xs" "tmpfs_lookup dir name s = Some None"
    and slot: "slot < MAX_ENTRIES" "n_entries d ! slot = 0"
    and new: "v \<notin> dom (vnodes s)" "v \<noteq> 0" "n \<notin> dom (fs_nodes s)" "v_internal x = n" "node_ok V (v_type x) N"
      "takeWhile (\<lambda>c. c \<noteq> 0) (n_name N) = xs"
    and s': "vnodes s' = (vnodes s)(v \<mapsto> x)"
      "fs_nodes s' = (fs_nodes s)(n \<mapsto> N, v_internal dv \<mapsto> d\<lparr>n_entries := (n_entries d)[slot := v]\<rparr>)"
      "slab_inv (heap s')" "dom (vnodes s') \<subseteq> allotted s'" "dom (fs_nodes s') \<subseteq> allotted s'"
  shows "fs_ok (insert v V) s'"
    "cstr nm ys \<Longrightarrow> tmpfs_lookup dir nm s' = (if ys = xs then Some (Some v) else tmpfs_lookup dir nm s)"
proof -
  have vV: "v \<notin> V" "dir \<noteq> v" "v_internal dv \<noteq> n" using fs_okD [OF ok, of v] new(1,3) dir by auto
  have dn: "node_of dir s = Some d" "node_ok V (v_type dv) d" using fs_okD [OF ok dir(1)] dir(2,3) by auto
  let ?d = "d\<lparr>n_entries := (n_entries d)[slot := v]\<rparr>"
  define upd where "upd w k = (if v_internal w = v_internal dv then ?d else k)" for w :: vnode and k
  have old: "\<exists>w k. vnodes s' p = Some w \<and> node_of p s = Some k \<and> node_ok V (v_type w) k \<and>
      node_of p s' = Some (upd w k) \<and> (v_internal w = v_internal dv \<longrightarrow> k = d)" if p: "p \<in> V" for p
  proof -
    obtain w k where w: "vnodes s p = Some w" "fs_nodes s (v_internal w) = Some k" "node_of p s = Some k" "node_ok V (v_type w) k"
      using fs_okD [OF ok p] by blast
    have "p \<noteq> v" "v_internal w \<noteq> n" using w new(1,3) by auto
    then show ?thesis using w dir(3) by (auto simp: s' node_of_def upd_def)
  qed
  have nv: "vnodes s' v = Some x" "node_of v s' = Some N" using new(4) vV(3) by (simp_all add: s' node_of_def)
  have d': "node_ok (insert v V) ty ?d" if "node_ok V ty d" for ty
    using that set_update_subset_insert [of "n_entries d" slot v] by (auto simp: node_ok_def)
  have "\<exists>w k. vnodes s' p = Some w \<and> fs_nodes s' (v_internal w) = Some k \<and> node_ok (insert v V) (v_type w) k"
    if "p \<in> insert v V" for p
  proof (cases "p = v")
    case True
    then show ?thesis using nv node_ok_mono [OF new(5), of "insert v V"] by (auto simp: node_of_def)
  next
    case False
    then have "p \<in> V" using that by simp
    then obtain w k where w: "vnodes s' p = Some w" "node_ok V (v_type w) k" "node_of p s' = Some (upd w k)"
      "v_internal w = v_internal dv \<longrightarrow> k = d" using old by blast
    have "node_ok (insert v V) (v_type w) (upd w k)"
      using w(2,4) d' node_ok_mono [OF w(2), of "insert v V"] by (auto simp: upd_def)
    then show ?thesis using w(1,3) by (simp add: node_of_def)
  qed
  then show ok': "fs_ok (insert v V) s'" using s'(3-5) by (simp add: fs_ok_def kernel_inv_def)
  have nm: "entry_name s' e = entry_name s e" if "e \<in> V" for e
    using old [OF that] by (auto simp: entry_name_def upd_def)
  have nx: "entry_name s' v = xs" using nv(2) new(6) by (simp add: entry_name_def)
  show "tmpfs_lookup dir nm s' = (if ys = xs then Some (Some v) else tmpfs_lookup dir nm s)" if c: "cstr nm ys"
  proof -
    have e: "set (n_entries d) \<subseteq> insert 0 V" "length (n_entries d) = MAX_ENTRIES" using dn(2) dir(4) by (simp_all add: node_ok_def)
    have same: "List.find (\<lambda>e. e \<noteq> 0 \<and> entry_name s' e = zs) (n_entries d) =
        List.find (\<lambda>e. e \<noteq> 0 \<and> entry_name s e = zs) (n_entries d)" for zs
      using e(1) nm by (intro find_cong) auto
    have "node_of dir s' = Some ?d" using old [OF dir(1)] dir(2) vV(2) by (auto simp: s' upd_def)
    then have l: "tmpfs_lookup dir nm s' = Some (List.find (\<lambda>e. e \<noteq> 0 \<and> entry_name s' e = ys) ((n_entries d)[slot := v]))"
      using lookup_find [OF ok' _ _ c] dir(1,4) by simp
    have o: "tmpfs_lookup dir nm s = Some (List.find (\<lambda>e. e \<noteq> 0 \<and> entry_name s e = ys) (n_entries d))" if "cstr nm ys" for nm ys
      using lookup_find [OF ok dir(1) dn(1) that] dir(4) by simp
    show ?thesis
    proof (cases "ys = xs")
      case True
      then show ?thesis using l o [OF name(1)] name(2) same nx new(2) slot e(2) by (simp add: find_update_hit)
    next
      case False
      then show ?thesis using l o [OF c] same nx slot e(2) by (simp add: find_update_miss)
    qed
  qed
qed

subsection \<open>Making an entry\<close>

text \<open>Objects were added, none changed.\<close>

definition grown :: "kernel \<Rightarrow> kernel \<Rightarrow> bool" where
  "grown s s' \<longleftrightarrow> slab_inv (heap s') \<and> dom (vnodes s') \<subseteq> allotted s' \<and> dom (fs_nodes s') \<subseteq> allotted s' \<and>
     vnodes s \<subseteq>\<^sub>m vnodes s' \<and> fs_nodes s \<subseteq>\<^sub>m fs_nodes s'"

lemma grown_ok:
  assumes "fs_ok V s" and "grown s s'"
  shows "fs_ok V s'" "dir \<in> V \<Longrightarrow> cstr name xs \<Longrightarrow> tmpfs_lookup dir name s' = tmpfs_lookup dir name s"
  using fs_ok_extend [OF assms(1), of s'] assms(2) by (auto simp: grown_def map_le_def)

lemma grown_refl: "fs_ok V s \<Longrightarrow> grown s s"
  by (simp add: fs_ok_def grown_def kernel_inv_def)

lemma grown_cong:
  "grown s a \<Longrightarrow> heap b = heap a \<Longrightarrow> vnodes b = vnodes a \<Longrightarrow> fs_nodes b = fs_nodes a \<Longrightarrow> grown s b"
  by (simp add: grown_def)

lemma grown_heap:
  assumes g: "grown s s1" and h: "slab_inv h" "live (heap s1) \<subseteq> live h"
  shows "grown s (s1\<lparr>heap := h\<rparr>)"
proof -
  have sub: "allotted s1 \<subseteq> fst ` live h" using h(2) by (rule image_mono)
  have d: "dom (vnodes s1) \<subseteq> allotted s1" "dom (fs_nodes s1) \<subseteq> allotted s1" using g by (simp_all add: grown_def)
  show ?thesis using g h(1) subset_trans [OF d(1) sub] subset_trans [OF d(2) sub] by (simp add: grown_def)
qed

lemma grown_vnode:
  assumes g: "grown s s1" and h: "slab_inv h" "live h = insert (p, m) (live (heap s1))" "p \<notin> allotted s1"
  shows "grown s (s1\<lparr>heap := h, vnodes := (vnodes s1)(p \<mapsto> x)\<rparr>)" "p \<notin> dom (vnodes s)"
proof -
  have "dom (vnodes s) \<subseteq> dom (vnodes s1)" using g by (intro map_le_implies_dom_le) (simp add: grown_def)
  then show n: "p \<notin> dom (vnodes s)" using g h(3) by (simp add: grown_def) blast
  show "grown s (s1\<lparr>heap := h, vnodes := (vnodes s1)(p \<mapsto> x)\<rparr>)"
    using g h n by (auto simp: grown_def map_le_def)
qed

lemma grown_node:
  assumes g: "grown s s1" and h: "slab_inv h" "live h = insert (p, m) (live (heap s1))" "p \<notin> allotted s1"
  shows "grown s (s1\<lparr>heap := h, fs_nodes := (fs_nodes s1)(p \<mapsto> x)\<rparr>)" "p \<notin> dom (fs_nodes s)"
proof -
  have "dom (fs_nodes s) \<subseteq> dom (fs_nodes s1)" using g by (intro map_le_implies_dom_le) (simp add: grown_def)
  then show n: "p \<notin> dom (fs_nodes s)" using g h(3) by (simp add: grown_def) blast
  show "grown s (s1\<lparr>heap := h, fs_nodes := (fs_nodes s1)(p \<mapsto> x)\<rparr>)"
    using g h n by (auto simp: grown_def map_le_def)
qed

lemma grown_inv: "grown s s1 \<Longrightarrow> kernel_inv s1"
  by (simp add: grown_def kernel_inv_def)

lemma new_vnode_cases:
  assumes g: "grown s s1"
  obtains (fail) h where "new_vnode ops fops parent ty s1 = Some (0, s1\<lparr>heap := h\<rparr>)" and "grown s (s1\<lparr>heap := h\<rparr>)"
  | (new) p h i where "new_vnode ops fops parent ty s1 = Some (p, s1\<lparr>heap := h, vnodes := (vnodes s1)(p \<mapsto>
        \<lparr>v_mount = 0, v_ops = ops, v_f_ops = fops, v_parent = parent p, v_type = ty, v_internal = i\<rparr>)\<rparr>)"
      and "p \<noteq> 0" and "p \<notin> dom (vnodes s)" and "slab_inv h"
      and "\<And>x. grown s (s1\<lparr>heap := h, vnodes := (vnodes s1)(p \<mapsto> x)\<rparr>)"
proof -
  have sz: "unat sizeof_vnode \<le> 2 ^ 63" by (simp add: sizeof_vnode_def)
  show thesis
  proof (rule allocate_cases [OF grown_inv [OF g] sz])
    fix h assume "allocate sizeof_vnode s1 = Some (0, s1\<lparr>heap := h\<rparr>)" "slab_inv h" "live h = live (heap s1)"
    then show thesis using grown_heap [OF g] by (intro fail [of h]) (simp_all add: new_vnode_def)
  next
    fix p h m
    assume a: "allocate sizeof_vnode s1 = Some (p, s1\<lparr>heap := h\<rparr>)" "slab_inv h" "p \<noteq> 0"
      "live h = insert (p, m) (live (heap s1))" "p \<notin> allotted s1"
    then show thesis using grown_vnode [OF g a(2,4,5)]
      by (intro new [of p "load64 (mem s1) (p + 40)" h]) (simp_all add: new_vnode_def)
  qed
qed

lemma new_node_cases:
  assumes g: "grown s s1"
  obtains (fail) h where "new_node init s1 = Some (0, s1\<lparr>heap := h\<rparr>)" and "grown s (s1\<lparr>heap := h\<rparr>)"
  | (new) p h where "new_node init s1 = Some (p, s1\<lparr>heap := h, fs_nodes := (fs_nodes s1)(p \<mapsto> init (raw_node (mem s1) p))\<rparr>)"
      and "p \<noteq> 0" and "p \<notin> dom (fs_nodes s)" and "slab_inv h"
      and "\<And>x. grown s (s1\<lparr>heap := h, fs_nodes := (fs_nodes s1)(p \<mapsto> x)\<rparr>)"
proof -
  have sz: "unat sizeof_fs_node \<le> 2 ^ 63" by (simp add: sizeof_fs_node_def)
  show thesis
  proof (rule allocate_cases [OF grown_inv [OF g] sz])
    fix h assume "allocate sizeof_fs_node s1 = Some (0, s1\<lparr>heap := h\<rparr>)" "slab_inv h" "live h = live (heap s1)"
    then show thesis using grown_heap [OF g] by (intro fail [of h]) (simp_all add: new_node_def)
  next
    fix p h m
    assume a: "allocate sizeof_fs_node s1 = Some (p, s1\<lparr>heap := h\<rparr>)" "slab_inv h" "p \<noteq> 0"
      "live h = insert (p, m) (live (heap s1))" "p \<notin> allotted s1"
    then show thesis using grown_node [OF g a(2,4,5)] by (intro new [of p h]) (simp_all add: new_node_def)
  qed
qed

subsection \<open>Creating\<close>

lemma name_chars_cstr: "cstr name xs \<Longrightarrow> length xs < MAX_NAME \<Longrightarrow> name_chars name = length xs"
proof -
  assume c: "cstr name xs" "length xs < MAX_NAME"
  have "List.find (\<lambda>i. name i = 0) [0..<MAX_NAME] = Some (length xs)"
    unfolding find_Some_iff using c cstrD [OF c(1)] cstr_end [OF c(1)]
    by (intro exI [of _ "length xs"]) (auto simp: cstrD)
  then show ?thesis by (simp add: name_chars_def)
qed

lemma store_name_ok:
  assumes "cstr name xs" and "length xs < MAX_NAME" and "length (n_name x) = MAX_NAME"
  shows "store_name name x = x\<lparr>n_name := n_name (store_name name x)\<rparr>" "length (n_name (store_name name x)) = MAX_NAME"
    "0 \<in> set (n_name (store_name name x))" "takeWhile (\<lambda>c. c \<noteq> 0) (n_name (store_name name x)) = xs"
proof -
  let ?k = "length xs"
  have m: "map name [0..<?k] = xs" using cstrD [OF assms(1)] by (intro nth_equalityI) auto
  obtain c r where r: "drop ?k (n_name x) = c # r" "length r = MAX_NAME - Suc ?k"
    using assms(2,3) by (cases "drop ?k (n_name x)") (auto dest: arg_cong [of _ _ length])
  have e: "n_name (store_name name x) = xs @ 0 # r" "store_name name x = x\<lparr>n_name := n_name (store_name name x)\<rparr>"
    using assms(2) by (simp_all add: store_name_def name_chars_cstr [OF assms(1,2)] m r(1) Let_def)
  show "store_name name x = x\<lparr>n_name := n_name (store_name name x)\<rparr>" by (rule e(2))
  show "length (n_name (store_name name x)) = MAX_NAME" "0 \<in> set (n_name (store_name name x))"
    using assms(2) r(2) by (simp_all add: e(1))
  have "0 \<notin> set xs" using assms(1) by (simp add: cstr_def)
  then show "takeWhile (\<lambda>c. c \<noteq> 0) (n_name (store_name name x)) = xs" unfolding e(1) by (subst takeWhile_append2) auto
qed

text \<open>What a call that makes an entry achieves: either nothing but added objects that no directory
  shows, or a new vnode that is well typed and found under the name, and only under it.\<close>

definition entry_made :: "vnode_type \<Rightarrow> u64 set \<Rightarrow> u64 \<Rightarrow> u8 list \<Rightarrow> u64 option \<Rightarrow> kernel \<Rightarrow> kernel \<Rightarrow> bool" where
  "entry_made ty V dir xs r s s' \<longleftrightarrow>
     (case r of
        None \<Rightarrow> fs_ok V s' \<and> (\<forall>e \<in> V. \<forall>nm ys. cstr nm ys \<longrightarrow> tmpfs_lookup e nm s' = tmpfs_lookup e nm s)
      | Some v \<Rightarrow> v \<notin> V \<and> fs_ok (insert v V) s' \<and>
          (\<exists>x. vnodes s' v = Some x \<and> v_type x = ty \<and> v_parent x = dir \<and> v_mount x = 0 \<and>
             v_ops x = tmpfs_v_ops \<and> v_f_ops x = tmpfs_f_ops) \<and>
          (\<exists>n. node_of v s' = Some n \<and> n_size n = 0) \<and>
          (\<forall>nm ys. cstr nm ys \<longrightarrow> tmpfs_lookup dir nm s' = (if ys = xs then Some (Some v) else tmpfs_lookup dir nm s)) \<and>
          (\<forall>nm. cstr nm xs \<longrightarrow> tmpfs_lookup dir nm s = Some None))"

lemma made_fail: "fs_ok V s \<Longrightarrow> grown s s' \<Longrightarrow> entry_made ty V dir xs None s s'"
  unfolding entry_made_def using grown_ok by fastforce

lemma made_link:
  assumes "fs_ok V s" and "dir \<in> V" "vnodes s dir = Some dv" "fs_nodes s (v_internal dv) = Some d" "n_type d = NODE_DIR"
    and "cstr name xs" "tmpfs_lookup dir name s = Some None" and "slot < MAX_ENTRIES" "n_entries d ! slot = 0"
    and "v \<notin> dom (vnodes s)" "v \<noteq> 0" "n \<notin> dom (fs_nodes s)"
    and N: "node_ok V ty N" "takeWhile (\<lambda>c. c \<noteq> 0) (n_name N) = xs" "n_size N = 0"
    and s': "s' = s\<lparr>heap := h, vnodes := (vnodes s)(v \<mapsto> \<lparr>v_mount = 0, v_ops = tmpfs_v_ops, v_f_ops = tmpfs_f_ops,
        v_parent = dir, v_type = ty, v_internal = n\<rparr>),
      fs_nodes := (fs_nodes s)(n \<mapsto> N, v_internal dv \<mapsto> d\<lparr>n_entries := (n_entries d)[slot := v]\<rparr>)\<rparr>"
    and g: "grown s (s\<lparr>heap := h, vnodes := (vnodes s)(v \<mapsto> x), fs_nodes := (fs_nodes s)(n \<mapsto> N)\<rparr>)"
  shows "entry_made ty V dir xs (Some v) s s'"
proof -
  let ?x = "\<lparr>v_mount = 0, v_ops = tmpfs_v_ops, v_f_ops = tmpfs_f_ops, v_parent = dir, v_type = ty, v_internal = n\<rparr>"
  have hp: "slab_inv (heap s')" "dom (vnodes s') \<subseteq> allotted s'" "dom (fs_nodes s') \<subseteq> allotted s'"
    using g assms(4) by (auto simp: s' grown_def)
  have vn: "vnodes s' = (vnodes s)(v \<mapsto> ?x)"
    "fs_nodes s' = (fs_nodes s)(n \<mapsto> N, v_internal dv \<mapsto> d\<lparr>n_entries := (n_entries d)[slot := v]\<rparr>)" by (simp_all add: s')
  have xn: "v_internal ?x = n" "node_ok V (v_type ?x) N" using N(1) by simp_all
  note l = link_ok [OF assms(1-12) xn N(2) vn hp]
  have vV: "v \<notin> V" using fs_okD [OF assms(1), of v] assms(10) by auto
  have ne: "v_internal dv \<noteq> n" using assms(4,12) by auto
  have f: "tmpfs_lookup dir nm s = Some None" if "cstr nm xs" for nm
    using lookup_find [OF assms(1,2) _ that, of d] lookup_find [OF assms(1,2) _ assms(6), of d] assms(3-5,7)
    by (simp add: node_of_def)
  have "node_of v s' = Some N" using ne by (simp add: vn node_of_def)
  then show ?thesis using vV l f N(3) by (simp add: entry_made_def vn)
qed

lemma free_entry_slot: "free_entry d = Some slot \<Longrightarrow> slot < MAX_ENTRIES \<and> n_entries d ! slot = 0"
  by (auto simp: free_entry_def find_Some_iff)

lemma raw_node_sizes [simp]: "length (n_name (raw_node m p)) = MAX_NAME" "length (n_entries (raw_node m p)) = MAX_ENTRIES"
  by (simp_all add: raw_node_def)

text \<open>The common head of both operations: they fail at once, or there is a place for the entry.\<close>

lemma place_cases:
  assumes ok: "fs_ok V s" and dir: "dir \<in> V" and c: "cstr name xs"
  obtains (no) dv d where "vnodes s dir = Some dv" and "fs_nodes s (v_internal dv) = Some d"
      and "tmpfs_create dir name s = Some (None, s)" and "tmpfs_mkdir dir name s = Some (None, s)"
  | (place) dv d slot where "vnodes s dir = Some dv" and "fs_nodes s (v_internal dv) = Some d" and "n_type d = NODE_DIR"
      and "tmpfs_lookup dir name s = Some None" and "free_entry d = Some slot"
      and "slot < MAX_ENTRIES" and "n_entries d ! slot = 0"
proof -
  obtain dv d where d: "vnodes s dir = Some dv" "fs_nodes s (v_internal dv) = Some d" "node_of dir s = Some d"
    using fs_okD [OF ok dir] by blast
  obtain f where f: "tmpfs_lookup dir name s = Some f" using lookup_find [OF ok dir d(3) c] by blast
  show thesis
  proof (cases "n_type d = NODE_DIR \<and> f = None \<and> free_entry d \<noteq> None")
    case True
    then show thesis using d f free_entry_slot place by fastforce
  next
    case False
    then show thesis using d f by (intro no [of dv d]) (auto simp: tmpfs_create_def tmpfs_mkdir_def)
  qed
qed

lemma named_node_ok:
  assumes "cstr name xs" and "length xs < MAX_NAME" and "length (n_name x) = MAX_NAME" and "length (n_entries x) = MAX_ENTRIES"
    and "n_type x = NODE_DIR \<longleftrightarrow> ty = VFS_TYPE_DIR" and "n_type x = NODE_DIR \<longrightarrow> set (n_entries x) \<subseteq> {0}"
  shows "node_ok V ty (store_name name x)" "n_size (store_name name x) = n_size x"
proof -
  note n = store_name_ok [OF assms(1-3)]
  obtain cs where e: "store_name name x = x\<lparr>n_name := cs\<rparr>" using n(1) by blast
  show "n_size (store_name name x) = n_size x" by (simp add: e)
  show "node_ok V ty (store_name name x)" using n(2,3) assms(4-6) by (auto simp: node_ok_def e)
qed

definition dir_init :: "cptr \<Rightarrow> fs_node \<Rightarrow> fs_node" where
  "dir_init name x = store_name name (x\<lparr>n_type := NODE_DIR, n_size := 0, n_entries := replicate MAX_ENTRIES 0\<rparr>)"

definition file_init :: "cptr \<Rightarrow> u64 \<Rightarrow> fs_node \<Rightarrow> fs_node" where
  "file_init name data x = store_name name (x\<lparr>n_type := NODE_FILE, n_size := 0, n_entries := (n_entries x)[0 := data]\<rparr>)"

lemma dir_init_fun:
  "(\<lambda>x. store_name name (x\<lparr>n_type := NODE_DIR, n_size := 0, n_entries := replicate MAX_ENTRIES 0\<rparr>)) = dir_init name"
  by (rule ext) (simp add: dir_init_def)

lemma init_nodes:
  assumes "cstr name xs" and "length xs < MAX_NAME"
  shows "node_ok V VFS_TYPE_DIR (dir_init name (raw_node m p))" "node_ok V VFS_TYPE_FILE (file_init name data (raw_node m p))"
    "takeWhile (\<lambda>c. c \<noteq> 0) (n_name (dir_init name (raw_node m p))) = xs"
    "takeWhile (\<lambda>c. c \<noteq> 0) (n_name (file_init name data (raw_node m p))) = xs"
    "n_size (dir_init name (raw_node m p)) = 0" "n_size (file_init name data (raw_node m p)) = 0"
proof -
  define d where "d = (raw_node m p)\<lparr>n_type := NODE_DIR, n_size := 0, n_entries := replicate MAX_ENTRIES 0\<rparr>"
  define k where "k = (raw_node m p)\<lparr>n_type := NODE_FILE, n_size := 0, n_entries := (n_entries (raw_node m p))[0 := data]\<rparr>"
  have l: "length (n_name d) = MAX_NAME" "length (n_entries d) = MAX_ENTRIES" "n_type d = NODE_DIR" "set (n_entries d) \<subseteq> {0}"
    "n_size d = 0" "length (n_name k) = MAX_NAME" "length (n_entries k) = MAX_ENTRIES" "n_type k = NODE_FILE" "n_size k = 0"
    by (auto simp: d_def k_def)
  have e: "dir_init name (raw_node m p) = store_name name d" "file_init name data (raw_node m p) = store_name name k"
    by (simp_all add: dir_init_def file_init_def d_def k_def)
  show "node_ok V VFS_TYPE_DIR (dir_init name (raw_node m p))"
    unfolding e by (rule named_node_ok(1) [OF assms l(1,2)]) (simp_all add: l)
  show "node_ok V VFS_TYPE_FILE (file_init name data (raw_node m p))"
    unfolding e by (rule named_node_ok(1) [OF assms l(6,7)]) (simp_all add: l)
  show "takeWhile (\<lambda>c. c \<noteq> 0) (n_name (dir_init name (raw_node m p))) = xs"
    "takeWhile (\<lambda>c. c \<noteq> 0) (n_name (file_init name data (raw_node m p))) = xs"
    unfolding e by (rule store_name_ok(4) [OF assms l(1)], rule store_name_ok(4) [OF assms l(6)])
  show "n_size (dir_init name (raw_node m p)) = 0" "n_size (file_init name data (raw_node m p)) = 0"
    using store_name_ok(1) [OF assms l(1)] store_name_ok(1) [OF assms l(6)] l(5,9) unfolding e
    by (metis fs_node.select_convs(3) fs_node.surjective fs_node.update_convs(1))+
qed

lemma mkdir_made:
  assumes ok: "fs_ok V s" and dir: "dir \<in> V" and c: "cstr name xs" "length xs < MAX_NAME"
  shows "\<exists>r s'. tmpfs_mkdir dir name s = Some (r, s') \<and> entry_made VFS_TYPE_DIR V dir xs r s s'"
proof (rule place_cases [OF ok dir c(1)])
  fix dv d assume "tmpfs_mkdir dir name s = Some (None, s)"
  then show ?thesis using made_fail [OF ok grown_refl [OF ok]] by blast
next
  fix dv d slot
  assume p: "vnodes s dir = Some dv" "fs_nodes s (v_internal dv) = Some d" "n_type d = NODE_DIR"
    "tmpfs_lookup dir name s = Some None" "free_entry d = Some slot" "slot < MAX_ENTRIES" "n_entries d ! slot = 0"
  show ?thesis
  proof (rule new_vnode_cases [OF grown_refl [OF ok], of tmpfs_v_ops tmpfs_f_ops "\<lambda>_. dir" VFS_TYPE_DIR])
    fix h assume h: "new_vnode tmpfs_v_ops tmpfs_f_ops (\<lambda>_. dir) VFS_TYPE_DIR s = Some (0, s\<lparr>heap := h\<rparr>)" "grown s (s\<lparr>heap := h\<rparr>)"
    then have "tmpfs_mkdir dir name s = Some (None, s\<lparr>heap := h\<rparr>)" using p by (simp add: tmpfs_mkdir_def)
    then show ?thesis using made_fail [OF ok h(2)] by blast
  next
    fix v h i
    let ?x = "\<lambda>i. \<lparr>v_mount = 0, v_ops = tmpfs_v_ops, v_f_ops = tmpfs_f_ops, v_parent = dir, v_type = VFS_TYPE_DIR, v_internal = i\<rparr>"
    assume v: "new_vnode tmpfs_v_ops tmpfs_f_ops (\<lambda>_. dir) VFS_TYPE_DIR s = Some (v, s\<lparr>heap := h, vnodes := (vnodes s)(v \<mapsto> ?x i)\<rparr>)"
      "v \<noteq> 0" "v \<notin> dom (vnodes s)" and g: "\<And>x. grown s (s\<lparr>heap := h, vnodes := (vnodes s)(v \<mapsto> x)\<rparr>)"
    define s1 where "s1 = s\<lparr>heap := h, vnodes := (vnodes s)(v \<mapsto> ?x i)\<rparr>"
    have g1: "grown s s1" using g by (simp add: s1_def)
    show ?thesis
    proof (rule new_node_cases [OF g1, of "dir_init name"])
      fix h2 assume h2: "new_node (dir_init name) s1 = Some (0, s1\<lparr>heap := h2\<rparr>)" "grown s (s1\<lparr>heap := h2\<rparr>)"
      then have "tmpfs_mkdir dir name s = Some (None, s1\<lparr>heap := h2\<rparr>)"
        using p v by (simp add: tmpfs_mkdir_def s1_def [symmetric] dir_init_fun)
      then show ?thesis using made_fail [OF ok h2(2)] by blast
    next
      fix n h2
      let ?N = "dir_init name (raw_node (mem s1) n)"
      assume n: "new_node (dir_init name) s1 = Some (n, s1\<lparr>heap := h2, fs_nodes := (fs_nodes s1)(n \<mapsto> ?N)\<rparr>)" "n \<noteq> 0"
        "n \<notin> dom (fs_nodes s)" and g2: "\<And>x. grown s (s1\<lparr>heap := h2, fs_nodes := (fs_nodes s1)(n \<mapsto> x)\<rparr>)"
      define s' where "s' = s\<lparr>heap := h2, vnodes := (vnodes s)(v \<mapsto> ?x n),
        fs_nodes := (fs_nodes s)(n \<mapsto> ?N, v_internal dv \<mapsto> d\<lparr>n_entries := (n_entries d)[slot := v]\<rparr>)\<rparr>"
      have ne: "v_internal dv \<noteq> n" using p(2) n(3) by auto
      have e: "tmpfs_mkdir dir name s = Some (Some v, s')"
        using p v(1,2) n(1,2) ne
        by (simp add: tmpfs_mkdir_def s1_def [symmetric] dir_init_fun set_internal_def set_entry_def update_vnode_def update_node_def)
          (simp add: s1_def s'_def)
      have g': "grown s (s\<lparr>heap := h2, vnodes := (vnodes s)(v \<mapsto> ?x i), fs_nodes := (fs_nodes s)(n \<mapsto> ?N)\<rparr>)"
        by (rule grown_cong [OF g2 [of ?N]]) (simp_all add: s1_def)
      show ?thesis
        using e made_link [OF ok dir p(1-3) c(1) p(4,6,7) v(3,2) n(3) init_nodes(1,3,5) [OF c] s'_def g'] by blast
    qed
  qed
qed

lemma create_made:
  assumes ok: "fs_ok V s" and dir: "dir \<in> V" and c: "cstr name xs" "length xs < MAX_NAME"
  shows "\<exists>r s'. tmpfs_create dir name s = Some (r, s') \<and> entry_made VFS_TYPE_FILE V dir xs r s s'"
proof (rule place_cases [OF ok dir c(1)])
  fix dv d assume "tmpfs_create dir name s = Some (None, s)"
  then show ?thesis using made_fail [OF ok grown_refl [OF ok]] by blast
next
  fix dv d slot
  assume p: "vnodes s dir = Some dv" "fs_nodes s (v_internal dv) = Some d" "n_type d = NODE_DIR"
    "tmpfs_lookup dir name s = Some None" "free_entry d = Some slot" "slot < MAX_ENTRIES" "n_entries d ! slot = 0"
  let ?init = "\<lambda>x :: fs_node. x\<lparr>n_type := NODE_FILE, n_size := 0\<rparr>"
  show ?thesis
  proof (rule new_vnode_cases [OF grown_refl [OF ok], of tmpfs_v_ops tmpfs_f_ops "\<lambda>_. dir" VFS_TYPE_FILE])
    fix h assume h: "new_vnode tmpfs_v_ops tmpfs_f_ops (\<lambda>_. dir) VFS_TYPE_FILE s = Some (0, s\<lparr>heap := h\<rparr>)" "grown s (s\<lparr>heap := h\<rparr>)"
    then have "tmpfs_create dir name s = Some (None, s\<lparr>heap := h\<rparr>)" using p by (simp add: tmpfs_create_def)
    then show ?thesis using made_fail [OF ok h(2)] by blast
  next
    fix v h i
    let ?x = "\<lambda>i. \<lparr>v_mount = 0, v_ops = tmpfs_v_ops, v_f_ops = tmpfs_f_ops, v_parent = dir, v_type = VFS_TYPE_FILE, v_internal = i\<rparr>"
    assume v: "new_vnode tmpfs_v_ops tmpfs_f_ops (\<lambda>_. dir) VFS_TYPE_FILE s = Some (v, s\<lparr>heap := h, vnodes := (vnodes s)(v \<mapsto> ?x i)\<rparr>)"
      "v \<noteq> 0" "v \<notin> dom (vnodes s)" and g: "\<And>x. grown s (s\<lparr>heap := h, vnodes := (vnodes s)(v \<mapsto> x)\<rparr>)"
    define s1 where "s1 = s\<lparr>heap := h, vnodes := (vnodes s)(v \<mapsto> ?x i)\<rparr>"
    have g1: "grown s s1" using g by (simp add: s1_def)
    show ?thesis
    proof (rule new_node_cases [OF g1, of ?init])
      fix h2 assume h2: "new_node ?init s1 = Some (0, s1\<lparr>heap := h2\<rparr>)" "grown s (s1\<lparr>heap := h2\<rparr>)"
      then have "tmpfs_create dir name s = Some (None, s1\<lparr>heap := h2\<rparr>)"
        using p v by (simp add: tmpfs_create_def s1_def [symmetric])
      then show ?thesis using made_fail [OF ok h2(2)] by blast
    next
      fix n h2
      let ?R = "raw_node (mem s1) n"
      assume n: "new_node ?init s1 = Some (n, s1\<lparr>heap := h2, fs_nodes := (fs_nodes s1)(n \<mapsto> ?init ?R)\<rparr>)" "n \<noteq> 0"
        "n \<notin> dom (fs_nodes s)" and g2: "\<And>x. grown s (s1\<lparr>heap := h2, fs_nodes := (fs_nodes s1)(n \<mapsto> x)\<rparr>)"
      define s2 where "s2 = s1\<lparr>heap := h2, fs_nodes := (fs_nodes s1)(n \<mapsto> ?init ?R)\<rparr>"
      have ne: "v_internal dv \<noteq> n" using p(2) n(3) by auto
      have sz: "unat MAX_FILE_SIZE \<le> 2 ^ 63" by (simp add: MAX_FILE_SIZE_def)
      have gx: "grown s (s\<lparr>heap := h3, vnodes := (vnodes s)(v \<mapsto> ?x i), fs_nodes := (fs_nodes s)(n \<mapsto> x)\<rparr>)"
        if "slab_inv h3" "live h2 \<subseteq> live h3" for h3 x
        using that by (intro grown_cong [OF grown_heap [OF g2 [of x]]]) (simp_all add: s1_def)
      show ?thesis
      proof (rule allocate_cases [OF grown_inv sz, of s s2])
        show "grown s s2" using g2 by (simp add: s2_def)
      next
        fix h3 assume h3: "allocate MAX_FILE_SIZE s2 = Some (0, s2\<lparr>heap := h3\<rparr>)" "slab_inv h3" "live h3 = live (heap s2)"
        define s' where "s' = s\<lparr>heap := h3, vnodes := (vnodes s)(v \<mapsto> ?x i),
          fs_nodes := (fs_nodes s)(n \<mapsto> (?init ?R)\<lparr>n_entries := (n_entries ?R)[0 := 0]\<rparr>)\<rparr>"
        have "tmpfs_create dir name s = Some (None, s')"
          using p v n h3(1) by (simp add: tmpfs_create_def s1_def [symmetric] s2_def [symmetric] set_entry_def update_node_def)
            (simp add: s2_def s1_def s'_def)
        moreover have "grown s s'" using gx [of h3] h3(2,3) by (simp add: s'_def s2_def)
        ultimately show ?thesis using made_fail [OF ok] by blast
      next
        fix data h3 m
        assume h3: "allocate MAX_FILE_SIZE s2 = Some (data, s2\<lparr>heap := h3\<rparr>)" "slab_inv h3" "data \<noteq> 0"
          "live h3 = insert (data, m) (live (heap s2))"
        let ?N = "file_init name data ?R"
        define s' where "s' = s\<lparr>heap := h3, vnodes := (vnodes s)(v \<mapsto> ?x n),
          fs_nodes := (fs_nodes s)(n \<mapsto> ?N, v_internal dv \<mapsto> d\<lparr>n_entries := (n_entries d)[slot := v]\<rparr>)\<rparr>"
        have e: "tmpfs_create dir name s = Some (Some v, s')"
          using p v(1,2) n(1,2) h3(1,3) ne
          by (simp add: tmpfs_create_def s1_def [symmetric] s2_def [symmetric] set_internal_def set_entry_def
              update_vnode_def update_node_def)
            (simp add: s2_def s1_def s'_def file_init_def)
        have g': "grown s (s\<lparr>heap := h3, vnodes := (vnodes s)(v \<mapsto> ?x i), fs_nodes := (fs_nodes s)(n \<mapsto> ?N)\<rparr>)"
          using h3(4) by (intro gx h3(2)) (auto simp: s2_def)
        show ?thesis
          using e made_link [OF ok dir p(1-3) c(1) p(4,6,7) v(3,2) n(3) init_nodes(2,4,6) [OF c] s'_def g'] by blast
      qed
    qed
  qed
qed

subsection \<open>The property\<close>


text \<open>A root directory without entries, its vnode and its node on two pages.\<close>

definition empty_root :: kernel where
  "empty_root = blank_kernel\<lparr>heap := pages_taken 2,
     vnodes := [0xffffffc000100000 \<mapsto> \<lparr>v_mount = 0, v_ops = tmpfs_v_ops, v_f_ops = tmpfs_f_ops,
       v_parent = 0xffffffc000100000, v_type = VFS_TYPE_DIR, v_internal = 0xffffffc000101000\<rparr>],
     fs_nodes := [0xffffffc000101000 \<mapsto> \<lparr>n_name = replicate MAX_NAME 0, n_type = NODE_DIR, n_size = 0,
       n_entries = replicate MAX_ENTRIES 0\<rparr>]\<rparr>"

lemma pages_taken_2: "slab_alloc 4096 (pages_taken 1) = Some (0xffffffc000101000, pages_taken 2)"
  by code_simp

lemma page_taken:
  assumes "slab_inv h" and "slab_alloc 4096 h = Some (p, h')" and "p \<noteq> 0"
  shows "slab_inv h'" "p \<in> fst ` live h'" "fst ` live h \<subseteq> fst ` live h'"
  using kmem.alloc_ok [OF assms(1), of 4096] assms(2,3) by force+

lemma empty_root_ok: "fs_ok {0xffffffc000100000} empty_root"
proof -
  have i: "slab_inv (pages_taken 0)" using eight_pages_inv by simp
  note 1 = page_taken [OF i pages_taken]
  have j: "slab_inv (pages_taken 1)" by (rule 1(1)) simp
  note 2 = page_taken [OF j pages_taken_2]
  have h: "heap empty_root = pages_taken 2" by (simp add: empty_root_def del: pages_taken.simps)
  have k: "slab_inv (pages_taken 2)" by (rule 2(1)) simp
  have "0xffffffc000100000 \<in> fst ` live (pages_taken 1)" by (rule 1(2)) simp
  moreover have "0xffffffc000101000 \<in> fst ` live (pages_taken 2)" by (rule 2(2)) simp
  moreover have "fst ` live (pages_taken 1) \<subseteq> fst ` live (pages_taken 2)" by (rule 2(3)) simp
  ultimately have "0xffffffc000100000 \<in> allotted empty_root" "0xffffffc000101000 \<in> allotted empty_root"
    unfolding h by blast+
  then show ?thesis using k h
    by (simp add: fs_ok_def kernel_inv_def node_ok_def del: pages_taken.simps)
      (simp add: empty_root_def MAX_NAME_def MAX_ENTRIES_def)
qed


end
