(* ===== verification/Threads.thy ===== *)
theory Threads
  imports Process Page_Tables
begin

text \<open>
  The life cycle of the kernel threads of src/lab7/src/sched.c as a state machine: boot creates the idle
  thread, and from then on the threads create others, give the hart away, exit, allocate and free
  memory, and the idle thread reaps.  The invariant of every reachable state says that the run queue
  is a ring of the threads that have not exited, the zombie queue a list of the others, and that each
  owns the memory of its task structure and of its kernel stack.  The threads of the theory have no open
  files and run on the kernel page table, as \<open>thread_create\<close> makes them.
\<close>

subsection \<open>The memory of the threads\<close>

definition stacks :: "task_heap \<Rightarrow> u64 \<rightharpoonup> u64" where
  "stacks H p = map_option ts_stack (H p)"

definition thread_blocks :: "task_heap \<Rightarrow> u64 set" where
  "thread_blocks H = dom H \<union> ran (stacks H)"

text \<open>No two threads share a stack, and no stack is a task structure.\<close>

definition apart :: "task_heap \<Rightarrow> bool" where
  "apart H \<longleftrightarrow> inj_on (stacks H) (dom H) \<and> dom H \<inter> ran (stacks H) = {}"

lemma dom_stacks [simp]: "dom (stacks H) = dom H"
  by (auto simp: stacks_def)

lemma thread_blocksI: "H p = Some t \<Longrightarrow> p \<in> thread_blocks H \<and> ts_stack t \<in> thread_blocks H"
  by (auto simp: thread_blocks_def stacks_def ran_def)

lemma stacks_cong:
  assumes "\<forall>p. map_option ts_stack (H' p) = map_option ts_stack (H p)"
  shows "thread_blocks H' = thread_blocks H" "apart H' = apart H" "dom H' = dom H"
proof -
  have e: "stacks H' = stacks H" using assms by (simp add: stacks_def fun_eq_iff)
  have d: "dom H' = dom H" using dom_stacks [of H'] dom_stacks [of H] by (simp add: e)
  show "thread_blocks H' = thread_blocks H" "apart H' = apart H" "dom H' = dom H"
    by (simp_all add: thread_blocks_def apart_def d e)
qed

lemma blocks_new:
  assumes "apart H" and "p \<notin> thread_blocks H" and "ts_stack t \<notin> insert p (thread_blocks H)"
  shows "apart (H(p \<mapsto> t))" "thread_blocks (H(p \<mapsto> t)) = {p, ts_stack t} \<union> thread_blocks H"
proof -
  have e: "stacks (H(p \<mapsto> t)) = (stacks H)(p \<mapsto> ts_stack t)" by (simp add: stacks_def fun_eq_iff)
  have n: "stacks H p = None" using assms(2) by (simp add: thread_blocks_def stacks_def domIff)
  have r: "ran ((stacks H)(p \<mapsto> ts_stack t)) = insert (ts_stack t) (ran (stacks H))" using n by simp
  show b: "thread_blocks (H(p \<mapsto> t)) = {p, ts_stack t} \<union> thread_blocks H"
    unfolding thread_blocks_def e r by auto
  have "inj_on (stacks H) (dom H)" "dom H \<inter> ran (stacks H) = {}" "p \<notin> dom H" "p \<notin> ran (stacks H)"
    "ts_stack t \<noteq> p" "ts_stack t \<notin> dom H" "ts_stack t \<notin> ran (stacks H)"
    using assms by (simp_all add: apart_def thread_blocks_def)
  then show "apart (H(p \<mapsto> t))"
    unfolding apart_def e r by (auto simp: inj_on_def ranI)
qed

lemma blocks_drop:
  assumes "apart H" and "H p = Some t"
  shows "apart (H(p := None))" "thread_blocks (H(p := None)) = thread_blocks H - {p, ts_stack t}"
    "ts_stack t \<noteq> p"
proof -
  have e: "stacks (H(p := None)) = (stacks H)(p := None)" by (simp add: stacks_def fun_eq_iff)
  have s: "stacks H p = Some (ts_stack t)" using assms(2) by (simp add: stacks_def)
  have i: "inj_on (stacks H) (dom H)" "dom H \<inter> ran (stacks H) = {}" using assms(1) by (simp_all add: apart_def)
  have r: "ran ((stacks H)(p := None)) = ran (stacks H) - {ts_stack t}"
  proof
    show "ran ((stacks H)(p := None)) \<subseteq> ran (stacks H) - {ts_stack t}"
    proof
      fix v assume "v \<in> ran ((stacks H)(p := None))"
      then obtain q where q: "q \<noteq> p" "stacks H q = Some v" by (auto simp: ran_def split: if_splits)
      then have "v \<noteq> ts_stack t" using inj_onD [OF i(1), of q p] s assms(2)
        by (metis domI dom_stacks)
      then show "v \<in> ran (stacks H) - {ts_stack t}" using q by (auto intro: ranI)
    qed
    show "ran (stacks H) - {ts_stack t} \<subseteq> ran ((stacks H)(p := None))"
    proof
      fix v assume "v \<in> ran (stacks H) - {ts_stack t}"
      then obtain q where q: "stacks H q = Some v" "v \<noteq> ts_stack t" by (auto simp: ran_def)
      then have "q \<noteq> p" using s by auto
      with q(1) show "v \<in> ran ((stacks H)(p := None))" by (intro ranI [of _ q]) simp
    qed
  qed
  have "p \<in> dom H" using assms(2) by blast
  moreover have "ts_stack t \<in> ran (stacks H)" using s by (rule ranI)
  ultimately show ne: "ts_stack t \<noteq> p" using i(2) by blast
  show "apart (H(p := None))" using i by (auto simp: apart_def e r inj_on_def)
  show "thread_blocks (H(p := None)) = thread_blocks H - {p, ts_stack t}"
    using i(2) \<open>p \<in> dom H\<close> \<open>ts_stack t \<in> ran (stacks H)\<close> unfolding thread_blocks_def e r by auto
qed

subsection \<open>The queues\<close>

fun zombie_list :: "task_heap \<Rightarrow> u64 \<Rightarrow> u64 list \<Rightarrow> bool" where
  "zombie_list H q [] \<longleftrightarrow> q = 0"
| "zombie_list H q (z # zs) \<longleftrightarrow> q = z \<and> z \<noteq> 0 \<and> zombie_list H (lnext (task_links H) z) zs"

lemma zombie_list_kept:
  "links_kept A H H' \<Longrightarrow> set zs \<inter> A = {} \<Longrightarrow> zombie_list H' q zs = zombie_list H q zs"
  by (induction zs arbitrary: q) (auto simp: links_kept_def)

lemma zombie_list_nz: "zombie_list H q zs \<Longrightarrow> 0 \<notin> set zs"
  by (induction zs arbitrary: q) auto

lemma links_at: "H' x = H x \<Longrightarrow> lnext (task_links H') x = lnext (task_links H) x \<and> lprev (task_links H') x = lprev (task_links H) x"
  by (simp add: task_links_def)

lemma ring_cong:
  assumes "ring H q xs" and "\<And>x. x \<in> set xs \<Longrightarrow> H' x = H x"
  shows "ring H' q xs"
proof (cases xs)
  case Nil
  then show ?thesis using assms(1) by (simp add: ring_def)
next
  case (Cons x ys)
  have "dlist (task_links H') x ys"
    using assms(1) by (rule_tac dlist_frame [of "task_links H"]) (auto simp: ring_def Cons intro!: links_at assms(2))
  moreover have "set xs \<subseteq> dom H'" using assms by (auto simp: ring_def domIff)
  ultimately show ?thesis using assms(1) by (simp add: ring_def Cons)
qed

lemma ring_links:
  assumes "ring H q xs" and "task_links H' = task_links H" and "dom H' = dom H"
  shows "ring H' q xs"
  using assms by (simp add: ring_def split: list.splits)

subsection \<open>The invariant\<close>

text \<open>\<open>xs\<close> are the threads that have not exited, in the order of the run queue, and \<open>zs\<close> the others, the last
  to exit first.\<close>

definition threads_inv :: "kernel \<Rightarrow> u64 list \<Rightarrow> u64 list \<Rightarrow> bool" where
  "threads_inv s xs zs \<longleftrightarrow> kernel_inv s \<and> root_vnode s \<noteq> None \<and> apart (task_structs s) \<and>
     thread_blocks (task_structs s) \<subseteq> allotted s \<and> dom (task_structs s) = set (xs @ zs) \<and> distinct (xs @ zs) \<and>
     run_ring s xs \<and> zombie_list (task_structs s) (zombie_queue s) zs \<and>
     (\<forall>p t. task_structs s p = Some t \<longrightarrow> (ts_state t = THREAD_ZOMBIE \<longleftrightarrow> p \<in> set zs) \<and>
        ts_fds t = replicate MAX_FD 0 \<and> ts_pgd t = kernel_pgd s)"

text \<open>The running thread is the head of the run queue, or has just exited.\<close>

definition threads_ok :: "kernel \<Rightarrow> u64 list \<Rightarrow> u64 list \<Rightarrow> bool" where
  "threads_ok s xs zs \<longleftrightarrow> threads_inv s xs zs \<and> get_current s \<in> insert (hd xs) (set zs)"

text \<open>What no operation changes in a thread.\<close>

definition fixed_part :: "task_struct \<Rightarrow> u64 \<times> u64 list \<times> u64" where
  "fixed_part t = (ts_stack t, ts_fds t, ts_pgd t)"

lemma threads_invI:
  assumes ok: "threads_inv s xs zs" and k: "kernel_inv s'" "thread_blocks (task_structs s) \<subseteq> allotted s'"
    and o: "root_vnode s' = root_vnode s" "kernel_pgd s' = kernel_pgd s"
    and same: "\<forall>p. map_option fixed_part (task_structs s' p) = map_option fixed_part (task_structs s p)"
    and state: "\<forall>p t. task_structs s' p = Some t \<longrightarrow> (ts_state t = THREAD_ZOMBIE \<longleftrightarrow> p \<in> set zs')"
    and q: "run_ring s' xs'" "zombie_list (task_structs s') (zombie_queue s') zs'"
      "distinct (xs' @ zs')" "set (xs' @ zs') = set (xs @ zs)"
  shows "threads_inv s' xs' zs'"
proof -
  let ?H = "task_structs s" and ?H' = "task_structs s'"
  have "map_option fst (map_option fixed_part (?H' p)) = map_option fst (map_option fixed_part (?H p))" for p
    using same by simp
  moreover have "fst \<circ> fixed_part = ts_stack" by (simp add: fixed_part_def fun_eq_iff)
  ultimately have "\<forall>p. map_option ts_stack (?H' p) = map_option ts_stack (?H p)"
    by (simp add: option.map_comp)
  note st = stacks_cong [OF this]
  have b: "root_vnode s \<noteq> None" "apart ?H" "dom ?H = set (xs @ zs)" using ok by (simp_all add: threads_inv_def)
  have f: "ts_fds t' = replicate MAX_FD 0 \<and> ts_pgd t' = kernel_pgd s'" if t': "?H' p = Some t'" for p t'
  proof -
    have "map_option fixed_part (?H p) = Some (fixed_part t')" using same t' by (metis option.map(2))
    then obtain t where "?H p = Some t" "fixed_part t = fixed_part t'" by blast
    then show ?thesis using ok o(2) by (auto simp: threads_inv_def fixed_part_def)
  qed
  show ?thesis
    unfolding threads_inv_def st o(1) q(4) using b k q(1-3) state f by blast
qed

lemma fixed_unlinked: "map_option unlinked x = map_option unlinked y \<Longrightarrow> map_option fixed_part x = map_option fixed_part y"
  by (cases x; cases y) (auto simp: fixed_part_def dest: unlinked_fields)

lemma threads_inv_ring:
  assumes "threads_inv s xs zs"
  shows "ring (task_structs s) (run_queue s) xs" "distinct xs" "set xs \<inter> set zs = {}"
  using assms by (auto simp: threads_inv_def run_ring_def)

lemma threads_inv_thread:
  assumes "threads_inv s xs zs" and "task_structs s p = Some t"
  shows "ts_state t = THREAD_ZOMBIE \<longleftrightarrow> p \<in> set zs" "ts_fds t = replicate MAX_FD 0" "ts_pgd t = kernel_pgd s"
  using assms by (simp_all add: threads_inv_def)

text \<open>Other memory may come and go.\<close>

lemma threads_inv_same:
  assumes "threads_inv s xs zs" and "kernel_inv s'" and "thread_blocks (task_structs s) \<subseteq> allotted s'"
    and "task_structs s' = task_structs s" and "run_queue s' = run_queue s" and "zombie_queue s' = zombie_queue s"
    and "kernel_pgd s' = kernel_pgd s" and "root_vnode s' = root_vnode s"
  shows "threads_inv s' xs zs"
  using assms by (simp add: threads_inv_def run_ring_def)

subsection \<open>The scheduler\<close>

text \<open>A switch saves the registers of the current thread: no field that the invariant reads.\<close>

lemma switch_keeps:
  assumes inv: "threads_inv s xs zs" and e: "switch_away s = Some s'"
  shows "threads_inv s' xs zs" "get_current s' = run_queue s"
proof -
  obtain n t where "task_structs s (run_queue s) = Some n" and t: "task_structs s (get_current s) = Some t"
    and s': "switch_to (get_current s) (run_queue s)
       (s\<lparr>active_user_pgd := ts_pgd n, satp := MAKE_SATP (virt_to_phys (ts_pgd n))\<rparr>) = Some s'"
    using e by (auto simp: switch_away_def switch_to_def update_task_def split: bind_splits)
  define v where "v = (cpu_ctx s)\<lparr>th_sstatus := sstatus s\<rparr>"
  have sel: "task_structs s' = (task_structs s)(get_current s \<mapsto> t\<lparr>ts_thread := v\<rparr>)" "run_queue s' = run_queue s"
    "zombie_queue s' = zombie_queue s" "heap s' = heap s" "kernel_pgd s' = kernel_pgd s" "mounts s' = mounts s"
    "rootfs s' = rootfs s" "tp s' = run_queue s"
    using s' t by (auto simp: switch_to_def update_task_def v_def split: bind_splits)
  then show "get_current s' = run_queue s" by (simp add: get_current_def)
  have l: "task_links (task_structs s') = task_links (task_structs s)"
    unfolding sel(1) using t by (rule task_links_thread)
  have d: "dom (task_structs s') = dom (task_structs s)" using t by (auto simp: sel(1))
  have "links_kept {} (task_structs s) (task_structs s')" by (simp add: links_kept_def l)
  show "threads_inv s' xs zs"
  proof (rule threads_invI [OF inv])
    show "run_ring s' xs" using ring_links [OF threads_inv_ring(1) [OF inv] l d] by (simp add: run_ring_def sel(2))
    show "zombie_list (task_structs s') (zombie_queue s') zs"
      using zombie_list_kept [OF \<open>links_kept {} _ _\<close>, of zs] inv by (simp add: sel(3) threads_inv_def)
    show "\<forall>p. map_option fixed_part (task_structs s' p) = map_option fixed_part (task_structs s p)"
      using t by (simp add: sel(1) fixed_part_def)
    show "\<forall>p t. task_structs s' p = Some t \<longrightarrow> (ts_state t = THREAD_ZOMBIE \<longleftrightarrow> p \<in> set zs)"
      using inv t by (simp add: sel(1) threads_inv_def)
  qed (use inv in \<open>simp_all add: threads_inv_def kernel_inv_def root_vnode_def sel\<close>)
qed

text \<open>\<open>schedule\<close> up to \<open>switch_to\<close>, from a running thread and from one that has just exited.\<close>

lemma next_head_keeps:
  assumes ok: "threads_ok s xs zs" and ne: "xs \<noteq> []"
  obtains ys s1 where "next_head (snd (disable_and_save_sstatus s)) = Some s1" "threads_inv s1 ys zs"
    "set ys = set xs" "ys \<noteq> []" "get_current s1 = get_current s" "run_queue s1 = hd ys"
    "get_current s \<notin> set zs \<Longrightarrow> xs = [get_current s] \<or> get_current s1 \<noteq> hd ys"
proof -
  define st where "st = snd (disable_and_save_sstatus s)"
  have sel: "st = s\<lparr>sstatus := sstatus s AND NOT SIE\<rparr>" by (simp add: st_def disable_and_save_sstatus_def)
  have inv: "threads_inv s xs zs" and cur: "get_current s \<in> insert (hd xs) (set zs)"
    using ok by (simp_all add: threads_ok_def)
  have inv': "threads_inv st xs zs" using inv by (simp add: sel threads_inv_def kernel_inv_def root_vnode_def run_ring_def)
  note r = threads_inv_ring [OF inv]
  have hd: "run_queue s = hd xs" "hd xs \<in> set xs" using r(1) ne by (cases xs; simp add: ring_def)+
  show ?thesis
  proof (cases "get_current s \<in> set zs")
    case True
    then have "get_current s \<noteq> run_queue s" using hd r(3) by auto
    then have "next_head st = Some st" by (simp add: next_head_def sel get_current_def)
    then show ?thesis using that [of st xs] inv' ne hd True by (simp add: st_def [symmetric]) (simp add: sel get_current_def)
  next
    case False
    then have c: "get_current s = hd xs" using cur by simp
    obtain t where t: "task_structs s (hd xs) = Some t" using r(1) hd(2) by (auto simp: ring_def)
    have nh: "next_head st = Some (st\<lparr>run_queue := ts_next t\<rparr>)"
      using c hd(1) t by (simp add: next_head_def sel get_current_def)
    show ?thesis
    proof (cases "tl xs")
      case Nil
      then have xs: "xs = [hd xs]" using ne by (cases xs) simp_all
      have "ring (task_structs s) (hd xs) [hd xs]" using r(1) hd(1) xs by simp
      then have "ts_next t = hd xs" using t by (simp add: ring_def dlist_def task_links_def)
      then have "next_head st = Some st" using nh hd(1) by (simp add: sel)
      then show ?thesis using that [of st xs] inv' ne hd c xs by (simp add: st_def [symmetric]) (simp add: sel get_current_def)
    next
      case (Cons n ys)
      then have xs: "xs = hd xs # n # ys" using ne by (cases xs) simp_all
      have rr: "ring (task_structs s) (run_queue s) (hd xs # n # ys)" using r(1) xs by simp
      then have n: "ts_next t = n" using t by (auto simp: ring_def dlist_def task_links_def)
      have "ring (task_structs s) n (n # ys @ [hd xs])" by (rule ring_rotate [OF rr])
      then have "threads_inv (st\<lparr>run_queue := n\<rparr>) (n # ys @ [hd xs]) zs"
        using inv by (subst (asm) (1 2) xs) (auto simp: sel threads_inv_def kernel_inv_def root_vnode_def run_ring_def)
      moreover have "set (n # ys @ [hd xs]) = set xs" by (subst (2) xs) auto
      moreover have "hd xs \<noteq> n" using r(2) by (subst (asm) xs) auto
      ultimately show ?thesis using that [of "st\<lparr>run_queue := n\<rparr>" "n # ys @ [hd xs]"] nh n c
        by (simp add: st_def [symmetric]) (simp add: sel get_current_def)
    qed
  qed
qed

text \<open>The first half of \<open>thread_exit\<close>.\<close>

lemma retire_keeps:
  assumes inv: "threads_inv s xs zs" and cur: "get_current s = hd xs" and two: "tl xs \<noteq> []"
  shows "\<exists>s'. retire s = Some s' \<and> threads_inv s' (tl xs) (hd xs # zs) \<and> get_current s' = hd xs"
proof -
  obtain c n ys where xs: "xs = c # n # ys" using two by (cases xs; cases "tl xs") auto
  note r = threads_inv_ring [OF inv]
  have rr: "run_ring s (c # n # ys)" using inv by (simp add: threads_inv_def xs)
  have c: "get_current s = c" "c \<noteq> 0" "c \<notin> set zs" "c \<notin> set (n # ys)"
    using cur r xs by (auto simp: ring_def)
  obtain tc where tc: "task_structs s c = Some tc" using r(1) by (auto simp: ring_def xs)
  define st where "st = put_text ''Thread exiting!\<newline>'' s"
  have st: "heap st = heap s" "kernel_pgd st = kernel_pgd s" "mounts st = mounts s" "rootfs st = rootfs s"
    "tp st = tp s" by (simp_all add: st_def put_text_def put_bytes_def)
  obtain H tc' where H: "retire s = Some (st\<lparr>task_structs := H, run_queue := n, zombie_queue := c\<rparr>)"
    "ring H n (n # ys)" "H c = Some tc'" "ts_next tc' = zombie_queue s"
    "unlinked tc' = unlinked (tc\<lparr>ts_state := THREAD_ZOMBIE\<rparr>)"
    "\<forall>p. p \<noteq> c \<longrightarrow> map_option unlinked (H p) = map_option unlinked (task_structs s p)"
    "links_kept (set (c # n # ys)) (task_structs s) H"
    using retire_ok [OF rr c(1) tc] unfolding st_def by blast
  define s' where "s' = st\<lparr>task_structs := H, run_queue := n, zombie_queue := c\<rparr>"
  have sel: "task_structs s' = H" "run_queue s' = n" "zombie_queue s' = c" by (simp_all add: s'_def)
  have z: "set zs \<inter> set (c # n # ys) = {}" using r(3) by (auto simp: xs)
  have "threads_inv s' (n # ys) (c # zs)"
  proof (rule threads_invI [OF inv])
    show "kernel_inv s'" "thread_blocks (task_structs s) \<subseteq> allotted s'" "root_vnode s' = root_vnode s"
      "kernel_pgd s' = kernel_pgd s"
      using inv by (simp_all add: threads_inv_def kernel_inv_def root_vnode_def s'_def st)
    show "run_ring s' (n # ys)" using H(2) by (simp add: run_ring_def sel)
    have "zombie_list H (zombie_queue s) zs"
      using zombie_list_kept [OF H(7) z] inv by (simp add: threads_inv_def)
    moreover have "lnext (task_links H) c = zombie_queue s" using H(3,4) by (simp add: task_links_def)
    ultimately show "zombie_list (task_structs s') (zombie_queue s') (c # zs)" using c(2) by (simp add: sel)
    show "distinct ((n # ys) @ c # zs)" using inv by (auto simp: threads_inv_def xs)
    show "set ((n # ys) @ c # zs) = set (xs @ zs)" by (auto simp: xs)
    show "\<forall>p. map_option fixed_part (task_structs s' p) = map_option fixed_part (task_structs s p)"
    proof
      fix p show "map_option fixed_part (task_structs s' p) = map_option fixed_part (task_structs s p)"
        using H(3,6) tc unlinked_fields [OF H(5)] fixed_unlinked [of "H p" "task_structs s p"]
        by (cases "p = c") (simp_all add: sel fixed_part_def)
    qed
    show "\<forall>p t. task_structs s' p = Some t \<longrightarrow> (ts_state t = THREAD_ZOMBIE \<longleftrightarrow> p \<in> set (c # zs))"
    proof (intro allI impI)
      fix p t assume t: "task_structs s' p = Some t"
      show "ts_state t = THREAD_ZOMBIE \<longleftrightarrow> p \<in> set (c # zs)"
      proof (cases "p = c")
        case True
        then show ?thesis using t H(3) unlinked_fields(3) [OF H(5)] by (simp add: sel)
      next
        case False
        then have "map_option unlinked (task_structs s p) = Some (unlinked t)" using H(6) t sel(1) by (metis option.map(2))
        then obtain t0 where t0: "task_structs s p = Some t0" "unlinked t0 = unlinked t" by blast
        then show ?thesis using threads_inv_thread(1) [OF inv t0(1)] False unlinked_fields(3) [OF t0(2)] by simp
      qed
    qed
  qed
  then show ?thesis using H(1) c(1) by (intro exI [of _ s']) (simp add: xs s'_def get_current_def st)
qed

subsection \<open>Creation\<close>

lemma enqueue_keeps:
  assumes inv: "threads_inv s xs zs" and t: "ts_fds t = replicate MAX_FD 0" "ts_pgd t = kernel_pgd s"
      "ts_state t = THREAD_RUNNING"
    and p: "p \<noteq> 0" "p \<notin> thread_blocks (task_structs s)" "ts_stack t \<notin> insert p (thread_blocks (task_structs s))"
    and s': "task_structs s' = (task_structs s)(p \<mapsto> t)" "run_queue s' = run_queue s" "zombie_queue s' = zombie_queue s"
      "kernel_pgd s' = kernel_pgd s" "root_vnode s' = root_vnode s"
    and k: "kernel_inv s'" "insert p (insert (ts_stack t) (thread_blocks (task_structs s))) \<subseteq> allotted s'"
  shows "\<exists>s''. enqueue Run_queue p s' = Some s'' \<and> get_current s'' = get_current s' \<and> threads_inv s'' (xs @ [p]) zs"
proof -
  have np: "p \<notin> set (xs @ zs)" using p(2) inv by (auto simp: threads_inv_def thread_blocks_def)
  have "ring (task_structs s') (run_queue s') xs"
    using np threads_inv_ring(1) [OF inv] unfolding s'(1,2) by (auto intro: ring_cong)
  then have "run_ring s' xs" by (simp add: run_ring_def)
  moreover have "p \<in> dom (task_structs s')" "p \<notin> set xs" using np by (simp_all add: s'(1))
  ultimately obtain H where H: "enqueue Run_queue p s' = Some (s'\<lparr>task_structs := H, run_queue := hd (xs @ [p])\<rparr>)"
    "ring H (hd (xs @ [p])) (xs @ [p])" "same_tasks (task_structs s') H" "links_kept (insert p (set xs)) (task_structs s') H"
    using enqueue_ok p(1) by blast
  define s'' where "s'' = s'\<lparr>task_structs := H, run_queue := hd (xs @ [p])\<rparr>"
  have fx: "map_option fixed_part (H q) = map_option fixed_part (task_structs s' q)" for q
    using H(3) by (intro fixed_unlinked) (simp add: same_tasks_def)
  have "map_option ts_stack (H q) = map_option ts_stack (task_structs s' q)" for q
    using fx [of q] by (cases "H q"; cases "task_structs s' q") (simp_all add: fixed_part_def)
  then have "\<forall>q. map_option ts_stack (H q) = map_option ts_stack (task_structs s' q)" by blast
  note st = stacks_cong [OF this]
  have ap: "apart (task_structs s)" using inv by (simp add: threads_inv_def)
  note new = blocks_new [OF ap p(2,3)]
  have l: "links_kept {p} (task_structs s) (task_structs s')" by (auto simp: links_kept_def s'(1) task_links_def)
  have "zombie_list H (zombie_queue s) zs"
    using zombie_list_kept [OF H(4), of zs] zombie_list_kept [OF l, of zs] np threads_inv_ring(3) [OF inv] inv
    by (auto simp: threads_inv_def)
  moreover have "(ts_state u = THREAD_ZOMBIE \<longleftrightarrow> q \<in> set zs) \<and> ts_fds u = replicate MAX_FD 0 \<and> ts_pgd u = kernel_pgd s"
    if u: "H q = Some u" for q u
  proof -
    obtain w where w: "task_structs s' q = Some w" "ts_state w = ts_state u" "unlinked w = unlinked u"
      by (rule same_tasks_state [OF H(3) u])
    show ?thesis
    proof (cases "q = p")
      case True
      then show ?thesis using w t np unlinked_fields [OF w(3)] by (simp add: s'(1))
    next
      case False
      then have "task_structs s q = Some w" using w(1) by (simp add: s'(1))
      then show ?thesis using threads_inv_thread [OF inv, of q w] unlinked_fields [OF w(3)] w(2) by simp
    qed
  qed
  moreover have "dom (task_structs s) = set xs \<union> set zs" using inv by (simp add: threads_inv_def)
  then have "dom H = set ((xs @ [p]) @ zs)" by (simp add: st(3) s'(1) del: fun_upd_apply)
  moreover have "distinct ((xs @ [p]) @ zs)" using inv np by (auto simp: threads_inv_def)
  moreover have "thread_blocks H \<subseteq> allotted s'" "apart H" using new k(2) by (simp_all add: st s'(1) del: fun_upd_apply)
  moreover have "root_vnode s \<noteq> None" using inv by (simp add: threads_inv_def)
  moreover have sel: "task_structs s'' = H" "run_queue s'' = hd (xs @ [p])" "zombie_queue s'' = zombie_queue s" "heap s'' = heap s'"
    "kernel_pgd s'' = kernel_pgd s" "root_vnode s'' = root_vnode s"
    using s' by (simp_all add: s''_def root_vnode_def)
  ultimately have "threads_inv s'' (xs @ [p]) zs"
    using H(2) k(1) unfolding threads_inv_def run_ring_def kernel_inv_def sel by blast
  then show ?thesis using H(1) by (intro exI [of _ s'']) (simp add: s''_def get_current_def)
qed

lemma create_keeps:
  assumes inv: "threads_inv s xs zs"
  shows "\<exists>p s'. thread_create f s = Some (p, s') \<and> get_current s' = get_current s \<and>
    (p = 0 \<and> threads_inv s' xs zs \<or> p \<noteq> 0 \<and> p \<notin> set (xs @ zs) \<and> threads_inv s' (xs @ [p]) zs)"
proof -
  have k: "kernel_inv s" and bl: "thread_blocks (task_structs s) \<subseteq> allotted s"
    using inv by (simp_all add: threads_inv_def)
  have sz: "unat sizeof_task_struct \<le> 2 ^ 63" "unat STACK_SIZE \<le> 2 ^ 63"
    by (simp_all add: sizeof_task_struct_def STACK_SIZE_def)
  from k sz(1) show ?thesis
  proof (cases rule: allocate_cases)
    case (fail h)
    then have "threads_inv (s\<lparr>heap := h\<rparr>) xs zs"
      using bl by (intro threads_inv_same [OF inv]) (simp_all add: kernel_inv_def root_vnode_def)
    then show ?thesis using fail(1) by (simp add: thread_create_def new_task_def get_current_def)
  next
    case (new p h m)
    define t0 where "t0 = zero_task\<lparr>ts_pid := nr_threads s\<rparr>"
    define s1 where "s1 = s\<lparr>heap := h, task_structs := (task_structs s)(p \<mapsto> t0), nr_threads := nr_threads s + 1\<rparr>"
    have nt: "new_task s = Some (p, s1)" using new by (simp add: new_task_def s1_def t0_def)
    have np: "p \<notin> thread_blocks (task_structs s)" using new(5) bl by blast
    then have "p \<notin> dom (task_structs s)" by (simp add: thread_blocks_def)
    then have pn: "task_structs s p = None" by blast
    have k1: "kernel_inv s1" using new(2) by (simp add: kernel_inv_def s1_def)
    from k1 sz(2) show ?thesis
    proof (cases rule: allocate_cases)
      case fail2: (fail h2)
      define s3 where "s3 = s1\<lparr>heap := h2, task_structs := (task_structs s1)(p \<mapsto> t0\<lparr>ts_stack := 0\<rparr>)\<rparr>"
      have "kernel_inv s3" "(p, m) \<in> live (heap s3)" using fail2 new(4) by (simp_all add: kernel_inv_def s3_def s1_def)
      then obtain h3 where h3: "kfree p s3 = Some (s3\<lparr>heap := h3\<rparr>)" "kernel_inv (s3\<lparr>heap := h3\<rparr>)"
        "live h3 = live (heap s3) - {(p, m)}" using kfree_live by blast
      define s4 where "s4 = s3\<lparr>heap := h3, task_structs := task_structs s\<rparr>"
      have "thread_create f s = Some (0, s4)"
        using nt fail2(1) new(3) h3(1) pn
        by (simp add: thread_create_def update_task_def free_task_def s4_def s3_def s1_def fun_upd_idem)
      moreover have "(p, m) \<notin> live (heap s)" using new(5) by (metis fst_conv image_eqI)
      then have "live h3 = live (heap s)" using h3(3) fail2(3) new(4) by (simp add: s3_def s1_def)
      then have "threads_inv s4 xs zs"
        using h3(2) bl by (intro threads_inv_same [OF inv]) (simp_all add: s4_def s3_def s1_def kernel_inv_def root_vnode_def)
      ultimately show ?thesis by (simp add: s4_def s3_def s1_def get_current_def)
    next
      case new2: (new q h2 m2)
      obtain mo root where root: "mounts s (rootfs s) = Some mo" "m_root mo = root"
        using inv by (auto simp: threads_inv_def root_vnode_def)
      define t where "t = t0\<lparr>ts_stack := q, ts_pgd := kernel_pgd s, ts_cwd := root,
        ts_thread := (ts_thread t0)\<lparr>th_ra := f, th_sp := q + STACK_SIZE, th_sstatus := sstatus s\<rparr>\<rparr>"
      define s4 where "s4 = s1\<lparr>heap := h2, task_structs := (task_structs s)(p \<mapsto> t)\<rparr>"
      have q: "q \<notin> insert p (allotted s)" using new2(5) new(4) by (simp add: s1_def)
      have "\<exists>s''. enqueue Run_queue p s4 = Some s'' \<and> get_current s'' = get_current s4 \<and> threads_inv s'' (xs @ [p]) zs"
      proof (rule enqueue_keeps [OF inv _ _ _ new(3) np])
        show "ts_fds t = replicate MAX_FD 0" "ts_pgd t = kernel_pgd s" "ts_state t = THREAD_RUNNING"
          by (simp_all add: t_def t0_def zero_task_def)
        show "ts_stack t \<notin> insert p (thread_blocks (task_structs s))" using q bl by (auto simp: t_def)
        show "kernel_inv s4" using new2(2) by (simp add: kernel_inv_def s4_def)
        show "insert p (insert (ts_stack t) (thread_blocks (task_structs s))) \<subseteq> allotted s4"
          using bl new(4) new2(4) by (auto simp: t_def s4_def s1_def)
      qed (simp_all add: s4_def s1_def root_vnode_def)
      then obtain s'' where s'': "enqueue Run_queue p s4 = Some s''" "get_current s'' = get_current s4"
        "threads_inv s'' (xs @ [p]) zs" by blast
      have "thread_create f s = Some (p, s'')"
        using nt new2(1,3) new(3) s''(1) root
        by (simp add: thread_create_def update_task_def s4_def s1_def t_def root_vnode_def)
      moreover have "p \<notin> set (xs @ zs)" using pn inv by (auto simp: threads_inv_def)
      ultimately show ?thesis using s''(2,3) new(3) by (simp add: s4_def s1_def get_current_def)
    qed
  qed
qed

subsection \<open>Reaping\<close>

text \<open>The parts of the state that reaping leaves alone.\<close>

definition others :: "kernel \<Rightarrow> u64 \<times> u64 \<times> u64 \<times> u64 \<times> (u64 \<rightharpoonup> mount) \<times> u64" where
  "others s = (run_queue s, zombie_queue s, tp s, kernel_pgd s, mounts s, rootfs s)"

lemma drop_two:
  fixes L :: "('a \<times> 'b) set"
  assumes "\<And>j. (a, j) \<in> L \<Longrightarrow> j = m" and "\<And>j. (b, j) \<in> L \<Longrightarrow> j = n"
  shows "L - {(a, m)} - {(b, n)} = {r \<in> L. fst r \<notin> {b, a}}"
proof (rule set_eqI)
  fix r show "r \<in> L - {(a, m)} - {(b, n)} \<longleftrightarrow> r \<in> {r \<in> L. fst r \<notin> {b, a}}"
    using assms [of "snd r"] by (cases r) (auto dest: assms)
qed

lemma reap_ok:
  assumes k: "kernel_inv s" and ap: "apart (task_structs s)" and bl: "thread_blocks (task_structs s) \<subseteq> allotted s"
    and t: "task_structs s z = Some t" "ts_fds t = replicate MAX_FD 0" "ts_pgd t = kernel_pgd s"
  shows "\<exists>s'. reap z s = Some s' \<and> kernel_inv s' \<and> task_structs s' = (task_structs s)(z := None) \<and>
    live (heap s') = {r \<in> live (heap s). fst r \<notin> {z, ts_stack t}} \<and> others s' = others s"
proof -
  have fds: "close_fd z i s = Some s" if "i < MAX_FD" for i
    using t(1,2) that by (simp add: close_fd_def)
  have "\<exists>s1. for_each (close_fd z) [0..<MAX_FD] s = Some s1 \<and> s1 = s"
    by (rule for_each_invariant [where I = "\<lambda>_ s1. s1 = s"]) (use fds in simp_all)
  then have fe: "for_each (close_fd z) [0..<MAX_FD] s = Some s" by simp
  define s2 where "s2 = s\<lparr>task_structs := (task_structs s)(z \<mapsto> t\<lparr>ts_cwd := 0\<rparr>)\<rparr>"
  have k2: "kernel_inv s2" using k by (simp add: kernel_inv_def s2_def)
  obtain m n where mn: "(ts_stack t, m) \<in> live (heap s)" "(z, n) \<in> live (heap s)"
    using thread_blocksI [of "task_structs s" z t] t(1) bl by fastforce
  have ne: "ts_stack t \<noteq> z" by (rule blocks_drop(3) [OF ap t(1)])
  obtain h3 where h3: "kfree (ts_stack t) s2 = Some (s2\<lparr>heap := h3\<rparr>)" "kernel_inv (s2\<lparr>heap := h3\<rparr>)"
    "live h3 = live (heap s) - {(ts_stack t, m)}"
    using kfree_live [OF k2, of "ts_stack t" m] mn(1) by (auto simp: s2_def)
  define s3 where "s3 = s2\<lparr>heap := h3,
    tframes := (\<lambda>a. if a - ts_stack t < STACK_SIZE then None else tframes s2 a)\<rparr>"
  have fs: "free_stack (ts_stack t) s2 = Some s3" using h3(1) by (simp add: free_stack_def s3_def cong: if_cong)
  have k3: "kernel_inv s3" "(z, n) \<in> live (heap s3)" using h3 mn(2) ne by (simp_all add: s3_def kernel_inv_def)
  obtain h4 where h4: "kfree z s3 = Some (s3\<lparr>heap := h4\<rparr>)" "kernel_inv (s3\<lparr>heap := h4\<rparr>)"
    "live h4 = live (heap s3) - {(z, n)}" using kfree_live [OF k3] by blast
  define s4 where "s4 = s3\<lparr>heap := h4, task_structs := (task_structs s)(z := None)\<rparr>"
  have rp: "reap z s = Some s4"
    unfolding reap_def using fe t(1,3) fs h4(1)
    by (simp add: update_task_def s2_def [symmetric]) (simp add: s2_def s3_def s4_def free_task_def t(3))
  have u: "j = m" if "(ts_stack t, j) \<in> live (heap s)" for j using live_unique that mn(1) k unfolding kernel_inv_def by blast
  have v: "j = n" if "(z, j) \<in> live (heap s)" for j using live_unique that mn(2) k unfolding kernel_inv_def by blast
  have "live h4 = live (heap s) - {(ts_stack t, m)} - {(z, n)}" using h4(3) h3(3) by (simp add: s3_def)
  moreover have "\<dots> = {r \<in> live (heap s). fst r \<notin> {z, ts_stack t}}" using u v by (rule drop_two)
  ultimately have "live h4 = {r \<in> live (heap s). fst r \<notin> {z, ts_stack t}}" by simp
  moreover have "kernel_inv s4" using h4(2) by (simp add: s4_def kernel_inv_def)
  moreover have "others s4 = others s" by (simp add: others_def s4_def s3_def s2_def)
  ultimately show ?thesis using rp by (intro exI [of _ s4]) (simp add: s4_def)
qed

lemma reap_loop_ok:
  assumes "zombie_list (task_structs s) q zs" and "distinct zs" and "set zs \<subseteq> dom (task_structs s)"
    and "kernel_inv s" and "apart (task_structs s)" and "thread_blocks (task_structs s) \<subseteq> allotted s"
    and "\<forall>p t. task_structs s p = Some t \<longrightarrow> ts_fds t = replicate MAX_FD 0 \<and> ts_pgd t = kernel_pgd s"
  shows "\<exists>s'. reap_loop q s = Some s' \<and> kernel_inv s' \<and> task_structs s' = (task_structs s) |` (- set zs) \<and>
    live (heap s') = {r \<in> live (heap s). fst r \<notin> thread_blocks ((task_structs s) |` set zs)} \<and>
    apart (task_structs s') \<and> thread_blocks (task_structs s') \<subseteq> allotted s' \<and> others s' = others s"
  using assms
proof (induction zs arbitrary: q s)
  case Nil
  have "thread_blocks ((task_structs s) |` {}) = {}" by (simp add: thread_blocks_def stacks_def ran_def)
  then show ?case using Nil by (subst reap_loop.simps) (simp add: restrict_map_def)
next
  case (Cons z zs)
  let ?H = "task_structs s"
  have q: "q = z" "z \<noteq> 0" "zombie_list ?H (lnext (task_links ?H) z) zs" using Cons.prems(1) by simp_all
  obtain t where t: "?H z = Some t" "ts_fds t = replicate MAX_FD 0" "ts_pgd t = kernel_pgd s"
    using Cons.prems(3,7) by auto
  then have nx: "lnext (task_links ?H) z = ts_next t" by (simp add: task_links_def)
  obtain s1 where s1: "reap z s = Some s1" "kernel_inv s1" "task_structs s1 = ?H(z := None)"
    "live (heap s1) = {r \<in> live (heap s). fst r \<notin> {z, ts_stack t}}" "others s1 = others s"
    using reap_ok [OF Cons.prems(4-6) t] by blast
  note dr = blocks_drop [OF Cons.prems(5) t(1)]
  have "links_kept {z} ?H (task_structs s1)" by (simp add: links_kept_def s1(3) task_links_def)
  then have z1: "zombie_list (task_structs s1) (ts_next t) zs"
    using zombie_list_kept [of "{z}" ?H "task_structs s1" zs "ts_next t"] Cons.prems(2) q(3) nx by simp
  have "\<exists>s'. reap_loop (ts_next t) s1 = Some s' \<and> kernel_inv s' \<and> task_structs s' = (task_structs s1) |` (- set zs) \<and>
    live (heap s') = {r \<in> live (heap s1). fst r \<notin> thread_blocks ((task_structs s1) |` set zs)} \<and>
    apart (task_structs s') \<and> thread_blocks (task_structs s') \<subseteq> allotted s' \<and> others s' = others s1"
  proof (rule Cons.IH [OF z1 _ _ s1(2)])
    show "distinct zs" using Cons.prems(2) by simp
    show "set zs \<subseteq> dom (task_structs s1)" using Cons.prems(2,3) by (auto simp: s1(3))
    show "apart (task_structs s1)" using dr(1) by (simp add: s1(3))
    show "thread_blocks (task_structs s1) \<subseteq> allotted s1"
      using Cons.prems(6) unfolding s1(3,4) dr(2) by force
    show "\<forall>p t. task_structs s1 p = Some t \<longrightarrow> ts_fds t = replicate MAX_FD 0 \<and> ts_pgd t = kernel_pgd s1"
      using Cons.prems(7) s1(5) by (auto simp: s1(3) others_def)
  qed
  then obtain s' where s': "reap_loop (ts_next t) s1 = Some s'" "kernel_inv s'" "task_structs s' = (task_structs s1) |` (- set zs)"
    "live (heap s') = {r \<in> live (heap s1). fst r \<notin> thread_blocks ((task_structs s1) |` set zs)}"
    "apart (task_structs s')" "thread_blocks (task_structs s') \<subseteq> allotted s'" "others s' = others s1" by blast
  have "task_structs s' = ?H |` (- set (z # zs))" by (auto simp: s'(3) s1(3) restrict_map_def fun_eq_iff)
  moreover have "(task_structs s1) |` set zs = ?H |` set zs"
    using Cons.prems(2) by (auto simp: s1(3) restrict_map_def fun_eq_iff)
  moreover have "thread_blocks (?H |` set (z # zs)) = {z, ts_stack t} \<union> thread_blocks (?H |` set zs)"
  proof -
    have "?H |` set (z # zs) = (?H |` set zs)(z \<mapsto> t)" using t(1) by (auto simp: restrict_map_def fun_eq_iff)
    then have "stacks (?H |` set (z # zs)) = (stacks (?H |` set zs))(z \<mapsto> ts_stack t)"
      by (simp add: stacks_def fun_eq_iff)
    moreover have "stacks (?H |` set zs) z = None" using Cons.prems(2) by (simp add: stacks_def)
    moreover have "dom (?H |` set (z # zs)) = insert z (dom (?H |` set zs))" using t(1) by (auto simp: restrict_map_def split: if_splits)
    ultimately show ?thesis by (auto simp: thread_blocks_def)
  qed
  moreover have "reap_loop q s = Some s'" using q(1,2) t(1) s1(1) s'(1) by (subst reap_loop.simps) simp
  ultimately show ?case using s'(2,4-7) s1(4,5) by (intro exI [of _ s']) auto
qed

text \<open>\<open>kill_zombies\<close> removes every exited thread and frees exactly its memory.\<close>

lemma kill_zombies_ok:
  assumes inv: "threads_inv s xs zs"
  shows "\<exists>s'. kill_zombies s = Some s' \<and> threads_inv s' xs [] \<and> get_current s' = get_current s \<and>
    task_structs s' = (task_structs s) |` set xs \<and>
    live (heap s') = {r \<in> live (heap s). fst r \<notin> thread_blocks ((task_structs s) |` set zs)}"
proof -
  let ?H = "task_structs s"
  define b where "b = (if zombie_queue s \<noteq> 0 then put_text ''Cleaning zombie!\<newline>'' s else s)"
  have b: "sstatus b = sstatus s" "zombie_queue b = zombie_queue s" by (simp_all add: b_def put_text_def put_bytes_def)
  define s0 where "s0 = b\<lparr>sstatus := sstatus s AND NOT SIE, zombie_queue := 0\<rparr>"
  have sel: "task_structs s0 = ?H" "heap s0 = heap s" "run_queue s0 = run_queue s" "tp s0 = tp s"
    "kernel_pgd s0 = kernel_pgd s" "mounts s0 = mounts s" "rootfs s0 = rootfs s" "zombie_queue s0 = 0"
    by (simp_all add: s0_def b_def put_text_def put_bytes_def)
  have d: "dom ?H = set xs \<union> set zs" "distinct xs" "distinct zs" "set xs \<inter> set zs = {}"
    using inv by (simp_all add: threads_inv_def)
  have "\<exists>s'. reap_loop (zombie_queue s) s0 = Some s' \<and> kernel_inv s' \<and> task_structs s' = (task_structs s0) |` (- set zs) \<and>
    live (heap s') = {r \<in> live (heap s0). fst r \<notin> thread_blocks ((task_structs s0) |` set zs)} \<and>
    apart (task_structs s') \<and> thread_blocks (task_structs s') \<subseteq> allotted s' \<and> others s' = others s0"
    using inv d by (intro reap_loop_ok) (auto simp: threads_inv_def kernel_inv_def sel)
  then obtain s1 where s1: "reap_loop (zombie_queue s) s0 = Some s1" "kernel_inv s1" "task_structs s1 = ?H |` (- set zs)"
    "live (heap s1) = {r \<in> live (heap s). fst r \<notin> thread_blocks (?H |` set zs)}"
    "apart (task_structs s1)" "thread_blocks (task_structs s1) \<subseteq> allotted s1" "others s1 = others s0" unfolding sel by blast
  have H1: "task_structs s1 = ?H |` set xs"
    using d unfolding s1(3) by (auto simp: restrict_map_def fun_eq_iff domIff)
  define s' where "s' = restore_sstatus (sstatus s) s1"
  have sel': "task_structs s' = ?H |` set xs" "heap s' = heap s1" "run_queue s' = run_queue s" "tp s' = tp s"
    "kernel_pgd s' = kernel_pgd s" "mounts s' = mounts s" "rootfs s' = rootfs s" "zombie_queue s' = 0"
    using s1(7) H1 by (simp_all add: s'_def restore_sstatus_def others_def sel)
  have e: "kill_zombies s = Some s'"
    using s1(1) unfolding kill_zombies_def b_def [symmetric]
    by (simp add: disable_and_save_sstatus_def b s0_def s'_def)
  have "ring (task_structs s') (run_queue s) xs"
    using threads_inv_ring(1) [OF inv] by (rule ring_cong) (simp add: sel')
  moreover have "dom (?H |` set xs) = set xs" using d(1) by auto
  moreover have "kernel_inv s'" "thread_blocks (task_structs s') \<subseteq> allotted s'" "apart (task_structs s')"
    using s1(2,5,6) by (simp_all add: kernel_inv_def sel' H1)
  moreover have "(ts_state t = THREAD_ZOMBIE \<longleftrightarrow> p \<in> set ([] :: u64 list)) \<and> ts_fds t = replicate MAX_FD 0 \<and> ts_pgd t = kernel_pgd s"
    if "task_structs s' p = Some t" for p t
  proof -
    have p: "p \<in> set xs" "?H p = Some t" using that by (auto simp: sel' restrict_map_def split: if_splits)
    then show ?thesis using threads_inv_thread [OF inv p(2)] d(4) by auto
  qed
  moreover have "root_vnode s' \<noteq> None" using inv by (simp add: root_vnode_def sel' threads_inv_def)
  ultimately have "threads_inv s' xs []"
    unfolding threads_inv_def run_ring_def using d(2) by (simp add: sel')
  then show ?thesis using e s1(4) by (intro exI [of _ s']) (simp add: sel' get_current_def)
qed

subsection \<open>The state machine\<close>

text \<open>A thread that has called \<open>thread_exit\<close> does nothing but give the hart away.\<close>

definition active :: "kernel \<Rightarrow> bool" where
  "active s \<longleftrightarrow> (case task_structs s (get_current s) of None \<Rightarrow> False | Some t \<Rightarrow> ts_state t \<noteq> THREAD_ZOMBIE)"

text \<open>One step of the running thread; \<open>idler\<close> is the idle thread, the only one that reaps and one that
  never exits.  \<open>schedule\<close> switches or, with a single thread, stays; \<open>compute\<close> is everything that touches
  neither the threads nor the allocator.\<close>

inductive thread_step :: "u64 \<Rightarrow> kernel \<Rightarrow> kernel \<Rightarrow> bool" for idler where
  create: "active s \<Longrightarrow> thread_create fn s = Some (p, s') \<Longrightarrow> thread_step idler s s'"
| exit: "active s \<Longrightarrow> get_current s \<noteq> idler \<Longrightarrow> retire s = Some s' \<Longrightarrow> thread_step idler s s'"
| switch: "next_head (snd (disable_and_save_sstatus s)) = Some st \<Longrightarrow> get_current st \<noteq> run_queue st \<Longrightarrow>
    switch_away st = Some s' \<Longrightarrow> thread_step idler s s'"
| stay: "next_head (snd (disable_and_save_sstatus s)) = Some s' \<Longrightarrow> get_current s' = run_queue s' \<Longrightarrow>
    thread_step idler s s'"
| reap: "get_current s = idler \<Longrightarrow> kill_zombies s = Some s' \<Longrightarrow> thread_step idler s s'"
| alloc: "unat sz \<le> 2 ^ 63 \<Longrightarrow> allocate sz s = Some (p, s') \<Longrightarrow> thread_step idler s s'"
| release: "(p, m) \<in> live (heap s) \<Longrightarrow> p \<notin> thread_blocks (task_structs s) \<Longrightarrow> kfree p s = Some s' \<Longrightarrow>
    thread_step idler s s'"
| compute: "heap s' = heap s \<Longrightarrow> task_structs s' = task_structs s \<Longrightarrow> run_queue s' = run_queue s \<Longrightarrow>
    zombie_queue s' = zombie_queue s \<Longrightarrow> kernel_pgd s' = kernel_pgd s \<Longrightarrow> root_vnode s' = root_vnode s \<Longrightarrow>
    tp s' = tp s \<Longrightarrow> thread_step idler s s'"

definition threads_safe :: "u64 \<Rightarrow> kernel \<Rightarrow> bool" where
  "threads_safe idler s \<longleftrightarrow> (\<exists>xs zs. threads_ok s xs zs \<and> idler \<in> set xs)"

lemma threads_safeI: "threads_inv s xs zs \<Longrightarrow> get_current s \<in> insert (hd xs) (set zs) \<Longrightarrow> idler \<in> set xs \<Longrightarrow> threads_safe idler s"
  by (auto simp: threads_safe_def threads_ok_def)

lemma active_head:
  assumes "threads_ok s xs zs" and "xs \<noteq> []"
  shows "active s \<longleftrightarrow> get_current s = hd xs" "get_current s \<in> set xs \<Longrightarrow> get_current s = hd xs"
proof -
  have inv: "threads_inv s xs zs" and c: "get_current s \<in> insert (hd xs) (set zs)"
    using assms(1) by (simp_all add: threads_ok_def)
  have d: "dom (task_structs s) = set xs \<union> set zs" "set xs \<inter> set zs = {}" using inv by (simp_all add: threads_inv_def)
  have h: "hd xs \<in> set xs" using assms(2) by simp
  then have "get_current s \<in> dom (task_structs s)" using c d(1) by auto
  then obtain t where t: "task_structs s (get_current s) = Some t" by blast
  then have "active s \<longleftrightarrow> get_current s \<notin> set zs" using threads_inv_thread(1) [OF inv t] by (simp add: active_def)
  then show "active s \<longleftrightarrow> get_current s = hd xs" using c h d(2) by auto
  show "get_current s \<in> set xs \<Longrightarrow> get_current s = hd xs" using c d(2) by auto
qed

lemma thread_step_safe:
  assumes "thread_step idler s s'" and "threads_safe idler s"
  shows "threads_safe idler s'"
proof -
  obtain xs zs where ok: "threads_ok s xs zs" and id: "idler \<in> set xs" using assms(2) by (auto simp: threads_safe_def)
  have inv: "threads_inv s xs zs" and cur: "get_current s \<in> insert (hd xs) (set zs)"
    using ok by (simp_all add: threads_ok_def)
  have ne: "xs \<noteq> []" using id by auto
  have k: "kernel_inv s" and bl: "thread_blocks (task_structs s) \<subseteq> allotted s"
    using inv by (simp_all add: threads_inv_def)
  have keep: "threads_safe idler s'" if "kernel_inv s'" "thread_blocks (task_structs s) \<subseteq> allotted s'"
    "task_structs s' = task_structs s" "run_queue s' = run_queue s" "zombie_queue s' = zombie_queue s"
    "kernel_pgd s' = kernel_pgd s" "root_vnode s' = root_vnode s" "tp s' = tp s"
    using threads_inv_same [OF inv that(1-7)] cur id that(8) by (intro threads_safeI) (simp_all add: get_current_def)
  from assms(1) show ?thesis
  proof (cases rule: thread_step.cases)
    case (create fn p)
    have "get_current s' = get_current s" "threads_inv s' xs zs \<or> threads_inv s' (xs @ [p]) zs"
      using create_keeps [OF inv, of fn] create(2) by auto
    then show ?thesis using cur id ne threads_safeI [of s' xs zs] threads_safeI [of s' "xs @ [p]" zs] by auto
  next
    case exit
    then have c: "get_current s = hd xs" using active_head(1) [OF ok ne] by simp
    then have tl: "idler \<in> set (tl xs)" using id exit(2) by (cases xs) auto
    then have "tl xs \<noteq> []" by auto
    then obtain s1 where "retire s = Some s1" "threads_inv s1 (tl xs) (hd xs # zs)" "get_current s1 = hd xs"
      using retire_keeps [OF inv c] by blast
    then show ?thesis using exit(3) tl by (intro threads_safeI [of s' "tl xs" "hd xs # zs"]) simp_all
  next
    case (switch st)
    obtain ys where ys: "threads_inv st ys zs" "set ys = set xs" "run_queue st = hd ys"
      using next_head_keeps [OF ok ne] switch(1) by (metis option.inject)
    show ?thesis using switch_keeps [OF ys(1) switch(3)] ys(2,3) id by (intro threads_safeI [of s' ys zs]) simp_all
  next
    case stay
    obtain ys where ys: "threads_inv s' ys zs" "set ys = set xs" "run_queue s' = hd ys"
      using next_head_keeps [OF ok ne] stay(1) by (metis option.inject)
    show ?thesis using ys id stay(2) by (intro threads_safeI [of s' ys zs]) simp_all
  next
    case reap
    then have "get_current s = hd xs" using active_head(2) [OF ok ne] id by simp
    then show ?thesis using kill_zombies_ok [OF inv] reap(2) id by (auto intro!: threads_safeI [of s' xs "[]"])
  next
    case (alloc sz p)
    from k alloc(1) show ?thesis
    proof (cases rule: allocate_cases)
      case (fail h)
      then show ?thesis using alloc(2) bl by (intro keep) (auto simp: kernel_inv_def root_vnode_def)
    next
      case (new q h m)
      then show ?thesis using alloc(2) bl by (intro keep) (auto simp: kernel_inv_def root_vnode_def)
    qed
  next
    case (release p m)
    obtain h where h: "s' = s\<lparr>heap := h\<rparr>" "kernel_inv s'" "live h = live (heap s) - {(p, m)}"
      using kfree_live [OF k release(1)] release(3) by (metis option.inject)
    have "thread_blocks (task_structs s) \<subseteq> fst ` live h" using bl release(2) by (force simp: h(3))
    then show ?thesis using h(1,2) by (intro keep) (simp_all add: root_vnode_def)
  next
    case compute
    then show ?thesis using k bl by (intro keep) (simp_all add: kernel_inv_def)
  qed
qed

text \<open>Every operation is defined in a safe state: no null or dangling pointer is followed.\<close>

lemma threads_progress:
  assumes "threads_safe idler s"
  shows "thread_create fn s \<noteq> None" "kill_zombies s \<noteq> None" "schedule Some s \<noteq> None"
    "active s \<Longrightarrow> get_current s \<noteq> idler \<Longrightarrow> retire s \<noteq> None"
proof -
  obtain xs zs where ok: "threads_ok s xs zs" and id: "idler \<in> set xs" using assms by (auto simp: threads_safe_def)
  have inv: "threads_inv s xs zs" using ok by (simp add: threads_ok_def)
  have ne: "xs \<noteq> []" using id by auto
  show "thread_create fn s \<noteq> None" using create_keeps [OF inv, of fn] by auto
  show "kill_zombies s \<noteq> None" using kill_zombies_ok [OF inv] by auto
  show "retire s \<noteq> None" if "active s" "get_current s \<noteq> idler"
  proof -
    have c: "get_current s = hd xs" using active_head(1) [OF ok ne] that(1) by simp
    then have "tl xs \<noteq> []" using id that(2) by (cases xs) auto
    then show ?thesis using retire_keeps [OF inv c] by auto
  qed
  obtain ys s1 where s1: "next_head (snd (disable_and_save_sstatus s)) = Some s1" "threads_inv s1 ys zs"
    "ys \<noteq> []" "get_current s1 = get_current s" "run_queue s1 = hd ys" "set ys = set xs"
    using next_head_keeps [OF ok ne] by metis
  have d: "dom (task_structs s1) = set ys \<union> set zs" "dom (task_structs s) = set xs \<union> set zs"
    using s1(2) inv by (simp_all add: threads_inv_def)
  have c: "get_current s \<in> set xs \<union> set zs" using ok ne by (auto simp: threads_ok_def)
  have "0 \<notin> set xs" using threads_inv_ring(1) [OF inv] by (simp add: ring_def)
  moreover have "zombie_list (task_structs s) (zombie_queue s) zs" using inv by (simp add: threads_inv_def)
  then have "0 \<notin> set zs" by (rule zombie_list_nz)
  ultimately have nz: "get_current s \<noteq> 0" using c by auto
  have "hd ys \<in> dom (task_structs s1)" "get_current s1 \<in> dom (task_structs s1)" using s1 d c by auto
  then have "switch_away s1 \<noteq> None" using s1(5) by (auto simp: switch_away_def switch_to_def update_task_def)
  moreover have "run_queue s \<noteq> 0" using threads_inv_ring(1) [OF inv] ne by (cases xs) (auto simp: ring_def)
  ultimately show "schedule Some s \<noteq> None"
    using s1(1) nz by (auto simp: schedule_def disable_and_save_sstatus_def get_current_def)
qed

text \<open>\<open>schedule\<close> hands the hart to another thread when there is one.\<close>

lemma yields:
  assumes ok: "threads_ok s xs zs" and ne: "xs \<noteq> []"
  obtains s' ys where "thread_step idler s s'" "threads_ok s' ys zs" "set ys = set xs" "get_current s' = hd ys"
    "xs \<noteq> [get_current s] \<Longrightarrow> get_current s' \<noteq> get_current s"
proof -
  obtain ys s1 where s1: "next_head (snd (disable_and_save_sstatus s)) = Some s1" "threads_inv s1 ys zs"
    "set ys = set xs" "ys \<noteq> []" "get_current s1 = get_current s" "run_queue s1 = hd ys"
    "get_current s \<notin> set zs \<Longrightarrow> xs = [get_current s] \<or> get_current s1 \<noteq> hd ys"
    using next_head_keeps [OF ok ne] by metis
  have inv: "threads_inv s xs zs" using ok by (simp add: threads_ok_def)
  note dj = threads_inv_ring(3) [OF inv]
  have h: "hd ys \<in> set xs" using s1(3,4) hd_in_set by metis
  show ?thesis
  proof (cases "get_current s1 = run_queue s1")
    case True
    then have "get_current s \<notin> set zs" using s1(5,6) h dj by auto
    then have "xs = [get_current s]" using s1(5-7) True by simp
    then show ?thesis using that [of s1 ys] True s1 stay [OF s1(1) True] by (simp add: threads_ok_def)
  next
    case False
    have d: "dom (task_structs s1) = set ys \<union> set zs" "dom (task_structs s) = set xs \<union> set zs"
      using s1(2) ok by (simp_all add: threads_ok_def threads_inv_def)
    have "get_current s \<in> set xs \<union> set zs" using ok ne by (auto simp: threads_ok_def)
    then have "hd ys \<in> dom (task_structs s1)" "get_current s1 \<in> dom (task_structs s1)" using s1 d h by auto
    then have "switch_away s1 \<noteq> None" using s1(6) by (auto simp: switch_away_def switch_to_def update_task_def)
    then obtain s' where s': "switch_away s1 = Some s'" by blast
    note k = switch_keeps [OF s1(2) s']
    show ?thesis using that [of s' ys] switch [OF s1(1) False s'] k s1(3,5,6) False by (simp add: threads_ok_def)
  qed
qed

subsection \<open>An example\<close>

lemma update_task_heap: "update_task p f s = Some s' \<Longrightarrow> heap s' = heap s"
  by (auto simp: update_task_def)

lemma enqueue_heap:
  assumes "enqueue q t s = Some s'"
  shows "heap s' = heap s"
proof -
  define st where "st = snd (disable_and_save_sstatus s)"
  have st: "heap st = heap s" by (simp add: st_def disable_and_save_sstatus_def)
  obtain s1 where "heap s1 = heap st" "s' = restore_sstatus (sstatus s) s1"
    using assms unfolding enqueue_def set_next_def set_prev_def st_def
    by (auto simp: disable_and_save_sstatus_def set_queue_head_def Let_def split: if_splits queue.splits dest!: update_task_heap)
  then show ?thesis using st by (simp add: restore_sstatus_def)
qed

lemma create_taken:
  assumes "thread_create f s = Some (p, s')" and "slab_alloc sizeof_task_struct (heap s) = Some (a, h1)" "a \<noteq> 0"
    and "slab_alloc STACK_SIZE h1 = Some (b, h2)" "b \<noteq> 0"
  shows "p \<noteq> 0 \<and> heap s' = h2"
proof -
  obtain s1 where s1: "new_task s = Some (a, s1)" "heap s1 = h1"
    using assms(2,3) by (simp add: new_task_def allocate_def)
  have al: "allocate STACK_SIZE s1 = Some (b, s1\<lparr>heap := h2\<rparr>)" using assms(4) s1(2) by (simp add: allocate_def)
  define upd where "upd root s3 = update_task a (\<lambda>t. t\<lparr>ts_pgd := kernel_pgd s3, ts_cwd := root,
    ts_thread := (ts_thread t)\<lparr>th_ra := f, th_sp := b + STACK_SIZE, th_sstatus := sstatus s3\<rparr>\<rparr>) s3" for root s3
  have e: "thread_create f s = do { s3 \<leftarrow> update_task a (\<lambda>t. t\<lparr>ts_stack := b\<rparr>) (s1\<lparr>heap := h2\<rparr>); root \<leftarrow> root_vnode s3;
      s4 \<leftarrow> upd root s3; s5 \<leftarrow> enqueue Run_queue a s4; Some (a, s5) }"
    using s1(1) al assms(3,5) by (simp add: thread_create_def upd_def)
  obtain s3 root s4 where "update_task a (\<lambda>t. t\<lparr>ts_stack := b\<rparr>) (s1\<lparr>heap := h2\<rparr>) = Some s3"
    "upd root s3 = Some s4" "enqueue Run_queue a s4 = Some s'" "p = a" using assms(1) unfolding e by auto
  then show ?thesis using assms(3) by (auto simp: upd_def dest!: update_task_heap enqueue_heap)
qed

definition boot_kernel :: kernel where
  "boot_kernel = blank_kernel\<lparr>heap := sixteen_pages, rootfs := 8,
     mounts := [8 \<mapsto> \<lparr>m_root = 16, m_fs = tmpfs_driver, m_mountpoint = 16\<rparr>]\<rparr>"

text \<open>Room for the task structure and the stack of a thread.\<close>

definition thread_room :: "slab \<Rightarrow> (slab \<Rightarrow> bool) \<Rightarrow> bool" where
  "thread_room h P = (case slab_alloc sizeof_task_struct h of None \<Rightarrow> False | Some (a, h1) \<Rightarrow> a \<noteq> 0 \<and>
     (case slab_alloc STACK_SIZE h1 of None \<Rightarrow> False | Some (b, h2) \<Rightarrow> b \<noteq> 0 \<and> P h2))"

lemma create_room:
  assumes "thread_create f s = Some (p, s')" and "thread_room (heap s) P"
  shows "p \<noteq> 0 \<and> P (heap s')"
proof -
  obtain a h1 b h2 where h: "slab_alloc sizeof_task_struct (heap s) = Some (a, h1)" "a \<noteq> 0"
    "slab_alloc STACK_SIZE h1 = Some (b, h2)" "b \<noteq> 0" "P h2"
    using assms(2) by (auto simp: thread_room_def split: option.splits)
  then show ?thesis using create_taken [OF assms(1) h(1-4)] by simp
qed

lemma room_for_two: "thread_room sixteen_pages (\<lambda>h. thread_room h (\<lambda>_. True))"
  by code_simp

lemma no_threads:
  assumes "kernel_inv s" and "root_vnode s \<noteq> None" and "task_structs s = Map.empty" and "run_queue s = 0"
    and "zombie_queue s = 0"
  shows "threads_inv s [] []"
  using assms by (simp add: threads_inv_def thread_blocks_def stacks_def apart_def run_ring_def ring_def ran_def)

lemma boot_threads:
  assumes "kernel_inv s0" and "root_vnode s0 \<noteq> None" and "task_structs s0 = Map.empty" and "run_queue s0 = 0"
    and "zombie_queue s0 = 0" and "thread_create fn s0 = Some (idler, s1)" and "idler \<noteq> 0"
  shows "threads_ok (s1\<lparr>tp := idler\<rparr>) [idler] []"
proof -
  have "threads_inv s0 [] []" by (rule no_threads [OF assms(1-5)])
  then have "threads_inv s1 [idler] []" using create_keeps [of s0 "[]" "[]" fn] assms(6,7) by auto
  then have "threads_inv (s1\<lparr>tp := idler\<rparr>) [idler] []"
    by (simp add: threads_inv_def kernel_inv_def root_vnode_def run_ring_def)
  then show ?thesis by (simp add: threads_ok_def get_current_def)
qed

lemma booted:
  obtains i s1 where "thread_create 7 boot_kernel = Some (i, s1)" "i \<noteq> 0" "threads_ok (s1\<lparr>tp := i\<rparr>) [i] []"
    "thread_room (heap s1) (\<lambda>_. True)" "kernel_inv boot_kernel" "root_vnode boot_kernel \<noteq> None"
proof -
  have h: "heap boot_kernel = sixteen_pages" by (simp add: boot_kernel_def)
  have k: "kernel_inv boot_kernel" "root_vnode boot_kernel \<noteq> None"
    using sixteen_pages_inv by (simp_all add: kernel_inv_def boot_kernel_def root_vnode_def)
  have b: "task_structs boot_kernel = Map.empty" "run_queue boot_kernel = 0" "zombie_queue boot_kernel = 0"
    by (simp_all add: boot_kernel_def)
  obtain i s1 where s1: "thread_create 7 boot_kernel = Some (i, s1)"
    using create_keeps [OF no_threads [OF k b]] by blast
  have "i \<noteq> 0 \<and> thread_room (heap s1) (\<lambda>_. True)" using create_room [OF s1] room_for_two unfolding h by blast
  then show ?thesis using that s1 k boot_threads [OF k b s1] by blast
qed

lemma singleton_list:
  assumes "distinct zs" and "set zs = {i}"
  shows "zs = [i]"
proof -
  have "length zs = 1" using distinct_card [OF assms(1)] assms(2) by simp
  then show ?thesis using assms(2) by (cases zs) auto
qed

text \<open>A second thread is created, runs and exits, and the idle thread runs again.\<close>

lemma example_zombie:
  obtains s i p where "threads_ok s [i] [p]" "get_current s = i"
proof -
  obtain i s1 where s1: "i \<noteq> 0" "threads_ok (s1\<lparr>tp := i\<rparr>) [i] []" "thread_room (heap s1) (\<lambda>_. True)"
    by (rule booted)
  have i1: "threads_inv (s1\<lparr>tp := i\<rparr>) [i] []" using s1(2) by (simp add: threads_ok_def)
  obtain p s2 where s2: "thread_create 9 (s1\<lparr>tp := i\<rparr>) = Some (p, s2)" "get_current s2 = i"
    "p = 0 \<or> p \<noteq> i \<and> threads_inv s2 [i, p] []"
    using create_keeps [OF i1, of 9] by (auto simp: get_current_def)
  have "p \<noteq> 0" using create_room [OF s2(1), of "\<lambda>_. True"] s1(3) by simp
  then have s2': "p \<noteq> i" "threads_ok s2 [i, p] []" using s2 by (simp_all add: threads_ok_def)
  obtain s3 ys where s3: "threads_ok s3 ys []" "set ys = {i, p}" "get_current s3 = hd ys" "get_current s3 \<noteq> i"
    using yields [OF s2'(2)] s2(2) by (metis list.distinct(1) list.sel(3) list.simps(15) empty_set)
  have i3: "threads_inv s3 ys []" using s3(1) by (simp add: threads_ok_def)
  have "distinct ys" using i3 by (simp add: threads_inv_def)
  have "hd ys = p" using s3(2-4) hd_in_set [of ys] by (cases ys) auto
  then obtain zs where zs: "ys = p # zs" using s3(2) by (cases ys) auto
  then have "set zs = {i}" "distinct zs" using s3(2) s2'(1) \<open>distinct ys\<close> by (auto simp: doubleton_eq_iff)
  then have ys: "ys = [p, i]" using singleton_list zs by simp
  obtain s4 where s4: "threads_inv s4 [i] [p]" "get_current s4 = p"
    using retire_keeps [OF i3] s3(3) by (auto simp: ys)
  then have "threads_ok s4 [i] [p]" by (simp add: threads_ok_def)
  then obtain s5 zs where "threads_ok s5 zs [p]" "set zs = {i}" "get_current s5 = hd zs"
    using yields [of s4 "[i]" "[p]"] by (metis list.distinct(1) list.simps(15) empty_set)
  moreover from this have "distinct zs" by (simp add: threads_ok_def threads_inv_def)
  then have "zs = [i]" using calculation(2) by (rule singleton_list)
  ultimately show ?thesis using that by simp
qed

subsection \<open>Properties\<close>

text \<open>C12: The life cycle of kernel threads: in every state that creating threads, giving the hart away,
  exiting, reaping and any use of the allocator reach from boot, the run queue is a ring of the threads that
  have not exited, the idle thread among them, the zombie queue a list of all others, the running thread
  is the head of the one or a member of the other, and every thread owns its task structure and its stack.
  In each such state every operation is defined: none follows a null or dangling pointer.\<close>

theorem threads_life_cycle:
  assumes "kernel_inv s0" and "root_vnode s0 \<noteq> None" and "task_structs s0 = Map.empty" and "run_queue s0 = 0"
    and "zombie_queue s0 = 0" and "thread_create fn s0 = Some (idler, s1)" and "idler \<noteq> 0"
    and "(thread_step idler)\<^sup>*\<^sup>* (s1\<lparr>tp := idler\<rparr>) s"
  shows "(\<exists>xs zs. threads_ok s xs zs \<and> idler \<in> set xs) \<and>
    thread_create gn s \<noteq> None \<and> kill_zombies s \<noteq> None \<and> schedule Some s \<noteq> None \<and>
    (active s \<and> get_current s \<noteq> idler \<longrightarrow> retire s \<noteq> None)"
proof -
  have "threads_safe idler (s1\<lparr>tp := idler\<rparr>)" using boot_threads [OF assms(1-7)] by (auto simp: threads_safe_def)
  with assms(8) have s: "threads_safe idler s" by induction (auto intro: thread_step_safe)
  then show ?thesis using threads_progress [OF s] by (auto simp: threads_safe_def)
qed

lemma threads_life_cycle_witness:
  "\<exists>i s1 p s2 xs zs. thread_create 7 boot_kernel = Some (i, s1) \<and> i \<noteq> 0 \<and>
     thread_create 9 (s1\<lparr>tp := i\<rparr>) = Some (p, s2) \<and> p \<noteq> 0 \<and> threads_ok s2 xs zs \<and> i \<in> set xs"
proof -
  obtain i s1 where s1: "thread_create 7 boot_kernel = Some (i, s1)" "i \<noteq> 0" "threads_ok (s1\<lparr>tp := i\<rparr>) [i] []"
    "thread_room (heap s1) (\<lambda>_. True)" "kernel_inv boot_kernel" "root_vnode boot_kernel \<noteq> None"
    by (rule booted)
  have b: "task_structs boot_kernel = Map.empty" "run_queue boot_kernel = 0" "zombie_queue boot_kernel = 0"
    by (simp_all add: boot_kernel_def)
  have i1: "threads_inv (s1\<lparr>tp := i\<rparr>) [i] []" using s1(3) by (simp add: threads_ok_def)
  obtain p s2 where s2: "thread_create 9 (s1\<lparr>tp := i\<rparr>) = Some (p, s2)" using create_keeps [OF i1] by blast
  have "p \<noteq> 0" using create_room [OF s2, of "\<lambda>_. True"] s1(4) by simp
  moreover have "active (s1\<lparr>tp := i\<rparr>)" using active_head(1) [OF s1(3)] by (simp add: get_current_def)
  then have "(thread_step i)\<^sup>*\<^sup>* (s1\<lparr>tp := i\<rparr>) s2" using s2 by (blast intro: thread_step.create)
  then have "\<exists>xs zs. threads_ok s2 xs zs \<and> i \<in> set xs"
    using threads_life_cycle [OF s1(5,6) b s1(1,2)] by blast
  ultimately show ?thesis using s1(1,2) s2 by blast
qed



end
