(* ===== verification/Waiting.thy ===== *)
theory Waiting
  imports Kernel_Main Threads
begin

text \<open>
  \<open>sys_waitpid\<close> of src/lab7/src/syscall.c on the run queue of the scheduler: the search by process
  id, and what a caller can learn about an exited task; and the wait loop of the shell of
  src/lab7/main.c on the threads of the theory Threads.
\<close>

subsection \<open>The search\<close>

definition has_pid :: "kernel \<Rightarrow> u32 \<Rightarrow> u64 \<Rightarrow> bool" where
  "has_pid s pid p \<longleftrightarrow> (\<exists>t. task_structs s p = Some t \<and> ts_pid t = pid)"

lemma find_pid_chain:
  "chain (task_links (task_structs s)) p ys (run_queue s) \<Longrightarrow> set (p # ys) \<subseteq> dom (task_structs s) \<Longrightarrow>
   run_queue s \<notin> set ys \<Longrightarrow> find_pid s pid p = Some (List.find (has_pid s pid) (p # ys))"
proof (induction ys arbitrary: p)
  case Nil
  then obtain t where "task_structs s p = Some t" by auto
  then show ?case using Nil by (subst find_pid.simps) (simp add: has_pid_def task_links_def)
next
  case (Cons y ys)
  then obtain t where t: "task_structs s p = Some t" by auto
  then have "ts_next t = y" "y \<noteq> run_queue s" using Cons.prems by (auto simp: task_links_def)
  then have "find_pid s pid p = (if ts_pid t = pid then Some (Some p) else find_pid s pid y)"
    using t by (subst find_pid.simps) simp
  moreover have "has_pid s pid p \<longleftrightarrow> ts_pid t = pid" using t by (simp add: has_pid_def)
  ultimately show ?case using Cons by simp
qed

lemma lookup_pid_ring:
  assumes "run_ring s xs"
  shows "lookup_pid pid s = Some (List.find (has_pid s pid) xs)"
proof (cases xs)
  case Nil
  then show ?thesis using assms by (simp add: run_ring_def ring_def lookup_pid_def)
next
  case (Cons x ys)
  then have "run_queue s = x" "dlist (task_links (task_structs s)) x ys" "x \<noteq> 0" "set xs \<subseteq> dom (task_structs s)"
    using assms by (auto simp: run_ring_def ring_def)
  then show ?thesis using find_pid_chain [of s x ys pid] Cons by (simp add: lookup_pid_def dlist_def)
qed

subsection \<open>Giving the hart away\<close>

lemma sched_inv_thread:
  assumes "sched_inv s xs" and "task_structs s c = Some t"
    and "task_structs s' = (task_structs s)(c \<mapsto> t\<lparr>ts_thread := v\<rparr>)" and "run_queue s' = run_queue s"
  shows "sched_inv s' xs"
proof -
  have "task_links (task_structs s') = task_links (task_structs s)"
    using task_links_thread [of "task_structs s" c t v] assms(2,3) by simp
  then show ?thesis using assms by (cases xs) (auto simp: sched_inv_def run_ring_def ring_def)
qed

lemma sched_inv_cong: "sched_inv s xs \<Longrightarrow> task_structs s' = task_structs s \<Longrightarrow> run_queue s' = run_queue s \<Longrightarrow> sched_inv s' xs"
  by (simp add: sched_inv_def run_ring_def)

lemma next_head_inv:
  assumes "sched_inv s xs" and "next_head s = Some s'" and "run_queue s \<noteq> 0"
  shows "\<exists>ys. sched_inv s' ys"
proof (cases "get_current s = run_queue s")
  case True
  then obtain t where t: "task_structs s (run_queue s) = Some t" "s' = s\<lparr>run_queue := ts_next t\<rparr>"
    using assms(2) by (auto simp: next_head_def split: bind_splits)
  have r: "ring (task_structs s) (run_queue s) xs" using assms(1) by (simp add: sched_inv_def run_ring_def)
  consider "xs = []" | x where "xs = [x]" | x y ys where "xs = x # y # ys" by (metis list.exhaust)
  then show ?thesis
  proof cases
    case 1
    then show ?thesis using r assms(3) by (simp add: ring_def)
  next
    case 2
    then have "ts_next t = run_queue s" using r t(1) by (auto simp: ring_def dlist_def task_links_def)
    then show ?thesis using assms(1) t(2) by (auto intro: sched_inv_cong)
  next
    case 3
    have "ring (task_structs s) y (y # ys @ [x])" using ring_rotate r unfolding 3 by blast
    moreover have "ts_next t = y" using r t(1) 3 by (auto simp: ring_def dlist_def task_links_def)
    ultimately have "sched_inv s' (y # ys @ [x])" using assms(1) 3 by (auto simp: t(2) sched_inv_def run_ring_def)
    then show ?thesis by blast
  qed
next
  case False
  then show ?thesis using assms by (auto simp: next_head_def)
qed

lemma switch_away_inv:
  assumes "sched_inv s xs" and "switch_away s = Some s'"
  shows "sched_inv s' xs"
proof -
  obtain n t where "task_structs s (run_queue s) = Some n" and t: "task_structs s (get_current s) = Some t"
    and s': "switch_to (get_current s) (run_queue s)
       (s\<lparr>active_user_pgd := ts_pgd n, satp := MAKE_SATP (virt_to_phys (ts_pgd n))\<rparr>) = Some s'"
    using assms(2) by (auto simp: switch_away_def switch_to_def update_task_def split: bind_splits)
  have "task_structs s' = (task_structs s)(get_current s \<mapsto> t\<lparr>ts_thread := (cpu_ctx s)\<lparr>th_sstatus := sstatus s\<rparr>\<rparr>)"
    "run_queue s' = run_queue s"
    using s' t by (auto simp: switch_to_def update_task_def split: bind_splits)
  then show ?thesis by (rule sched_inv_thread [OF assms(1) t])
qed

lemma mask_inv: "sched_inv (restore_sstatus v s) xs = sched_inv s xs" "sched_inv (snd (disable_and_save_sstatus s)) xs = sched_inv s xs"
  "sched_inv (put_text m s) xs = sched_inv s xs"
  by (simp_all add: restore_sstatus_def disable_and_save_sstatus_def put_text_def put_bytes_def sched_inv_def run_ring_def)

text \<open>The other threads keep the run queue.\<close>

definition queue_kept :: "(kernel \<Rightarrow> kernel option) \<Rightarrow> bool" where
  "queue_kept env \<longleftrightarrow> (\<forall>s s' xs. sched_inv s xs \<and> env s = Some s' \<longrightarrow> (\<exists>ys. sched_inv s' ys))"

lemma schedule_inv:
  assumes env: "queue_kept env" and inv: "sched_inv s xs" and e: "schedule env s = Some s'"
  shows "\<exists>ys. sched_inv s' ys"
proof -
  define st where "st = (if get_current (snd (disable_and_save_sstatus s)) = 0
    then put_text ''Panic: tp is zero!\<newline>'' (snd (disable_and_save_sstatus s)) else snd (disable_and_save_sstatus s))"
  have i: "sched_inv st xs" using inv by (simp add: st_def mask_inv)
  have sc: "schedule env s = (if run_queue st = 0 then Some (restore_sstatus (sstatus s) st)
     else do {
       st2 \<leftarrow> next_head st;
       st3 \<leftarrow> (if get_current st2 \<noteq> run_queue st2 then do { sw \<leftarrow> switch_away st2; env sw } else Some st2);
       Some (restore_sstatus (sstatus s) st3)
     })"
    unfolding schedule_def st_def by (simp add: disable_and_save_sstatus_def Let_def)
  show ?thesis
  proof (cases "run_queue st = 0")
    case True
    then show ?thesis using e i sc mask_inv(1) by auto
  next
    case False
    then obtain st2 st3 where n: "next_head st = Some st2" and
      s3: "(if get_current st2 \<noteq> run_queue st2 then do { sw \<leftarrow> switch_away st2; env sw } else Some st2) = Some st3"
      and s': "s' = restore_sstatus (sstatus s) st3"
      using e sc by (auto split: bind_splits)
    obtain ys where y: "sched_inv st2 ys" using next_head_inv [OF i n False] by blast
    have "\<exists>zs. sched_inv st3 zs"
    proof (cases "get_current st2 = run_queue st2")
      case True
      then show ?thesis using s3 y by auto
    next
      case False
      then obtain sw where "switch_away st2 = Some sw" "env sw = Some st3" using s3 by (auto split: bind_splits)
      then show ?thesis using switch_away_inv [OF y] env unfolding queue_kept_def by blast
    qed
    then show ?thesis by (simp add: s' mask_inv)
  qed
qed

subsection \<open>The shell\<close>

text \<open>The shell waits for its child by reading \<open>child->state\<close> (\<open>wait_child\<close>).  Once the idle thread has reaped
  the child, this reads a structure that has been freed.\<close>

lemma shell_waits_on_freed:
  assumes ok: "threads_ok s xs zs" and idle: "get_current s \<in> set xs" and child: "child \<in> set zs"
  shows "\<exists>s'. kill_zombies s = Some s' \<and> wait_child env child s' = None"
proof -
  have inv: "threads_inv s xs zs" using ok by (simp add: threads_ok_def)
  obtain s' where s': "kill_zombies s = Some s'" "task_structs s' = (task_structs s) |` set xs"
    using kill_zombies_ok [OF inv] by blast
  have "child \<notin> set xs" using threads_inv_ring(3) [OF inv] child by blast
  then have "task_structs s' child = None" by (simp add: s'(2) restrict_map_def)
  then show ?thesis using s'(1) by (subst wait_child.simps) simp
qed

subsection \<open>The property\<close>

lemma waitpid_fails:
  assumes env: "queue_kept env" and e: "sys_waitpid env pid s = Some r" and inv: "\<exists>xs. sched_inv s xs"
  shows "fst r = - 1"
proof -
  have "(\<exists>xs. sched_inv s xs) \<longrightarrow> fst r = - 1"
  proof (rule sys_waitpid.raw_induct [where P = "\<lambda>e pid s r. e = env \<longrightarrow> (\<exists>xs. sched_inv s xs) \<longrightarrow> fst r = - 1",
        OF _ e, THEN mp, OF _ refl])
    fix loop e' pid s and r :: "u64 \<times> kernel"
    assume IH: "\<And>e' pid s r. loop e' pid s = Some r \<Longrightarrow> e' = env \<longrightarrow> (\<exists>xs. sched_inv s xs) \<longrightarrow> fst r = - 1"
      and st: "lookup_pid pid s \<bind> (\<lambda>q. case q of None \<Rightarrow> Some (- 1, s)
        | Some p \<Rightarrow> task_structs s p \<bind> (\<lambda>t. if ts_state t = THREAD_ZOMBIE then Some (scast pid, s)
            else schedule e' s \<bind> loop e' pid)) = Some r"
    show "e' = env \<longrightarrow> (\<exists>xs. sched_inv s xs) \<longrightarrow> fst r = - 1"
    proof (intro impI)
      assume e': "e' = env" and "\<exists>xs. sched_inv s xs"
      then obtain xs where xs: "sched_inv s xs" by blast
      have l: "lookup_pid pid s = Some (List.find (has_pid s pid) xs)"
        using lookup_pid_ring xs by (simp add: sched_inv_def)
      show "fst r = - 1"
      proof (cases "List.find (has_pid s pid) xs")
        case None
        then show ?thesis using st l by auto
      next
        case (Some p)
        then have p: "p \<in> set xs" by (auto simp: find_Some_iff)
        obtain t where t: "task_structs s p = Some t" using st l Some by (auto split: bind_splits)
        then have "ts_state t \<noteq> THREAD_ZOMBIE" using xs p by (auto simp: sched_inv_def)
        then obtain s1 where s1: "schedule env s = Some s1" "loop env pid s1 = Some r"
          using st l Some t e' by (auto split: bind_splits)
        then show ?thesis using IH schedule_inv [OF env xs s1(1)] by blast
      qed
    qed
  qed
  then show ?thesis using inv by blast
qed

text \<open>C15: \<open>sys_waitpid\<close> of a process that is not in the run queue, in particular of one that has exited and
  waits in the zombie queue, returns -1 at once; and since no task of the run queue is ever a zombie, no call
  returns anything but -1, whatever the scheduler runs meanwhile: the branch that returns the process id
  of an exited child is dead.\<close>

theorem waitpid_never_reports:
  assumes "sched_inv s xs" and "queue_kept env"
  shows "((\<forall>p \<in> set xs. \<not> has_pid s pid p) \<longrightarrow> sys_waitpid env pid s = Some (- 1, s)) \<and>
    (\<forall>r s'. sys_waitpid env pid s = Some (r, s') \<longrightarrow> r = - 1)"
proof (intro conjI impI allI)
  assume "\<forall>p \<in> set xs. \<not> has_pid s pid p"
  then have "List.find (has_pid s pid) xs = None" by (simp add: find_None_iff)
  then have "lookup_pid pid s = Some None" using lookup_pid_ring [of s xs pid] assms(1) by (simp add: sched_inv_def)
  then show "sys_waitpid env pid s = Some (- 1, s)" by (subst sys_waitpid.simps) simp
next
  fix r s' assume "sys_waitpid env pid s = Some (r, s')"
  then show "r = - 1" using waitpid_fails [OF assms(2)] assms(1) by fastforce
qed

lemma waitpid_never_reports_witness:
  "queue_kept Some \<and> sys_waitpid Some 3 two_tasks = Some (- 1, two_tasks)"
proof -
  have q: "queue_kept Some" by (auto simp: queue_kept_def)
  have "\<forall>p \<in> set [0x1000, 0x2000]. \<not> has_pid two_tasks 3 p" by (simp add: has_pid_def two_tasks_def)
  then show ?thesis using q waitpid_never_reports [OF two_tasks_inv q, of 3] by blast
qed

end
