(* ===== verification/Cow_Fork.thy ===== *)
theory Cow_Fork
  imports Page_Faults
begin

text \<open>
  \<open>fork_copy_page_table_cow\<close> of src/lab7/src/paging.c: after the three nested loops the parent and the child
  map the same pages, none of them writable, and each page has one reference more per mapping.  The
  loops are followed by one invariant over the set of leaf slots already copied.
\<close>

subsection \<open>Entries\<close>

lemma cow_entry_props:
  assumes "valid e"
  shows "valid (cow_entry e)" "pte_pa (cow_entry e) = pte_pa e" "e AND PTE_W = 0 \<Longrightarrow> cow_entry e = e"
    "cow_entry e AND PTE_W = 0"
proof -
  show "valid (cow_entry e)" using assms by (simp add: valid_iff cow_entry_def bit_simps flag_bits)
  show "pte_pa (cow_entry e) = pte_pa e"
    unfolding pte_pa_def cow_entry_def by (rule bit_word_eqI) (auto simp: bit_simps flag_bits)
  show "e AND PTE_W = 0 \<Longrightarrow> cow_entry e = e" by (simp add: cow_entry_def)
  have "(e AND NOT PTE_W OR PTE_COW) AND PTE_W = 0" by (rule bit_word_eqI) (auto simp: bit_simps flag_bits)
  then show "cow_entry e AND PTE_W = 0" by (simp add: cow_entry_def)
qed

subsection \<open>Two trees\<close>

lemma walks_same:
  assumes "\<And>q. upath q \<Longrightarrow> walk m' pgd q = walk m pgd q"
  shows "tables m' pgd = tables m pgd" "tree m' pgd = tree m pgd"
  using assms by (auto simp: tables_def tree_def)

text \<open>A change inside the tables of one tree does not touch a tree without common tables.\<close>

lemma other_tree:
  assumes "paged pgd" and "paged q" and "q \<notin> tables m pgd" and "\<And>x. \<not> unat (x - q) < 4096 \<Longrightarrow> m' x = m x"
  shows "upath p \<Longrightarrow> walk m' pgd p = walk m pgd p" "upath p \<Longrightarrow> k < 512 \<Longrightarrow> leaf m' pgd p k = leaf m pgd p k"
proof -
  have ag: "\<forall>t \<in> tables m pgd. \<forall>j < 512. pte_get m' t j = pte_get m t j"
  proof (intro ballI allI impI)
    fix t and j :: nat
    assume t: "t \<in> tables m pgd" and j: "j < 512"
    have pt: "paged t" using tables_paged [OF assms(1) t] .
    show "pte_get m' t j = pte_get m t j"
      using pages_apart [OF assms(2) pt] t assms(3) by (intro pte_get_cong [OF pt j] assms(4)) auto
  qed
  show "upath p \<Longrightarrow> walk m' pgd p = walk m pgd p" by (rule walk_agree [OF ag])
  show "upath p \<Longrightarrow> k < 512 \<Longrightarrow> leaf m' pgd p k = leaf m pgd p k" by (rule tree_agree(3) [OF ag])
qed

text \<open>Writing a leaf entry of one tree.\<close>

lemma store_in_one:
  assumes a: "tree m A" and b: "tree m B" "tables m A \<inter> tables m B = {}"
    and p: "upath p" "length p = 2" "walk m A p = Some u" "k < 512"
    and m': "m' = store64 (entry_addr u k) v m" and v: "valid v"
  shows "upath q \<Longrightarrow> walk m' A q = walk m A q" "upath q \<Longrightarrow> walk m' B q = walk m B q"
    "upath q \<Longrightarrow> j < 512 \<Longrightarrow> leaf m' A q j = (if q = p \<and> j = k then Some v else leaf m A q j)"
    "upath q \<Longrightarrow> j < 512 \<Longrightarrow> leaf m' B q j = leaf m B q j"
    "\<not> unat (x - u) < 4096 \<Longrightarrow> m' x = m x"
proof -
  have u: "u \<in> tables m A" using p(1,3) unfolding tables_def by blast
  have pg: "paged A" "paged B" using a b by (simp_all add: tree_def)
  have pu: "paged u" using tables_paged [OF pg(1) u] .
  have out: "\<not> unat (x - u) < 4096 \<Longrightarrow> m' x = m x" for x unfolding m' by (rule store_outside [OF pu p(4)])
  then show "\<not> unat (x - u) < 4096 \<Longrightarrow> m' x = m x" .
  have ub: "u \<notin> tables m B" using u b(2) by blast
  show "upath q \<Longrightarrow> walk m' B q = walk m B q" "upath q \<Longrightarrow> j < 512 \<Longrightarrow> leaf m' B q j = leaf m B q j"
    using other_tree [OF pg(2) pu ub out] by blast+
  show "upath q \<Longrightarrow> walk m' A q = walk m A q" unfolding m' by (rule leaf_store(1) [OF a p])
  show "upath q \<Longrightarrow> j < 512 \<Longrightarrow> leaf m' A q j = (if q = p \<and> j = k then Some v else leaf m A q j)"
    unfolding m' using leaf_store(2) [OF a p] v by simp
qed

subsection \<open>The invariant\<close>

text \<open>A leaf slot is a full path and an index; the paths whose table the child still lacks.\<close>

type_synonym slot = "nat list \<times> nat"

definition user_slots :: "slot set" where
  "user_slots = {(p, k). upath p \<and> length p = 2 \<and> k < 512}"

definition lacking :: "bytes \<Rightarrow> u64 \<Rightarrow> u64 \<Rightarrow> nat list set" where
  "lacking m P D = {p. upath p \<and> walk m P p \<noteq> None \<and> walk m D p = None}"

text \<open>The slots of \<open>K\<close> that map the page with index \<open>r\<close>.\<close>

definition sharers :: "bool \<Rightarrow> (slot \<Rightarrow> u64 option) \<Rightarrow> slot set \<Rightarrow> nat \<Rightarrow> slot set" where
  "sharers dbg L K r = {t \<in> K. \<exists>e. L t = Some e \<and> page_idx dbg (pte_pa e) = r}"

text \<open>\<open>K\<close> is copied: the parent \<open>P\<close> and the child \<open>D\<close> hold the same entries there, without write
  permission, and every page has one reference more for each of its slots in \<open>K\<close>; \<open>s0\<close> is the state before
  the fork.  The parent keeps its tables, the child gets new ones, and no other memory changes; there is memory
  for the tables that the child still lacks and for \<open>spare\<close> pages besides.\<close>

abbreviation old_leaf :: "kernel \<Rightarrow> u64 \<Rightarrow> slot \<Rightarrow> u64 option" where
  "old_leaf s0 P \<equiv> (\<lambda>(p, k). leaf (mem s0) P p k)"

definition cow_trees :: "nat \<Rightarrow> u64 \<Rightarrow> u64 \<Rightarrow> kernel \<Rightarrow> kernel \<Rightarrow> bool" where
  "cow_trees spare P D s0 s \<longleftrightarrow>
     pt_ok P s \<and> pt_ok D s \<and> tables (mem s) P \<inter> tables (mem s) D = {} \<and>
     (\<forall>p. upath p \<longrightarrow> walk (mem s) P p = walk (mem s0) P p) \<and>
     can_alloc (card (lacking (mem s) P D) + spare) (heap s) \<and> allotted s0 \<subseteq> allotted s \<and>
     tables (mem s) D \<inter> allotted s0 \<subseteq> tables (mem s0) D \<and>
     (\<forall>x. (\<forall>t \<in> tables (mem s) P \<union> tables (mem s) D. \<not> unat (x - t) < 4096) \<longrightarrow> mem s x = mem s0 x)"

definition cow_entries :: "u64 \<Rightarrow> u64 \<Rightarrow> kernel \<Rightarrow> slot set \<Rightarrow> kernel \<Rightarrow> bool" where
  "cow_entries P D s0 K s \<longleftrightarrow>
     (\<forall>p k. (p, k) \<in> user_slots \<longrightarrow>
        leaf (mem s) P p k = (if (p, k) \<in> K then map_option cow_entry (leaf (mem s0) P p k) else leaf (mem s0) P p k) \<and>
        leaf (mem s) D p k = (if (p, k) \<in> K then map_option cow_entry (leaf (mem s0) P p k) else None))"

definition cow_counts :: "u64 \<Rightarrow> kernel \<Rightarrow> slot set \<Rightarrow> kernel \<Rightarrow> bool" where
  "cow_counts P s0 K s \<longleftrightarrow> debug s = debug s0 \<and>
     (\<forall>r. page_ref_counts s r = page_ref_counts s0 r + (if r < NUM_PAGES (debug s0)
        then of_nat (card (sharers (debug s0) (old_leaf s0 P) K r)) else 0))"

definition forked :: "nat \<Rightarrow> u64 \<Rightarrow> u64 \<Rightarrow> kernel \<Rightarrow> slot set \<Rightarrow> kernel \<Rightarrow> bool" where
  "forked spare P D s0 K s \<longleftrightarrow> K \<subseteq> user_slots \<and> cow_trees spare P D s0 s \<and> cow_entries P D s0 K s \<and> cow_counts P s0 K s"

lemma upath_finite: "finite {p. upath p}"
proof (rule finite_subset)
  show "{p. upath p} \<subseteq> {xs. set xs \<subseteq> {..<512} \<and> length xs \<le> 2}" by (auto simp: upath_def)
  show "finite {xs. set xs \<subseteq> {..<512 :: nat} \<and> length xs \<le> 2}" by (rule finite_lists_length_le) simp
qed

lemma slots_finite: "finite user_slots"
proof (rule finite_subset)
  show "user_slots \<subseteq> {p. upath p} \<times> {..<512}" by (auto simp: user_slots_def)
qed (simp add: upath_finite)

lemma cow_treesD:
  assumes "cow_trees spare P D s0 s"
  shows "pt_ok P s" "pt_ok D s" "tables (mem s) P \<inter> tables (mem s) D = {}"
    "upath p \<Longrightarrow> walk (mem s) P p = walk (mem s0) P p"
    "can_alloc (card (lacking (mem s) P D) + spare) (heap s)" "allotted s0 \<subseteq> allotted s"
    "tables (mem s) D \<inter> allotted s0 \<subseteq> tables (mem s0) D"
    "(\<And>t. t \<in> tables (mem s) P \<union> tables (mem s) D \<Longrightarrow> \<not> unat (x - t) < 4096) \<Longrightarrow> mem s x = mem s0 x"
  using assms unfolding cow_trees_def by (blast, blast, blast, blast, blast, blast, blast, metis)

text \<open>Empty slots need no work.\<close>

lemma forked_empty:
  assumes f: "forked spare P D s0 K s" and T: "T \<subseteq> user_slots" "\<And>p k. (p, k) \<in> T \<Longrightarrow> leaf (mem s0) P p k = None"
  shows "forked spare P D s0 (K \<union> T) s"
proof -
  have "sharers (debug s0) (old_leaf s0 P) (K \<union> T) r = sharers (debug s0) (old_leaf s0 P) K r" for r
    using T(2) by (auto simp: sharers_def)
  then have "cow_counts P s0 (K \<union> T) s" using f by (simp add: forked_def cow_counts_def)
  moreover have "cow_entries P D s0 (K \<union> T) s"
    using f T(2) by (simp add: forked_def cow_entries_def)
  ultimately show ?thesis using f T(1) by (simp add: forked_def)
qed

subsection \<open>One page\<close>

text \<open>A write to one of the two trees that moves no path.\<close>

lemma cow_trees_write:
  assumes t: "cow_trees spare P D s0 s" and u: "u \<in> tables (mem s) P \<union> tables (mem s) D"
    and w: "\<And>q. upath q \<Longrightarrow> walk (mem s') P q = walk (mem s) P q" "\<And>q. upath q \<Longrightarrow> walk (mem s') D q = walk (mem s) D q"
    and m: "\<And>x. \<not> unat (x - u) < 4096 \<Longrightarrow> mem s' x = mem s x" and h: "heap s' = heap s"
  shows "cow_trees spare P D s0 s'"
proof -
  note d = cow_treesD [OF t]
  have p: "tables (mem s') P = tables (mem s) P" "tree (mem s') P = tree (mem s) P"
    using w(1) by (intro walks_same; simp)+
  have q: "tables (mem s') D = tables (mem s) D" "tree (mem s') D = tree (mem s) D"
    using w(2) by (intro walks_same; simp)+
  have l: "lacking (mem s') P D = lacking (mem s) P D" using w by (auto simp: lacking_def)
  have ok: "pt_ok P s'" "pt_ok D s'" using d(1,2) p q h by (simp_all add: pt_ok_def kernel_inv_def)
  have o: "mem s' x = mem s0 x" if "\<forall>t \<in> tables (mem s) P \<union> tables (mem s) D. \<not> unat (x - t) < 4096" for x
    using m [of x] d(8) [of x] that u by auto
  have ws: "walk (mem s') P r = walk (mem s0) P r" if "upath r" for r using w(1) [OF that] d(4) [OF that] by simp
  show ?thesis unfolding cow_trees_def p(1) q(1) h l using ok d(3,5-7) o ws by blast
qed

lemma increment_page_ref_sel [simp]:
  "mem (increment_page_ref pa s) = mem s" "heap (increment_page_ref pa s) = heap s" "debug (increment_page_ref pa s) = debug s"
  by (simp_all add: increment_page_ref_def Let_def)

lemma cow_counts_step:
  assumes c: "cow_counts P s0 K s" and K: "finite K" "(p, k) \<notin> K" and e: "leaf (mem s0) P p k = Some e"
    and s': "debug s' = debug s" "page_ref_counts s' = page_ref_counts (increment_page_ref (pte_pa e) s)"
  shows "cow_counts P s0 (insert (p, k) K) s'"
proof -
  let ?sh = "sharers (debug s0) (old_leaf s0 P)"
  have d: "debug s = debug s0" using c by (simp add: cow_counts_def)
  let ?i = "page_idx (debug s0) (pte_pa e)"
  have f: "finite (?sh K r)" for r using K(1) by (simp add: sharers_def)
  have sh: "?sh (insert (p, k) K) r = (if r = ?i then insert (p, k) (?sh K r) else ?sh K r)" for r
    using e by (auto simp: sharers_def)
  have "(p, k) \<notin> ?sh K r" for r using K(2) by (simp add: sharers_def)
  then have card: "card (?sh (insert (p, k) K) r) = card (?sh K r) + (if r = ?i then 1 else 0)" for r
    unfolding sh using f by simp
  show ?thesis
    unfolding cow_counts_def card
    using c d s' by (auto simp: cow_counts_def increment_page_ref_def Let_def)
qed

lemma copy_page_ok:
  assumes f: "forked spare P D s0 K s" and p: "upath p" "length p = 2" "k < 512" "(p, k) \<notin> K"
    and w: "walk (mem s) P p = Some src" "walk (mem s) D p = Some dst"
  shows "\<exists>s'. copy_page dst src k s = Some s' \<and> forked spare P D s0 (insert (p, k) K) s' \<and>
    (\<forall>q. upath q \<longrightarrow> walk (mem s') P q = walk (mem s) P q \<and> walk (mem s') D q = walk (mem s) D q)"
proof -
  have K: "K \<subseteq> user_slots" and tr: "cow_trees spare P D s0 s" and en: "cow_entries P D s0 K s" and ct: "cow_counts P s0 K s"
    using f by (simp_all add: forked_def)
  have slot: "(p, k) \<in> user_slots" using p by (simp add: user_slots_def)
  note d = cow_treesD [OF tr]
  have t: "tree (mem s) P" "tree (mem s) D" using d(1,2) by (simp_all add: pt_ok_def)
  define e where "e = pte_get (mem s) src k"
  have L: "leaf (mem s0) P p k = (if valid e then Some e else None)"
  proof -
    have "leaf (mem s) P p k = leaf (mem s0) P p k" using en slot p(4) by (simp add: cow_entries_def)
    then show ?thesis using w(1) by (auto simp: leaf_def [of "mem s"] e_def split: if_splits)
  qed
  show ?thesis
  proof (cases "valid e")
    case False
    then have "forked spare P D s0 (K \<union> {(p, k)}) s" using slot L by (intro forked_empty [OF f]) auto
    then show ?thesis using False by (intro exI [of _ s]) (simp add: copy_page_def e_def Let_def)
  next
    case True
    note c = cow_entry_props [OF True]
    define m1 where "m1 = (if e AND PTE_W \<noteq> 0 then store64 (entry_addr src k) (cow_entry e) (mem s) else mem s)"
    have src: "src \<in> tables (mem s) P" "dst \<in> tables (mem s) D" using p(1) w unfolding tables_def by blast+
    have dj: "tables (mem s) P \<inter> tables (mem s) D = {}" by (rule d(3))
    note st = store_in_one [OF t dj p(1,2) w(1) p(3) refl c(1)]
    have Pk: "leaf (mem s) P p k = Some e" using True w(1) by (simp add: leaf_def e_def)
    have m1: "upath q \<Longrightarrow> walk m1 P q = walk (mem s) P q" "upath q \<Longrightarrow> walk m1 D q = walk (mem s) D q"
      "upath q \<Longrightarrow> j < 512 \<Longrightarrow> leaf m1 P q j = (if q = p \<and> j = k then Some (cow_entry e) else leaf (mem s) P q j)"
      "upath q \<Longrightarrow> j < 512 \<Longrightarrow> leaf m1 D q j = leaf (mem s) D q j"
      "\<not> unat (x - src) < 4096 \<Longrightarrow> m1 x = mem s x" for q j x
      using st c(3) Pk by (auto simp: m1_def)
    have t1: "tree m1 P" "tree m1 D" "tables m1 P = tables (mem s) P" "tables m1 D = tables (mem s) D"
      using walks_same [OF m1(1)] walks_same [OF m1(2)] t by simp_all
    define m2 where "m2 = store64 (entry_addr dst k) (cow_entry e) m1"
    have dj1: "tables m1 D \<inter> tables m1 P = {}" using dj t1(3,4) by blast
    have wd: "walk m1 D p = Some dst" using m1(2) [OF p(1)] w(2) by simp
    note st2 = store_in_one [OF t1(2,1) dj1 p(1,2) wd p(3) m2_def c(1)]
    define s1 where "s1 = s\<lparr>mem := m1\<rparr>"
    define s' where "s' = pte_set dst k (cow_entry e) (increment_page_ref (pte_pa (cow_entry e)) s1)"
    have cp: "copy_page dst src k s = Some s'"
    proof -
      have "(if e AND PTE_W \<noteq> 0 then pte_set src k (cow_entry e) s else s) = s1" by (simp add: s1_def m1_def pte_set_def)
      then show ?thesis using True by (simp add: copy_page_def e_def [symmetric] s'_def Let_def)
    qed
    have ms: "mem s' = m2" "heap s' = heap s" by (simp_all add: s'_def m2_def pte_set_def s1_def)
    have "cow_trees spare P D s0 s1"
      by (rule cow_trees_write [OF tr, of src]) (use src m1 in \<open>auto simp: s1_def\<close>)
    then have tr': "cow_trees spare P D s0 s'"
      by (rule cow_trees_write [of _ _ _ _ s1 dst]) (use src t1 st2 in \<open>auto simp: s1_def ms\<close>)
    have en': "cow_entries P D s0 (insert (p, k) K) s'"
      unfolding cow_entries_def
    proof (intro allI impI)
      fix q j assume qj: "(q, j) \<in> user_slots"
      then have q: "upath q" "j < 512" by (simp_all add: user_slots_def)
      have "leaf (mem s') P q j = (if q = p \<and> j = k then Some (cow_entry e) else leaf (mem s) P q j)"
        "leaf (mem s') D q j = (if q = p \<and> j = k then Some (cow_entry e) else leaf (mem s) D q j)"
        using st2(3,4) [OF q] m1(3,4) [OF q] by (simp_all add: ms)
      then show "leaf (mem s') P q j = (if (q, j) \<in> insert (p, k) K then map_option cow_entry (leaf (mem s0) P q j)
            else leaf (mem s0) P q j) \<and>
          leaf (mem s') D q j = (if (q, j) \<in> insert (p, k) K then map_option cow_entry (leaf (mem s0) P q j) else None)"
        using en qj L True by (simp add: cow_entries_def)
    qed
    have "cow_counts P s0 (insert (p, k) K) s'"
    proof (rule cow_counts_step [OF ct finite_subset [OF K slots_finite] p(4)])
      show "leaf (mem s0) P p k = Some e" using L True by simp
      show "debug s' = debug s" by (simp add: s'_def s1_def pte_set_def)
      show "page_ref_counts s' = page_ref_counts (increment_page_ref (pte_pa e) s)"
        by (simp add: s'_def s1_def pte_set_def c(2) increment_page_ref_def Let_def)
    qed
    then have "forked spare P D s0 (insert (p, k) K) s'" using K slot tr' en' by (simp add: forked_def)
    moreover have "walk (mem s') P q = walk (mem s) P q \<and> walk (mem s') D q = walk (mem s) D q" if "upath q" for q
      using st2(1,2) [OF that] m1(1,2) [OF that] by (simp add: ms)
    ultimately show ?thesis using cp by blast
  qed
qed

subsection \<open>The tables of the child\<close>

lemma other_tree_grown:
  assumes P: "paged P" "tables (mem s) P \<subseteq> allotted s" and D: "paged D" "tables (mem s) P \<inter> tables (mem s) D = {}"
    and g: "grows D s s'"
  shows "tables (mem s) P \<inter> tables (mem s') D = {}" "upath p \<Longrightarrow> walk (mem s') P p = walk (mem s) P p"
    "upath p \<Longrightarrow> k < 512 \<Longrightarrow> leaf (mem s') P p k = leaf (mem s) P p k"
proof -
  show dj: "tables (mem s) P \<inter> tables (mem s') D = {}" using growsD(5) [OF g] P(2) D(2) by blast
  have ag: "\<forall>t \<in> tables (mem s) P. \<forall>j < 512. pte_get (mem s') t j = pte_get (mem s) t j"
  proof (intro ballI allI impI)
    fix t and j :: nat
    assume t: "t \<in> tables (mem s) P" and j: "j < 512"
    have pt: "paged t" using tables_paged [OF P(1) t] .
    show "pte_get (mem s') t j = pte_get (mem s) t j"
    proof (rule pte_get_cong [OF pt j], rule growsD(7) [OF g])
      fix x u assume x: "unat (x - t) < 4096" and u: "u \<in> tables (mem s') D"
      have "t \<noteq> u" using t u dj by blast
      then show "\<not> unat (x - u) < 4096" using pages_apart [OF pt tables_paged [OF D(1) u] x] by blast
    qed
  qed
  show "upath p \<Longrightarrow> walk (mem s') P p = walk (mem s) P p" by (rule walk_agree [OF ag])
  show "upath p \<Longrightarrow> k < 512 \<Longrightarrow> leaf (mem s') P p k = leaf (mem s) P p k" by (rule tree_agree(3) [OF ag])
qed

lemma lacking_finite: "finite (lacking m P D)"
  by (rule finite_subset [OF _ upath_finite]) (auto simp: lacking_def)

text \<open>A table is built for a path of the parent that the child lacks, and for no other.\<close>

lemma ensure_child:
  assumes f: "forked spare P D s0 K s" and p: "upath p" "length p \<le> 1" "walk (mem s) D p = Some u" "i < 512" "p = [] \<longrightarrow> i < 256"
    and P: "walk (mem s) P (p @ [i]) \<noteq> None"
  shows "\<exists>t s'. ensure_table u i s = Some (t, s') \<and> forked spare P D s0 K s' \<and> walk (mem s') D (p @ [i]) = Some t \<and>
    (\<forall>q. upath q \<longrightarrow> walk (mem s') P q = walk (mem s) P q) \<and>
    (\<forall>q. upath q \<longrightarrow> walk (mem s') D q = (if q = p @ [i] then Some t else walk (mem s) D q))"
proof -
  have K: "K \<subseteq> user_slots" and tr: "cow_trees spare P D s0 s" and en: "cow_entries P D s0 K s" and ct: "cow_counts P s0 K s"
    using f by (simp_all add: forked_def)
  note d = cow_treesD [OF tr]
  have up: "upath (p @ [i])" using p(1,2,4,5) by (cases p) (auto simp: upath_def)
  have i: "kernel_inv s" "paged P" "paged D" "tables (mem s) P \<subseteq> allotted s" "tree (mem s) P"
    using d(1,2) by (simp_all add: pt_ok_def tree_def)
  show ?thesis
  proof (cases "valid (pte_get (mem s) u i)")
    case True
    define t where "t = next_table (pte_get (mem s) u i)"
    have "ensure_table u i s = Some (t, s)" using True by (simp add: ensure_table_def t_def)
    moreover have "walk (mem s) D (p @ [i]) = Some t" using True p(3) by (simp add: walk_append t_def)
    ultimately show ?thesis using f by (intro exI [of _ t] exI [of _ s]) simp
  next
    case False
    have none: "walk (mem s) D (p @ [i]) = None" using False p(3) by (simp add: walk_append)
    then have "p @ [i] \<in> lacking (mem s) P D" using up P by (simp add: lacking_def)
    then have card: "card (lacking (mem s) P D) = Suc (card (lacking (mem s) P D - {p @ [i]}))"
      using card.remove [OF lacking_finite] by blast
    then obtain x s1 where n: "new_page s = Some (x, s1)" "can_alloc (card (lacking (mem s) P D - {p @ [i]}) + spare) (heap s1)"
      using new_page_some d(5) by (metis add_Suc)
    define s' where "s' = pte_set u i (MAKE_PTE (virt_to_phys x) PTE_V) s1"
    define t where "t = next_table (pte_get (mem s') u i)"
    have e: "ensure_table u i s = Some (t, s')" using False n(1) by (simp add: ensure_table_def s'_def t_def)
    note es = ensure_table_ok [OF d(2) p e]
    note o = other_tree_grown [OF i(2,4,3) d(3) es(2)]
    note g = growsD [OF es(2)]
    have heap: "heap s' = heap s1" by (simp add: s'_def pte_set_def)
    obtain h m where sm: "s' = s\<lparr>mem := m, heap := h\<rparr>" using g(1) by blast
    have lack: "lacking (mem s') P D = lacking (mem s) P D - {p @ [i]}"
      using o(2) es(5) by (auto simp: lacking_def split: if_splits)
    have tP: "tables (mem s') P = tables (mem s) P" "tree (mem s') P = tree (mem s) P"
      using o(2) by (intro walks_same; simp)+
    have "cow_trees spare P D s0 s'"
      unfolding cow_trees_def tP lack
    proof (intro conjI allI impI)
      show "pt_ok P s'" using i(4,5) g(3) es(1) tP by (auto simp: pt_ok_def)
      show "pt_ok D s'" by (rule es(1))
      show "tables (mem s) P \<inter> tables (mem s') D = {}" by (rule o(1))
      show "walk (mem s') P r = walk (mem s0) P r" if "upath r" for r using o(2) d(4) that by simp
      show "can_alloc (card (lacking (mem s) P D - {p @ [i]}) + spare) (heap s')" using n(2) heap by simp
      show "allotted s0 \<subseteq> allotted s'" using d(6) g(3) by blast
      show "tables (mem s') D \<inter> allotted s0 \<subseteq> tables (mem s0) D" using d(6,7) g(5) by blast
      show "mem s' x = mem s0 x" if "\<forall>t \<in> tables (mem s) P \<union> tables (mem s') D. \<not> unat (x - t) < 4096" for x
      proof -
        have "mem s' x = mem s x" using g(7) that by blast
        also have "\<dots> = mem s0 x" using d(8) that g(6) by blast
        finally show ?thesis .
      qed
    qed
    moreover have "cow_entries P D s0 K s'"
      using en o(3) es(4) by (simp add: cow_entries_def user_slots_def)
    moreover have "cow_counts P s0 K s'" using ct by (simp add: cow_counts_def sm)
    ultimately have "forked spare P D s0 K s'" using K by (simp add: forked_def)
    then show ?thesis using e es(3,5) o(2) by blast
  qed
qed

subsection \<open>The loops\<close>

definition row :: "nat \<Rightarrow> nat \<Rightarrow> slot set" where
  "row i j = {[i, j]} \<times> {..<512}"

lemma row_slots: "i < 256 \<Longrightarrow> j < 512 \<Longrightarrow> row i j \<subseteq> user_slots"
  by (auto simp: row_def user_slots_def upath_def)

lemma copy_pte_ok:
  assumes f: "forked spare P D s0 K s" and ij: "i < 256" "j < 512" "K \<inter> row i j = {}"
    and w: "walk (mem s) P [i] = Some src" "walk (mem s) D [i] = Some dst"
  shows "\<exists>s'. copy_pte dst src j s = Some s' \<and> forked spare P D s0 (K \<union> row i j) s' \<and>
    walk (mem s') P [i] = Some src \<and> walk (mem s') D [i] = Some dst"
proof -
  have up: "upath [i]" "upath [i, j]" using ij(1,2) by (simp_all add: upath_def)
  have wj: "walk m A [i] = Some t \<Longrightarrow> walk m A [i, j] = (if valid (pte_get m t j) then Some (next_table (pte_get m t j)) else None)"
    for m A t using walk_append [of m A "[i]" "[j]"] by simp
  show ?thesis
  proof (cases "valid (pte_get (mem s) src j)")
    case False
    have "walk (mem s0) P [i, j] = None"
      using cow_treesD(4) [of spare P D s0 s "[i, j]"] f up(2) wj [OF w(1)] False by (simp add: forked_def)
    then have "leaf (mem s0) P p k = None" if "(p, k) \<in> row i j" for p k using that by (auto simp: row_def leaf_def)
    then have "forked spare P D s0 (K \<union> row i j) s" using row_slots [OF ij(1,2)] by (intro forked_empty [OF f])
    then show ?thesis using False w by (intro exI [of _ s]) (simp add: copy_pte_def)
  next
    case True
    have "walk (mem s) P ([i] @ [j]) \<noteq> None" using True wj [OF w(1)] by simp
    then obtain t s1 where e: "ensure_table dst j s = Some (t, s1)" "forked spare P D s0 K s1" "walk (mem s1) D [i, j] = Some t"
      "\<forall>q. upath q \<longrightarrow> walk (mem s1) P q = walk (mem s) P q"
      "\<forall>q. upath q \<longrightarrow> walk (mem s1) D q = (if q = [i] @ [j] then Some t else walk (mem s) D q)"
      using ensure_child [OF f up(1) _ w(2) ij(2)] by auto
    define u where "u = next_table (pte_get (mem s1) src j)"
    have w1: "walk (mem s1) P [i] = Some src" "walk (mem s1) D [i] = Some dst" using e(4,5) up(1) w by (simp_all del: walk.simps)
    have "walk (mem s1) P [i, j] = walk (mem s) P [i, j]" using e(4) up(2) by blast
    then have u: "walk (mem s1) P [i, j] = Some u"
      using True wj [OF w(1)] wj [OF w1(1)] by (simp add: u_def split: if_splits)
    let ?I = "\<lambda>k s. forked spare P D s0 (K \<union> {[i, j]} \<times> {..<k}) s \<and> walk (mem s) P [i, j] = Some u \<and>
      walk (mem s) D [i, j] = Some t \<and> walk (mem s) P [i] = Some src \<and> walk (mem s) D [i] = Some dst"
    have "\<exists>s'. for_each (copy_page t u) [0..<512] s1 = Some s' \<and> ?I 512 s'"
    proof (rule for_each_invariant)
      show "?I 0 s1" using e(2,3) u w1 by simp
      fix k s assume k: "k < 512" and I: "?I k s"
      have n: "([i, j], k) \<notin> K \<union> {[i, j]} \<times> {..<k}" using ij(3) k by (auto simp: row_def)
      have eq: "insert ([i, j], k) (K \<union> {[i, j]} \<times> {..<k}) = K \<union> {[i, j]} \<times> {..<Suc k}" by (auto simp: less_Suc_eq)
      have fk: "forked spare P D s0 (K \<union> {[i, j]} \<times> {..<k}) s" and ws: "walk (mem s) P [i, j] = Some u" "walk (mem s) D [i, j] = Some t"
        using I by blast+
      obtain s' where s': "copy_page t u k s = Some s'" "forked spare P D s0 (K \<union> {[i, j]} \<times> {..<Suc k}) s'"
        "\<forall>q. upath q \<longrightarrow> walk (mem s') P q = walk (mem s) P q \<and> walk (mem s') D q = walk (mem s) D q"
        using copy_page_ok [OF fk up(2) _ k n ws] unfolding eq by auto
      then show "\<exists>s'. copy_page t u k s = Some s' \<and> ?I (Suc k) s'" using I up by (intro exI [of _ s']) (simp del: walk.simps)
    qed
    then show ?thesis using True e(1) by (simp add: copy_pte_def u_def row_def del: walk.simps) blast
  qed
qed

lemma copy_pmd_ok:
  assumes f: "forked spare P D s0 K s" and i: "i < 256" "\<forall>j < 512. K \<inter> row i j = {}"
  shows "\<exists>s'. copy_pmd D P i s = Some s' \<and> forked spare P D s0 (K \<union> (\<Union>j < 512. row i j)) s'"
proof -
  have up: "upath []" "upath [i]" using i(1) by (simp_all add: upath_def)
  show ?thesis
  proof (cases "valid (pte_get (mem s) P i)")
    case False
    have "walk (mem s) P [i, j] = None" for j using False by simp
    then have "walk (mem s0) P [i, j] = None" if "j < 512" for j
      using cow_treesD(4) [of spare P D s0 s "[i, j]"] f i(1) that by (simp add: forked_def upath_def)
    then have "leaf (mem s0) P p k = None" if "(p, k) \<in> (\<Union>j < 512. row i j)" for p k
      using that by (auto simp: row_def leaf_def)
    then have "forked spare P D s0 (K \<union> (\<Union>j < 512. row i j)) s"
      using row_slots [OF i(1)] by (intro forked_empty [OF f]) blast+
    then show ?thesis using False by (intro exI [of _ s]) (simp add: copy_pmd_def)
  next
    case True
    have "walk (mem s) P ([] @ [i]) \<noteq> None" using True by simp
    then obtain t s1 where e: "ensure_table D i s = Some (t, s1)" "forked spare P D s0 K s1" "walk (mem s1) D [i] = Some t"
      "\<forall>q. upath q \<longrightarrow> walk (mem s1) P q = walk (mem s) P q"
      using ensure_child [OF f up(1), of D i] i(1) by auto
    define u where "u = next_table (pte_get (mem s1) P i)"
    have "walk (mem s1) P [i] = walk (mem s) P [i]" using e(4) up(2) by blast
    then have u: "walk (mem s1) P [i] = Some u" using True by (simp add: u_def split: if_splits)
    let ?I = "\<lambda>j s. forked spare P D s0 (K \<union> (\<Union>j' < j. row i j')) s \<and> walk (mem s) P [i] = Some u \<and> walk (mem s) D [i] = Some t"
    have "\<exists>s'. for_each (copy_pte t u) [0..<512] s1 = Some s' \<and> ?I 512 s'"
    proof (rule for_each_invariant)
      show "?I 0 s1" using e(2,3) u by simp
      fix j s assume j: "j < 512" and I: "?I j s"
      have n: "(K \<union> (\<Union>j' < j. row i j')) \<inter> row i j = {}" using i(2) j by (auto simp: row_def)
      have eq: "(K \<union> (\<Union>j' < j. row i j')) \<union> row i j = K \<union> (\<Union>j' < Suc j. row i j')" by (auto simp: less_Suc_eq)
      show "\<exists>s'. copy_pte t u j s = Some s' \<and> ?I (Suc j) s'"
        using copy_pte_ok [OF _ i(1) j n] I unfolding eq by blast
    qed
    then show ?thesis using True e(1) by (auto simp: copy_pmd_def u_def)
  qed
qed

lemma fork_loops:
  assumes "forked spare P D s0 {} s0"
  shows "\<exists>s'. fork_copy_page_table_cow D P s0 = Some s' \<and> forked spare P D s0 user_slots s'"
proof -
  let ?K = "\<lambda>i. \<Union>i' < i. \<Union>j < 512. row i' j"
  have "\<exists>s'. for_each (copy_pmd D P) [0..<256] s0 = Some s' \<and> forked spare P D s0 (?K 256) s'"
  proof (rule for_each_invariant [where I = "\<lambda>i s. forked spare P D s0 (?K i) s"])
    show "forked spare P D s0 (?K 0) s0" using assms by simp
    fix i s assume i: "i < (256 :: nat)" and I: "forked spare P D s0 (?K i) s"
    have n: "\<forall>j < 512. ?K i \<inter> row i j = {}" by (auto simp: row_def)
    have "?K i \<union> (\<Union>j < 512. row i j) = ?K (Suc i)" by (simp add: lessThan_Suc Un_commute)
    then show "\<exists>s'. copy_pmd D P i s = Some s' \<and> forked spare P D s0 (?K (Suc i)) s'" using copy_pmd_ok [OF I i n] by metis
  qed
  moreover have "?K 256 = user_slots"
  proof
    show "?K 256 \<subseteq> user_slots" using row_slots by fastforce
    show "user_slots \<subseteq> ?K 256"
    proof
      fix t assume t: "t \<in> user_slots"
      obtain p k where pk: "t = (p, k)" by fastforce
      have "length p = 2" using t by (simp add: user_slots_def pk)
      then obtain i j where p: "p = [i, j]" by (auto simp: length_Suc_conv numeral_2_eq_2)
      have "i < 256" "j < 512" "k < 512" using t by (auto simp: user_slots_def upath_def pk p)
      then have "t \<in> row i j" by (simp add: pk p row_def)
      then show "t \<in> ?K 256" using \<open>i < 256\<close> \<open>j < 512\<close> by blast
    qed
  qed
  ultimately show ?thesis by (simp add: fork_copy_page_table_cow_def)
qed

subsection \<open>The start\<close>

lemma fork_start:
  assumes ok: "pt_ok P s" "pt_ok D s" and dj: "tables (mem s) P \<inter> tables (mem s) D = {}"
    and D: "\<forall>i < 256. \<not> valid (pte_get (mem s) D i)" and room: "can_alloc (n + spare) (heap s)" "card (tables (mem s) P) \<le> Suc n"
  shows "forked spare P D s {} s"
proof -
  have wD: "walk (mem s) D p = None" if "upath p" "p \<noteq> []" for p using that D by (cases p) (auto simp: upath_def)
  let ?A = "{p. upath p \<and> walk (mem s) P p \<noteq> None}"
  have "bij_betw (\<lambda>p. the (walk (mem s) P p)) ?A (tables (mem s) P)"
  proof (rule bij_betwI')
    fix p q assume p: "p \<in> ?A" and q: "q \<in> ?A"
    have t: "tree (mem s) P" using ok(1) by (simp add: pt_ok_def)
    obtain t u where w: "walk (mem s) P p = Some t" "walk (mem s) P q = Some u" using p q by auto
    show "the (walk (mem s) P p) = the (walk (mem s) P q) \<longleftrightarrow> p = q"
      using treeD [OF t _ _ w(1), of q] w p q by auto
  next
    fix p assume "p \<in> ?A"
    then show "the (walk (mem s) P p) \<in> tables (mem s) P" unfolding tables_def by auto
  next
    fix t assume "t \<in> tables (mem s) P"
    then show "\<exists>p \<in> ?A. t = the (walk (mem s) P p)" unfolding tables_def by force
  qed
  then have "card ?A = card (tables (mem s) P)" by (rule bij_betw_same_card)
  moreover have "lacking (mem s) P D = ?A - {[]}" using wD by (auto simp: lacking_def)
  moreover have "[] \<in> ?A" by (simp add: upath_def)
  moreover have "finite ?A" by (rule finite_subset [OF _ upath_finite]) blast
  ultimately have "card (lacking (mem s) P D) \<le> n" using room(2) by (simp add: card_Diff_singleton)
  then have "can_alloc (card (lacking (mem s) P D) + spare) (heap s)" using room(1) by (elim can_alloc_less) simp
  then have "cow_trees spare P D s s" using ok dj by (simp add: cow_trees_def)
  moreover have "leaf (mem s) D p k = None" if "(p, k) \<in> user_slots" for p k
    using that wD [of p] by (cases "p = []") (auto simp: user_slots_def leaf_def)
  then have "cow_entries P D s {} s" by (simp add: cow_entries_def)
  ultimately show ?thesis by (simp add: forked_def cow_counts_def sharers_def)
qed

subsection \<open>The property\<close>

text \<open>How often the task maps the physical page with index \<open>r\<close>.\<close>

definition mappings :: "kernel \<Rightarrow> u64 \<Rightarrow> nat \<Rightarrow> nat" where
  "mappings s P r = card (sharers (debug s) (old_leaf s P) user_slots r)"

lemma user_slot: "user_va a \<Longrightarrow> ([vpn2 a, vpn1 a], vpn0 a) \<in> user_slots"
  using user_upath by (simp add: user_slots_def)

text \<open>What the three loops establish.\<close>

lemma fork_done:
  assumes "pt_ok P s" and "pt_ok D s" and "tables (mem s) P \<inter> tables (mem s) D = {}"
    and "\<forall>i < 256. \<not> valid (pte_get (mem s) D i)"
    and "can_alloc (n + spare) (heap s)" and "card (tables (mem s) P) \<le> Suc n"
  obtains s' where "fork_copy_page_table_cow D P s = Some s'" and "cow_trees spare P D s s'"
    and "tables (mem s') P = tables (mem s) P" and "debug s' = debug s"
    and "\<forall>a. user_va a \<longrightarrow> leaf_entry (mem s') P a = map_option cow_entry (leaf_entry (mem s) P a) \<and>
       leaf_entry (mem s') D a = leaf_entry (mem s') P a"
    and "\<forall>r. page_ref_counts s' r = page_ref_counts s r + (if r < NUM_PAGES (debug s) then of_nat (mappings s P r) else 0)"
    and "\<forall>q x. paged q \<and> q \<in> allotted s \<and> q \<notin> tables (mem s) P \<union> tables (mem s) D \<and> unat (x - q) < 4096 \<longrightarrow>
       mem s' x = mem s x"
proof -
  obtain s' where s': "fork_copy_page_table_cow D P s = Some s'" "forked spare P D s user_slots s'"
    using fork_loops [OF fork_start [OF assms]] by blast
  have tr: "cow_trees spare P D s s'" and en: "cow_entries P D s user_slots s'" and ct: "cow_counts P s user_slots s'"
    using s'(2) by (simp_all add: forked_def)
  note d = cow_treesD [OF tr]
  have pg: "paged P" "paged D" using assms(1,2) by (simp_all add: pt_ok_def tree_def)
  have tb: "tables (mem s') P = tables (mem s) P" using d(4) by (intro walks_same) simp
  have lf: "leaf_entry (mem s') P a = map_option cow_entry (leaf_entry (mem s) P a)"
    "leaf_entry (mem s') D a = map_option cow_entry (leaf_entry (mem s) P a)" if "user_va a" for a
    using en user_slot [OF that] by (simp_all add: cow_entries_def leaf_entry_leaf)
  have frame: "mem s' x = mem s x"
    if q: "paged q" "q \<in> allotted s" "q \<notin> tables (mem s) P \<union> tables (mem s) D" "unat (x - q) < 4096" for q x
  proof (rule d(8))
    fix t assume t: "t \<in> tables (mem s') P \<union> tables (mem s') D"
    have "t \<noteq> q" using t q(2,3) d(7) tb by blast
    moreover have "paged t" using t tables_paged pg by blast
    ultimately show "\<not> unat (x - t) < 4096" using pages_apart [OF q(1)] q(4) by blast
  qed
  have counts: "page_ref_counts s' r = page_ref_counts s r + (if r < NUM_PAGES (debug s) then of_nat (mappings s P r) else 0)" for r
    using ct by (simp add: cow_counts_def mappings_def)
  show thesis
  proof (rule that [OF s'(1) tr tb])
    show "debug s' = debug s" using ct by (simp add: cow_counts_def)
    show "\<forall>q x. paged q \<and> q \<in> allotted s \<and> q \<notin> tables (mem s) P \<union> tables (mem s) D \<and> unat (x - q) < 4096 \<longrightarrow>
       mem s' x = mem s x" using frame by blast
  qed (use lf counts in simp_all)
qed

lemma leaf_valid: "leaf_entry m pgd a = Some e \<Longrightarrow> valid e"
  by (auto simp: leaf_entry_def Let_def split: if_splits)

text \<open>C3: Copy-on-write fork: with memory for the tables of the parent, \<open>fork_copy_page_table_cow\<close> returns.
  Afterwards the child maps every user address exactly as the parent does, both without write permission and
  marked copy-on-write where the parent could write; every physical page has one reference more for each of its
  mappings (modulo the eight bits of the counter); the tables of the two stay apart and in memory of their own,
  and no page in use that is not one of their tables changes.\<close>

theorem fork_shares_pages:
  assumes "pt_ok P s" and "pt_ok D s" and "tables (mem s) P \<inter> tables (mem s) D = {}"
    and "\<forall>i < 256. \<not> valid (pte_get (mem s) D i)"
    and "can_alloc n (heap s)" and "card (tables (mem s) P) \<le> Suc n"
  shows "\<exists>s'. fork_copy_page_table_cow D P s = Some s' \<and> pt_ok P s' \<and> pt_ok D s' \<and>
    tables (mem s') P \<inter> tables (mem s') D = {} \<and>
    (\<forall>a. user_va a \<longrightarrow> leaf_entry (mem s') P a = map_option cow_entry (leaf_entry (mem s) P a) \<and>
       leaf_entry (mem s') D a = leaf_entry (mem s') P a) \<and>
    (\<forall>a e. user_va a \<and> leaf_entry (mem s') P a = Some e \<longrightarrow> e AND PTE_W = 0) \<and>
    (\<forall>r. page_ref_counts s' r = page_ref_counts s r + (if r < NUM_PAGES (debug s) then of_nat (mappings s P r) else 0)) \<and>
    (\<forall>q x. paged q \<and> q \<in> allotted s \<and> q \<notin> tables (mem s) P \<union> tables (mem s) D \<and> unat (x - q) < 4096 \<longrightarrow>
       mem s' x = mem s x)"
proof -
  have room: "can_alloc (n + 0) (heap s)" using assms(5) by simp
  obtain s' where s': "fork_copy_page_table_cow D P s = Some s'" "cow_trees 0 P D s s'"
    "tables (mem s') P = tables (mem s) P" "debug s' = debug s"
    and lf: "\<forall>a. user_va a \<longrightarrow> leaf_entry (mem s') P a = map_option cow_entry (leaf_entry (mem s) P a) \<and>
       leaf_entry (mem s') D a = leaf_entry (mem s') P a"
    and counts: "\<forall>r. page_ref_counts s' r = page_ref_counts s r + (if r < NUM_PAGES (debug s) then of_nat (mappings s P r) else 0)"
    and frame: "\<forall>q x. paged q \<and> q \<in> allotted s \<and> q \<notin> tables (mem s) P \<union> tables (mem s) D \<and> unat (x - q) < 4096 \<longrightarrow>
       mem s' x = mem s x"
    by (rule fork_done [OF assms(1-4) room assms(6)])
  have "e AND PTE_W = 0" if a: "user_va a" "leaf_entry (mem s') P a = Some e" for a e
  proof -
    obtain e0 where "leaf_entry (mem s) P a = Some e0" "e = cow_entry e0"
      using lf a by (cases "leaf_entry (mem s) P a") auto
    then show ?thesis using cow_entry_props(4) leaf_valid by blast
  qed
  then show ?thesis using s'(1) cow_treesD(1-3) [OF s'(2)] lf counts frame by (intro exI [of _ s']) (simp (no_asm_simp), blast)
qed

text \<open>A parent with one writable page, and a child without pages.\<close>

lemma ensure_tables:
  assumes "pt_ok pgd s" and "upath p" "length p \<le> 1" "walk (mem s) pgd p = Some u" "i < 512" "p = [] \<longrightarrow> i < 256"
    and "ensure_table u i s = Some (t, s')"
  shows "tables (mem s') pgd \<subseteq> insert t (tables (mem s) pgd)"
  using ensure_table_ok(5) [OF assms] by (auto simp: tables_def split: if_splits)

lemma pagewalk_tables:
  assumes ok: "pt_ok pgd s" and u: "user_va va" and pgd: "active_user_pgd s = pgd" and e: "pagewalk va pa prot s = Some s'"
  obtains a b where "tables (mem s') pgd \<subseteq> {a, b} \<union> tables (mem s) pgd"
proof -
  obtain pmd s1 pte s2 where w: "ensure_table pgd (vpn2 va) s = Some (pmd, s1)"
    "ensure_table pmd (vpn1 va) s1 = Some (pte, s2)"
    "s' = pte_set pte (vpn0 va) (MAKE_PTE pa (prot OR PTE_V)) s2"
    using e user_below [OF u] pgd by (auto simp: pagewalk_def Let_def)
  have up: "upath []" "upath [vpn2 va]" "upath [vpn2 va, vpn1 va]" using user_upath [OF u] by (auto simp: upath_def)
  have w0: "walk (mem s) pgd [] = Some pgd" by simp
  have v: "vpn2 va < 512" "[] = [] \<longrightarrow> vpn2 va < 256" "[vpn2 va] = [] \<longrightarrow> vpn1 va < 256" using user_vpn2 [OF u] by simp_all
  have l: "length [] \<le> (1 :: nat)" "length [vpn2 va] \<le> 1" by simp_all
  note a1 = ensure_table_ok [OF ok up(1) l(1) w0 v(1,2) w(1)] and t1 = ensure_tables [OF ok up(1) l(1) w0 v(1,2) w(1)]
  have w1: "walk (mem s1) pgd [vpn2 va] = Some pmd" using a1(3) by simp
  note a2 = ensure_table_ok [OF a1(1) up(2) l(2) w1 vpn_bounds(1) v(3) w(2)]
    and t2 = ensure_tables [OF a1(1) up(2) l(2) w1 vpn_bounds(1) v(3) w(2)]
  have "tree (mem s2) pgd" using a2(1) by (simp add: pt_ok_def)
  moreover have "walk (mem s2) pgd [vpn2 va, vpn1 va] = Some pte" using a2(3) by simp
  ultimately have "tables (mem s') pgd = tables (mem s2) pgd"
    using leaf_store(1) [of "mem s2" pgd "[vpn2 va, vpn1 va]" pte "vpn0 va"] up(3)
    by (intro walks_same) (simp add: w(3) pte_set_def del: walk.simps)
  then show ?thesis using t1 t2 by (intro that [of pmd pte]) auto
qed

lemma example_tables: "tables (mem example_space) example_pgd = {example_pgd}"
proof -
  have z: "mem example_space = (\<lambda>_. 0)"
    by (simp add: example_space_def memzero_eq fun_eq_iff del: pages_taken.simps memzero.simps)
  have "pte_get (mem example_space) t i = 0" for t i by (simp add: z pte_get_def load64_def)
  then have w: "walk (mem example_space) t p = (if p = [] then Some t else None)" for t p by (cases p) simp_all
  have "upath []" by (simp add: upath_def)
  then show ?thesis unfolding tables_def w by auto
qed

lemma one_page_parent:
  assumes ok: "pt_ok P s0" "active_user_pgd s0 = P" "tables (mem s0) P = {P}" and u: "user_va va"
    and room: "can_alloc (Suc (Suc (Suc n))) (heap s0)"
  obtains s D where "pt_ok P s" "pt_ok D s" "tables (mem s) P \<inter> tables (mem s) D = {}"
    "\<forall>i < 256. \<not> valid (pte_get (mem s) D i)" "can_alloc n (heap s)" "card (tables (mem s) P) \<le> Suc 2"
    "\<forall>a. user_va a \<longrightarrow> leaf_entry (mem s) P a =
       (if unat a div 4096 = unat va div 4096 then Some (MAKE_PTE pa (prot OR PTE_V)) else leaf_entry (mem s0) P a)"
    "allotted s0 \<subseteq> allotted s" "(tables (mem s) P \<union> tables (mem s) D) \<inter> allotted s0 \<subseteq> {P}"
    "page_ref_counts s = page_ref_counts s0" "debug s = debug s0"
proof -
  obtain s1 where s1: "pagewalk va pa prot s0 = Some s1" "can_alloc (Suc n) (heap s1)"
    using pagewalk_some [OF room] by blast
  note w = pagewalk_ok [OF ok(1) u ok(2) s1(1)]
  note g = growsD [OF w(2)]
  obtain a b where tb: "tables (mem s1) P \<subseteq> {a, b} \<union> {P}"
    using pagewalk_tables [OF ok(1) u ok(2) s1(1)] ok(3) by metis
  obtain D s where s: "new_page s1 = Some (D, s)" "can_alloc n (heap s)" using new_page_some [OF s1(2)] by blast
  have k: "kernel_inv s1" "tree (mem s1) P" "tables (mem s1) P \<subseteq> allotted s1"
    using w(1) by (simp_all add: pt_ok_def)
  have pg: "paged P" using k(2) by (simp add: tree_def)
  obtain h where h: "s = s1\<lparr>mem := memzero D 4096 (mem s1), heap := h\<rparr>" "kernel_inv s" "paged D" "D \<notin> allotted s1"
    "allotted s = insert D (allotted s1)" using new_page_ok [OF k(1) s(1)] by metis
  have out: "\<not> unat (x - D) < 4096 \<Longrightarrow> mem s x = mem s1 x" for x by (simp add: h(1) memzero_eq)
  have Dt: "D \<notin> tables (mem s1) P" using k(3) h(4) by blast
  note v = page_write [OF pg h(3) Dt out] and nt = new_tables [OF k(1) s(1)]
  show thesis
  proof (rule that [of s D])
    show "pt_ok P s" using k(2,3) h(2,5) v(1,2) by (auto simp: pt_ok_def)
    show "pt_ok D s" by (rule new_pt_ok [OF k(1) s(1)])
    show "tables (mem s) P \<inter> tables (mem s) D = {}" using Dt v(1) nt(2) by simp
    show "\<forall>i < 256. \<not> valid (pte_get (mem s) D i)" using pte_get_zero [OF h(3,3), of _ "mem s1"] h(1) by simp
    show "can_alloc n (heap s)" by (rule s(2))
    have "card (tables (mem s) P) \<le> card {a, b, P}" using tb by (intro card_mono) (auto simp: v(1))
    moreover have "card {a, b, P} \<le> 3" by (simp add: card_insert_if)
    ultimately show "card (tables (mem s) P) \<le> Suc 2" by simp
    show "allotted s0 \<subseteq> allotted s" using g(3) h(5) by blast
    show "(tables (mem s) P \<union> tables (mem s) D) \<inter> allotted s0 \<subseteq> {P}" using g(3,5) h(4) v(1) nt(2) ok(3) by auto
    show "page_ref_counts s = page_ref_counts s0" "debug s = debug s0" using h(1) g(1) by auto
  qed (use w(3) v(3) in simp)
qed

lemma example_parent:
  obtains s D where "pt_ok example_pgd s" "pt_ok D s" "tables (mem s) example_pgd \<inter> tables (mem s) D = {}"
    "\<forall>i < 256. \<not> valid (pte_get (mem s) D i)" "can_alloc 2 (heap s)" "card (tables (mem s) example_pgd) \<le> Suc 2"
    "leaf_entry (mem s) example_pgd 0x5000 = Some (MAKE_PTE 0x200000 (PROT_USER_RW OR PTE_V))"
proof -
  have u: "user_va 0x5000" by (simp add: user_va_def)
  have room: "can_alloc (Suc (Suc (Suc 2))) (heap example_space)" using example_room by (rule can_alloc_less) simp
  obtain s D where "pt_ok example_pgd s" "pt_ok D s" "tables (mem s) example_pgd \<inter> tables (mem s) D = {}"
    "\<forall>i < 256. \<not> valid (pte_get (mem s) D i)" "can_alloc 2 (heap s)" "card (tables (mem s) example_pgd) \<le> Suc 2"
    and l: "\<forall>a. user_va a \<longrightarrow> leaf_entry (mem s) example_pgd a = (if unat a div 4096 = unat (0x5000 :: u64) div 4096
       then Some (MAKE_PTE 0x200000 (PROT_USER_RW OR PTE_V)) else leaf_entry (mem example_space) example_pgd a)"
    by (rule one_page_parent [where pa = "0x200000" and prot = PROT_USER_RW, OF example_ok example_tables u room])
  then show thesis using u by (intro that [of s D]) simp_all
qed

lemma fork_shares_pages_witness:
  "\<exists>s s' D e. leaf_entry (mem s) example_pgd 0x5000 = Some e \<and> e AND PTE_W \<noteq> 0 \<and>
     fork_copy_page_table_cow D example_pgd s = Some s' \<and>
     leaf_entry (mem s') example_pgd 0x5000 = Some (cow_entry e) \<and> leaf_entry (mem s') D 0x5000 = Some (cow_entry e)"
proof -
  obtain s D where s: "pt_ok example_pgd s" "pt_ok D s" "tables (mem s) example_pgd \<inter> tables (mem s) D = {}"
    "\<forall>i < 256. \<not> valid (pte_get (mem s) D i)" "can_alloc 2 (heap s)" "card (tables (mem s) example_pgd) \<le> Suc 2"
    "leaf_entry (mem s) example_pgd 0x5000 = Some (MAKE_PTE 0x200000 (PROT_USER_RW OR PTE_V))"
    by (rule example_parent)
  have u: "user_va 0x5000" by (simp add: user_va_def)
  define e where "e = MAKE_PTE 0x200000 (PROT_USER_RW OR PTE_V)"
  have L: "leaf_entry (mem s) example_pgd 0x5000 = Some e" using s(7) by (simp add: e_def)
  obtain s' where s': "fork_copy_page_table_cow D example_pgd s = Some s'"
    "leaf_entry (mem s') example_pgd 0x5000 = map_option cow_entry (leaf_entry (mem s) example_pgd 0x5000)"
    "leaf_entry (mem s') D 0x5000 = leaf_entry (mem s') example_pgd 0x5000"
    using fork_shares_pages [OF s(1-6)] u by blast
  have "leaf_entry (mem s') example_pgd 0x5000 = Some (cow_entry e)" "leaf_entry (mem s') D 0x5000 = Some (cow_entry e)"
    using s'(2,3) L by simp_all
  moreover have "e AND PTE_W \<noteq> 0"
    by (simp add: e_def MAKE_PTE_def PROT_USER_RW_def PROT_USER_BASE_def PTE_V_def PTE_U_def PTE_A_def PTE_D_def PTE_R_def PTE_W_def)
  ultimately show ?thesis using L s'(1) by blast
qed

end
