(* ===== verification/Isolation.thy ===== *)
theory Isolation
  imports Cow_Fork
begin

text \<open>
  A fork and the first store after it, through the whole path of the kernel: \<open>fork_copy_page_table_cow\<close>
  shares the pages, the store traps, \<open>page_fault_handler\<close> of src/lab7/src/paging.c gives the storing
  task a page of its own, and the store, tried again, succeeds.  The other task reads what was there before.
\<close>

subsection \<open>Bytes of a mapped page\<close>

lemma byte_offset:
  fixes a :: u64
  shows "unat (a AND 4095) < 4096" "of_nat (unat (a AND 4095)) = a AND 4095" "unat (p + (a AND 4095) - p) < 4096"
proof -
  have "(4095 :: u64) = mask 12" by (simp add: mask_eq_exp_minus_1)
  then have "a AND 4095 = take_bit 12 a" by (simp only: take_bit_eq_mask)
  then have "unat (a AND 4095) = take_bit 12 (unat a)" by (simp only: unsigned_take_bit_eq)
  then show b: "unat (a AND 4095) < 4096" by (simp add: take_bit_eq_mod)
  show "of_nat (unat (a AND 4095)) = a AND 4095" by simp
  show "unat (p + (a AND 4095) - p) < 4096" using b by simp
qed

lemma offset_distinct:
  assumes "unat a div 4096 = unat b div 4096" and "a \<noteq> b"
  shows "a AND 4095 \<noteq> (b :: u64) AND 4095"
proof
  assume e: "a AND 4095 = b AND 4095"
  have "x = (x AND NOT m) OR (x AND m)" for x m :: u64 by (rule bit_word_eqI) (auto simp: bit_simps)
  moreover have "a AND NOT 4095 = b AND NOT 4095"
    using page_of(1) [of a] page_of(1) [of b] assms(1) by (simp add: word_unat_eq_iff)
  ultimately show False using e assms(2) by metis
qed

lemma leaf_same_page:
  "user_va a \<Longrightarrow> user_va b \<Longrightarrow> unat a div 4096 = unat b div 4096 \<Longrightarrow> leaf_entry m pgd a = leaf_entry m pgd b"
  using vpn_same_page [of a b] by (simp add: leaf_entry_def)

text \<open>The entries of an address space do not change while its tables do not.\<close>

lemma leaf_frame:
  assumes "paged pgd" and "\<And>t x. t \<in> tables m pgd \<Longrightarrow> unat (x - t) < 4096 \<Longrightarrow> m' x = m x" and "user_va a"
  shows "leaf_entry m' pgd a = leaf_entry m pgd a" "tables m' pgd = tables m pgd" "tree m' pgd = tree m pgd"
proof -
  have "\<forall>t \<in> tables m pgd. \<forall>j < 512. pte_get m' t j = pte_get m t j"
    using assms(1,2) tables_paged by (intro ballI allI impI pte_get_cong) blast+
  note ag = tree_agree [OF this]
  show "leaf_entry m' pgd a = leaf_entry m pgd a" using ag(3) user_upath [OF assms(3)] by (simp add: leaf_entry_leaf)
  show "tables m' pgd = tables m pgd" "tree m' pgd = tree m pgd" by (rule ag(1), rule ag(2))
qed

text \<open>A load through an entry that permits it.\<close>

lemma load_mapped:
  assumes "user_va a" and "leaf_entry (mem s) (satp_table s) a = Some e" and "e AND PTE_R \<noteq> 0" and "e AND PTE_U \<noteq> 0"
  shows "load_byte env a s = Some (mem s (next_table e + (a AND 4095)), s)"
  using assms user_below [OF assms(1)] by (subst load_byte.simps) (simp add: user_translate_def next_table_def)

subsection \<open>The entries of the two sides\<close>

text \<open>The flags of a mapping survive sharing and the private copy.\<close>

lemma cow_entry_flags:
  assumes "valid e" and "e AND PTE_W \<noteq> 0"
  shows "cow_entry e AND PTE_COW \<noteq> 0" "cow_entry e AND PTE_R = e AND PTE_R" "cow_entry e AND PTE_U = e AND PTE_U"
proof -
  have "bit (cow_entry e AND PTE_COW) 8" using assms(2) by (simp add: cow_entry_def bit_simps flag_bits)
  then show "cow_entry e AND PTE_COW \<noteq> 0" by fastforce
  have b: "bit PTE_R n \<longleftrightarrow> n = 1" "bit PTE_U n \<longleftrightarrow> n = 4" for n
    using bit_power [of 1] bit_power [of 4] by (simp_all add: PTE_R_def PTE_U_def)
  show "cow_entry e AND PTE_R = e AND PTE_R" "cow_entry e AND PTE_U = e AND PTE_U"
    by (rule bit_word_eqI, auto simp: cow_entry_def bit_simps flag_bits b)+
qed

lemma private_entry:
  fixes e :: u64
  assumes "paged p" and "n = MAKE_PTE (virt_to_phys p) (private_flags e)"
  shows "next_table n = p" "n AND PTE_W \<noteq> 0" "n AND PTE_R = e AND PTE_R" "n AND PTE_U = e AND PTE_U"
proof -
  show "next_table n = p" unfolding assms(2) next_table_def MAKE_PTE_pa [OF private_flags(2)] page_num_phys [OF assms(1)]
    by (simp add: phys_to_virt_def virt_to_phys_def)
  have fl: "n AND 0x3FF = private_flags e" unfolding assms(2) by (rule MAKE_PTE_flags [OF private_flags(2)])
  have "(n AND 0x3FF) AND PTE_R = n AND PTE_R" "(n AND 0x3FF) AND PTE_U = n AND PTE_U" "(n AND 0x3FF) AND PTE_W = n AND PTE_W"
    by (simp_all add: PTE_R_def PTE_U_def PTE_W_def and.assoc)
  moreover have b: "bit PTE_R n \<longleftrightarrow> n = 1" "bit PTE_U n \<longleftrightarrow> n = 4" for n
    using bit_power [of 1] bit_power [of 4] by (simp_all add: PTE_R_def PTE_U_def)
  have m: "(0x3FF :: u64) = mask 10" by (simp add: mask_eq_exp_minus_1)
  have "private_flags e AND PTE_R = e AND PTE_R" "private_flags e AND PTE_U = e AND PTE_U"
    by (rule bit_word_eqI, auto simp: private_flags_def m bit_simps flag_bits b)+
  ultimately show "n AND PTE_W \<noteq> 0" "n AND PTE_R = e AND PTE_R" "n AND PTE_U = e AND PTE_U"
    using fl private_flags(3) [of e] by simp_all
qed

subsection \<open>The store\<close>

text \<open>The task with the tables \<open>X\<close> runs in a state with the memory, the allocator and the counters of \<open>s\<close>.\<close>

definition runs_with :: "u64 \<Rightarrow> kernel \<Rightarrow> kernel \<Rightarrow> bool" where
  "runs_with X s s' \<longleftrightarrow>
     mem s' = mem s \<and> heap s' = heap s \<and> debug s' = debug s \<and> page_ref_counts s' = page_ref_counts s \<and>
     (\<exists>t. task_structs s' (get_current s') = Some t \<and> ts_pgd t = X) \<and> satp_table s' = X"

text \<open>The effect of a store to a shared page: the storing side reads the byte it wrote and the old bytes
  around it, and no page that was in use and is not one of its tables changes.\<close>

definition stored :: "u64 \<Rightarrow> u64 \<Rightarrow> u64 \<Rightarrow> u8 \<Rightarrow> kernel \<Rightarrow> kernel \<Rightarrow> bool" where
  "stored X va e b s s' \<longleftrightarrow>
     satp_table s' = X \<and> reference_dropped e s s' \<and>
     (\<forall>a env. user_va a \<and> unat a div 4096 = unat va div 4096 \<longrightarrow>
        load_byte env a s' = Some (if a = va then b else mem s (next_table e + (a AND 4095)), s')) \<and>
     (\<forall>q x. paged q \<and> q \<in> allotted s \<and> q \<notin> tables (mem s) X \<and> unat (x - q) < 4096 \<longrightarrow> mem s' x = mem s x)"

lemma store_private:
  assumes sp: "shared_page X s va e" and fl: "e AND PTE_COW \<noteq> 0" "e AND PTE_W = 0" "e AND PTE_R \<noteq> 0" "e AND PTE_U \<noteq> 0"
    and t: "task_structs s (get_current s) = Some t" "ts_pgd t = X" "satp_table s = X" and room: "can_alloc 3 (heap s)"
  shows "\<exists>s'. store_byte env va b s = Some s' \<and> stored X va e b s s'"
proof -
  have u: "user_va va" and le: "leaf_entry (mem s) X va = Some e" and ok: "pt_ok X s" using sp by (simp_all add: shared_page_def)
  have low: "\<not> PAGE_OFFSET \<le> va" by (rule user_below [OF u])
  define s0 where "s0 = s\<lparr>stval := va\<rparr>"
  have s0: "mem s0 = mem s" "heap s0 = heap s" "satp s0 = satp s" "stval s0 = va" by (simp_all add: s0_def)
  have "shared_page X s0 va e" "can_alloc 3 (heap s0)" using sp room shared_page_cong [OF s0(1,2)] s0(2) by simp_all
  then obtain s1 where s1: "cow_fault X va s0 = Some s1" "private_copy X va e s0 s1" using cow_fault_ok by blast
  have pf: "page_fault_handler env 15 s0 = Some s1"
    using t(1,2) le fl(1) s1(1) s0 by (simp add: page_fault_handler_def iterate_leaf s0_def get_current_def)
  have c: "pt_ok X s1" "satp s1 = satp s" "reference_dropped e s s1"
    "\<forall>q x. paged q \<and> q \<in> allotted s \<and> q \<notin> tables (mem s) X \<and> unat (x - q) < 4096 \<longrightarrow> mem s1 x = mem s x"
    using s1(2) by (simp_all add: private_copy_def s0_def reference_dropped_def Let_def)
  obtain p where p: "paged p" "p \<notin> allotted s" "p \<notin> tables (mem s1) X"
    "leaf_entry (mem s1) X va = Some (MAKE_PTE (virt_to_phys p) (private_flags e))"
    "\<forall>k < 4096. mem s1 (p + of_nat k) = mem s (next_table e + of_nat k)"
    using s1(2) s0(1,2) unfolding private_copy_def by auto
  define n where "n = MAKE_PTE (virt_to_phys p) (private_flags e)"
  note pe = private_entry [OF p(1) n_def]
  have st: "satp_table s1 = X" using t(3) c(2) by (simp add: satp_table_def)
  define s' where "s' = s1\<lparr>mem := (mem s1)(p + (va AND 4095) := b)\<rparr>"
  have ms: "mem s' = (mem s1)(p + (va AND 4095) := b)" "satp_table s' = X"
    using st by (simp_all add: s'_def satp_table_def)
  have "user_translate PTE_W va s = None" using t(3) le fl(2) by (simp add: user_translate_def)
  then have "store_byte env va b s = store_byte env va b s1"
    using low pf by (subst store_byte.simps) (simp add: s0_def)
  moreover have "user_translate PTE_W va s1 = Some (p + (va AND 4095))"
    using st p(4) pe(1,2,4) fl(4) by (simp add: user_translate_def n_def [symmetric] next_table_def)
  ultimately have "store_byte env va b s = Some s'"
    using low by (subst (asm) (2) store_byte.simps) (simp add: s'_def)
  moreover have "stored X va e b s s'"
    unfolding stored_def
  proof (intro conjI allI impI)
    show "satp_table s' = X" by (rule ms(2))
    show "reference_dropped e s s'" using c(3) by (simp add: s'_def reference_dropped_def Let_def)
    have out: "mem s' x = mem s1 x" if "\<not> unat (x - p) < 4096" for x using that byte_offset(3) by (auto simp: ms(1))
    show "mem s' x = mem s x" if q: "paged q \<and> q \<in> allotted s \<and> q \<notin> tables (mem s) X \<and> unat (x - q) < 4096" for q x
      using c(4) q out pages_apart [of q p x] p(1,2) by metis
    fix a env assume a: "user_va a \<and> unat a div 4096 = unat va div 4096"
    have pX: "paged X" using ok by (simp add: pt_ok_def tree_def)
    have "leaf_entry (mem s') X a = leaf_entry (mem s1) X a"
    proof (rule leaf_frame(1) [OF pX])
      fix r x assume r: "r \<in> tables (mem s1) X" "unat (x - r) < 4096"
      then have "paged r" "r \<noteq> p" using tables_paged [OF pX] p(3) by blast+
      then show "mem s' x = mem s1 x" using out pages_apart [OF _ p(1) r(2)] by blast
    qed (use a in simp)
    also have "\<dots> = Some n" using leaf_same_page [of a va] a u p(4) by (simp add: n_def)
    finally have "load_byte env a s' = Some (mem s' (p + (a AND 4095)), s')"
      using load_mapped [of a s' n env] a ms(2) pe fl(3,4) by simp
    moreover have "mem s' (p + (a AND 4095)) = (if a = va then b else mem s (next_table e + (a AND 4095)))"
      using offset_distinct [of a va] a p(5) byte_offset(1,2) [of a] by (auto simp: ms(1))
    ultimately show "load_byte env a s' = Some (if a = va then b else mem s (next_table e + (a AND 4095)), s')" by simp
  qed
  ultimately show ?thesis by blast
qed

subsection \<open>The property\<close>

text \<open>A page of the parent that it may read and write, in memory of its own, whose count is its number of
  references and does not wrap with those that the fork adds.\<close>

definition writable_page :: "u64 \<Rightarrow> u64 \<Rightarrow> kernel \<Rightarrow> u64 \<Rightarrow> u64 \<Rightarrow> bool" where
  "writable_page P D s va e \<longleftrightarrow>
     user_va va \<and> leaf_entry (mem s) P va = Some e \<and> e AND PTE_W \<noteq> 0 \<and> e AND PTE_R \<noteq> 0 \<and> e AND PTE_U \<noteq> 0 \<and>
     next_table e \<in> allotted s \<and> next_table e \<notin> tables (mem s) P \<union> tables (mem s) D \<and>
     (let i = page_idx (debug s) (pte_pa e)
      in i < NUM_PAGES (debug s) \<and> 0 < page_ref_counts s i \<and> unat (page_ref_counts s i) + mappings s P i < 256)"

lemma mapped_counts:
  assumes "user_va va" and "leaf_entry (mem s) P va = Some e"
  shows "0 < mappings s P (page_idx (debug s) (pte_pa e))"
proof -
  have "([vpn2 va, vpn1 va], vpn0 va) \<in> sharers (debug s) (old_leaf s P) user_slots (page_idx (debug s) (pte_pa e))"
    using assms(2) user_slot [OF assms(1)] by (simp add: sharers_def leaf_entry_leaf)
  moreover have "finite (sharers (debug s) (old_leaf s P) user_slots r)" for r
    using slots_finite by (simp add: sharers_def)
  ultimately show ?thesis unfolding mappings_def using card_gt_0_iff by blast
qed

lemma count_grows:
  fixes c :: u8
  assumes "0 < c" and "0 < m" and "unat c + m < 256"
  shows "1 < c + of_nat m"
proof -
  have "unat (of_nat m :: u8) = m" using assms(3) by (simp add: unat_of_nat)
  then have "unat (c + of_nat m) = unat c + m" using assms(3) by (simp add: unat_add_lem [THEN iffD1])
  moreover have "0 < unat c" using assms(1) by (simp add: word_less_nat_alt)
  ultimately show ?thesis using assms(2) by (simp add: word_less_nat_alt)
qed

lemma fork_store:
  assumes ok: "pt_ok X s1" "pt_ok Y s1" "tables (mem s1) X \<inter> tables (mem s1) Y = {}"
    and e: "valid e" "e AND PTE_W \<noteq> 0" "e AND PTE_R \<noteq> 0" "e AND PTE_U \<noteq> 0"
    and l: "user_va va" "leaf_entry (mem s1) X va = Some (cow_entry e)" "leaf_entry (mem s1) Y va = Some (cow_entry e)"
    and F: "next_table e \<in> allotted s1" "next_table e \<notin> tables (mem s1) X"
    and c: "page_idx (debug s1) (pte_pa e) < NUM_PAGES (debug s1)" "1 < page_ref_counts s1 (page_idx (debug s1) (pte_pa e))"
    and r: "runs_with X s1 s2" "can_alloc 3 (heap s1)"
  shows "\<exists>s3. store_byte env va b s2 = Some s3 \<and> load_byte env va s3 = Some (b, s3) \<and> next_table e \<in> allotted s3 \<and>
    (\<forall>a. user_va a \<longrightarrow> leaf_entry (mem s3) Y a = leaf_entry (mem s1) Y a) \<and>
    (\<forall>s4 a env. mem s4 = mem s3 \<and> satp_table s4 = Y \<and> user_va a \<and> unat a div 4096 = unat va div 4096 \<longrightarrow>
       load_byte env a s4 = Some (mem s1 (next_table e + (a AND 4095)), s4))"
proof -
  have m: "mem s2 = mem s1" "heap s2 = heap s1" "debug s2 = debug s1" "page_ref_counts s2 = page_ref_counts s1" "satp_table s2 = X"
    using r(1) by (simp_all add: runs_with_def)
  obtain t where t: "task_structs s2 (get_current s2) = Some t" "ts_pgd t = X" using r(1) by (auto simp: runs_with_def)
  note ce = cow_entry_props(2,4) [OF e(1)] and cf = cow_entry_flags [OF e(1,2)]
  have n: "next_table (cow_entry e) = next_table e" by (simp add: next_table_def ce(1))
  have "shared_page X s1 va (cow_entry e)" using ok(1) l(1,2) F n by (simp add: shared_page_def)
  then have sp: "shared_page X s2 va (cow_entry e)" using shared_page_cong [OF m(1,2)] by simp
  have R: "cow_entry e AND PTE_R \<noteq> 0" and U: "cow_entry e AND PTE_U \<noteq> 0" using cf(2,3) e(3,4) by simp_all
  obtain s3 where s3: "store_byte env va b s2 = Some s3" "stored X va (cow_entry e) b s2 s3"
    using store_private [OF sp cf(1) ce(2) R U t m(5)] r(2) m(2) by metis
  have same: "mem s3 x = mem s1 x" if "paged q" "q \<in> allotted s1" "q \<notin> tables (mem s1) X" "unat (x - q) < 4096" for q x
    using s3(2) that m(1,2) unfolding stored_def by simp
  have pY: "paged Y" "tables (mem s1) Y \<subseteq> allotted s1" using ok(2) by (simp_all add: pt_ok_def tree_def)
  have ly: "leaf_entry (mem s3) Y a = leaf_entry (mem s1) Y a" if "user_va a" for a
  proof (rule leaf_frame(1) [OF pY(1) _ that])
    fix q x assume q: "q \<in> tables (mem s1) Y" "unat (x - q) < 4096"
    then show "mem s3 x = mem s1 x" using same [OF tables_paged [OF pY(1) q(1)]] pY(2) ok(3) by blast
  qed
  have "load_byte env a s4 = Some (mem s1 (next_table e + (a AND 4095)), s4)"
    if s4: "mem s4 = mem s3" "satp_table s4 = Y" "user_va a" "unat a div 4096 = unat va div 4096" for s4 a env
  proof -
    have "leaf_entry (mem s4) (satp_table s4) a = Some (cow_entry e)"
      using ly [OF s4(3)] leaf_same_page [OF s4(3) l(1) s4(4)] l(3) s4(1,2) by simp
    note load_mapped [OF s4(3) this R U, of env, unfolded n]
    moreover have "mem s3 (next_table e + (a AND 4095)) = mem s1 (next_table e + (a AND 4095))"
      by (rule same [OF next_table_paged F byte_offset(3)])
    ultimately show ?thesis using s4(1) by simp
  qed
  moreover have "load_byte env va s3 = Some (b, s3)" using s3(2) l(1) by (simp add: stored_def)
  moreover have "next_table e \<in> allotted s3"
    using s3(2) c m(3,4) ce(1) n by (simp add: stored_def reference_dropped_def Let_def)
  ultimately show ?thesis using s3(1) ly by blast
qed

text \<open>C4: A fork separates the tasks: after \<open>fork_copy_page_table_cow\<close>, whichever of the parent and the child runs
  first and stores a byte to a page that the parent could write, the store succeeds and the storing task reads
  the byte back, while the other task, once it runs, still reads the bytes of that page from before the fork, its
  mappings are unchanged, and the frame it reads stays allocated.  This needs memory for the tables and for one
  fault, and a reference count that the fork does not carry past its eight bits.\<close>

theorem fork_isolates:
  assumes "pt_ok P s" and "pt_ok D s" and "tables (mem s) P \<inter> tables (mem s) D = {}"
    and "\<forall>i < 256. \<not> valid (pte_get (mem s) D i)"
    and "can_alloc (n + 3) (heap s)" and "card (tables (mem s) P) \<le> Suc n" and "writable_page P D s va e"
  shows "\<exists>s1. fork_copy_page_table_cow D P s = Some s1 \<and>
    (\<forall>X Y s2 b env. (X, Y) \<in> {(P, D), (D, P)} \<and> runs_with X s1 s2 \<longrightarrow>
      (\<exists>s3. store_byte env va b s2 = Some s3 \<and> load_byte env va s3 = Some (b, s3) \<and> next_table e \<in> allotted s3 \<and>
        (\<forall>a. user_va a \<longrightarrow> leaf_entry (mem s3) Y a = leaf_entry (mem s1) Y a) \<and>
        (\<forall>s4 a env. mem s4 = mem s3 \<and> satp_table s4 = Y \<and> user_va a \<and> unat a div 4096 = unat va div 4096 \<longrightarrow>
           load_byte env a s4 = Some (mem s (next_table e + (a AND 4095)), s4))))"
proof -
  obtain s1 where s1: "fork_copy_page_table_cow D P s = Some s1" "cow_trees 3 P D s s1"
    "tables (mem s1) P = tables (mem s) P" "debug s1 = debug s"
    and lf: "\<forall>a. user_va a \<longrightarrow> leaf_entry (mem s1) P a = map_option cow_entry (leaf_entry (mem s) P a) \<and>
       leaf_entry (mem s1) D a = leaf_entry (mem s1) P a"
    and counts: "\<forall>r. page_ref_counts s1 r = page_ref_counts s r + (if r < NUM_PAGES (debug s) then of_nat (mappings s P r) else 0)"
    and frame: "\<forall>q x. paged q \<and> q \<in> allotted s \<and> q \<notin> tables (mem s) P \<union> tables (mem s) D \<and> unat (x - q) < 4096 \<longrightarrow>
       mem s1 x = mem s x"
    by (rule fork_done [OF assms(1-6)])
  define i where "i = page_idx (debug s) (pte_pa e)"
  have w: "user_va va" "leaf_entry (mem s) P va = Some e" "e AND PTE_W \<noteq> 0" "e AND PTE_R \<noteq> 0" "e AND PTE_U \<noteq> 0"
    "next_table e \<in> allotted s" "next_table e \<notin> tables (mem s) P \<union> tables (mem s) D"
    "i < NUM_PAGES (debug s)" "0 < page_ref_counts s i" "unat (page_ref_counts s i) + mappings s P i < 256"
    using assms(7) by (simp_all add: writable_page_def Let_def i_def)
  have "1 < page_ref_counts s1 i"
    using count_grows [OF w(9) _ w(10)] mapped_counts [OF w(1,2)] counts w(8) by (simp add: i_def)
  then have c: "page_idx (debug s1) (pte_pa e) < NUM_PAGES (debug s1)" "1 < page_ref_counts s1 (page_idx (debug s1) (pte_pa e))"
    using w(8) s1(4) by (simp_all add: i_def)
  note d = cow_treesD [OF s1(2)]
  have room: "can_alloc 3 (heap s1)" using d(5) by (rule can_alloc_less) simp
  have F: "next_table e \<in> allotted s1" "next_table e \<notin> tables (mem s1) P" "next_table e \<notin> tables (mem s1) D"
    using w(6,7) d(6,7) s1(3) by blast+
  have l: "leaf_entry (mem s1) P va = Some (cow_entry e)" "leaf_entry (mem s1) D va = Some (cow_entry e)"
    using lf w(1,2) by simp_all
  have old: "mem s1 (next_table e + (a AND 4095)) = mem s (next_table e + (a AND 4095))" for a
    using frame next_table_paged w(6,7) byte_offset(3) by blast
  have dj: "tables (mem s1) D \<inter> tables (mem s1) P = {}" using d(3) by blast
  note ps = fork_store [OF d(1,2,3) leaf_valid [OF w(2)] w(3,4,5) w(1) l F(1,2) c _ room]
    and ds = fork_store [OF d(2,1) dj leaf_valid [OF w(2)] w(3,4,5) w(1) l(2,1) F(1,3) c _ room]
  show ?thesis
    using s1(1) ps ds unfolding old by (intro exI [of _ s1]) auto
qed

text \<open>A parent with one writable page in the second of sixteen pages, and a child without pages.\<close>

lemma slot_address:
  assumes "(p, k) \<in> user_slots"
  shows "\<exists>a. user_va a \<and> p = [vpn2 a, vpn1 a] \<and> k = vpn0 a"
proof -
  obtain i j where p: "p = [i, j]" "i < 256" "j < 512" and k: "k < 512"
    using assms by (auto simp: user_slots_def upath_def length_Suc_conv numeral_2_eq_2)
  define x where "x = i * 262144 + j * 512 + k"
  have x: "x < 2 ^ 26" using p(2,3) k by (simp add: x_def)
  define a :: u64 where "a = of_nat (x * 4096)"
  have a: "unat a = x * 4096" unfolding a_def by (rule unat_of_nat64) (use x in simp)
  define y where "y = i * 512 + j"
  have "x = y * 512 + k" by (simp add: x_def y_def algebra_simps)
  then have "x div 512 = y" "x mod 512 = k" using k by simp_all
  moreover have "y div 512 = i" "y mod 512 = j" using p(3) by (simp_all add: y_def)
  moreover have "vpn0 a = x mod 512" "vpn1 a = x div 512 mod 512" "vpn2 a = x div 512 div 512 mod 512"
    by (simp_all add: vpn2_def vpn1_def vpn0_def vpn_nat div_mult2_eq [symmetric] a)
  ultimately have "vpn2 a = i" "vpn1 a = j" "vpn0 a = k" using p(2) by simp_all
  moreover have "user_va a" using x by (simp add: user_va_def a)
  ultimately show ?thesis using p(1) by blast
qed

lemma one_mapping:
  assumes "user_va va" and "\<forall>a. user_va a \<and> unat a div 4096 \<noteq> unat va div 4096 \<longrightarrow> leaf_entry (mem s) P a = None"
  shows "mappings s P r \<le> 1"
proof -
  have "t = ([vpn2 va, vpn1 va], vpn0 va)" if t: "t \<in> sharers (debug s) (old_leaf s P) user_slots r" for t
  proof -
    obtain p k where pk: "t = (p, k)" by fastforce
    then have k: "(p, k) \<in> user_slots" "leaf (mem s) P p k \<noteq> None" using t by (auto simp: sharers_def)
    obtain a where a: "user_va a" "p = [vpn2 a, vpn1 a]" "k = vpn0 a" using slot_address [OF k(1)] by blast
    then have "unat a div 4096 = unat va div 4096" using assms(2) k(2) by (metis leaf_entry_leaf)
    then show ?thesis using vpn_same_page [OF a(1) assms(1)] a(2,3) pk by simp
  qed
  then have "sharers (debug s) (old_leaf s P) user_slots r \<subseteq> {([vpn2 va, vpn1 va], vpn0 va)}" by blast
  then show ?thesis unfolding mappings_def using card_mono [of "{([vpn2 va, vpn1 va], vpn0 va)}"] by fastforce
qed

definition lone_parent :: kernel where
  "lone_parent = set_page_ref_init 0x101000 (page_kernel\<lparr>heap := sixteen_taken 2, active_user_pgd := example_pgd,
     mem := memzero 0xffffffc000101000 4096 (memzero example_pgd 4096 (\<lambda>_. 0))\<rparr>)"

lemma lone_parent_ok:
  "pt_ok example_pgd lone_parent" "active_user_pgd lone_parent = example_pgd" "tables (mem lone_parent) example_pgd = {example_pgd}"
  "user_va a \<Longrightarrow> leaf_entry (mem lone_parent) example_pgd a = None" "0xffffffc000101000 \<in> allotted lone_parent"
  "can_alloc 8 (heap lone_parent)" "debug lone_parent = False" "page_ref_counts lone_parent 0x101 = 1"
proof -
  define k0 where "k0 = page_kernel\<lparr>heap := sixteen_taken 0, active_user_pgd := example_pgd\<rparr>"
  define k1 where "k1 = k0\<lparr>heap := sixteen_taken 1, mem := memzero example_pgd 4096 (mem k0)\<rparr>"
  have h: "heap k0 = sixteen_taken 0" "heap k1 = sixteen_taken 1" "mem k0 = (\<lambda>_. 0)" by (simp_all only: k0_def k1_def, simp_all add: page_kernel_def)
  have k: "kernel_inv k0" using sixteen_pages_inv by (simp add: kernel_inv_def h)
  have n: "new_page k0 = Some (example_pgd, k1)"
    unfolding k1_def by (rule new_page_taken) (simp_all only: h sixteen_taken example_pgd_def, simp)
  have "virt_to_phys 0xffffffc000101000 = 0x101000" by (simp add: virt_to_phys_def PAGE_OFFSET_def)
  moreover have "new_page k1 = Some (0xffffffc000101000, k1\<lparr>heap := sixteen_taken 2, mem := memzero 0xffffffc000101000 4096 (mem k1)\<rparr>)"
    by (rule new_page_taken) (simp_all only: h sixteen_taken, simp)
  moreover have "k1\<lparr>heap := sixteen_taken 2, mem := memzero 0xffffffc000101000 4096 (mem k1)\<rparr> =
      page_kernel\<lparr>heap := sixteen_taken 2, active_user_pgd := example_pgd,
     mem := memzero 0xffffffc000101000 4096 (memzero example_pgd 4096 (\<lambda>_. 0))\<rparr>"
    unfolding k1_def h(3) by (simp add: k0_def del: memzero.simps sixteen_taken.simps)
  ultimately have f: "fresh_frame k1 = Some (0xffffffc000101000, lone_parent)"
    by (simp add: fresh_frame_def lone_parent_def del: memzero.simps sixteen_taken.simps)
  have ok: "pt_ok example_pgd k1" by (rule new_pt_ok [OF k n])
  obtain h where fr: "pt_ok example_pgd lone_parent" "allotted lone_parent = insert 0xffffffc000101000 (allotted k1)"
    "tables (mem lone_parent) example_pgd = tables (mem k1) example_pgd"
    "\<forall>a. user_va a \<longrightarrow> leaf_entry (mem lone_parent) example_pgd a = leaf_entry (mem k1) example_pgd a"
    using fresh_frame_ok [OF ok f] by metis
  show "pt_ok example_pgd lone_parent" "0xffffffc000101000 \<in> allotted lone_parent" using fr(1,2) by simp_all
  show "tables (mem lone_parent) example_pgd = {example_pgd}" using fr(3) new_tables(2) [OF k n] by simp
  show "user_va a \<Longrightarrow> leaf_entry (mem lone_parent) example_pgd a = None" using fr(4) new_tables(3) [OF k n] by simp
  have "can_alloc 8 (sixteen_taken 2)" by code_simp
  then show "can_alloc 8 (heap lone_parent)"
    by (simp add: lone_parent_def set_page_ref_init_def Let_def del: memzero.simps sixteen_taken.simps can_alloc.simps)
  show "active_user_pgd lone_parent = example_pgd" "debug lone_parent = False" "page_ref_counts lone_parent 0x101 = 1"
    by (simp_all add: lone_parent_def set_page_ref_init_def Let_def page_idx_def NUM_PAGES_def RAM_START_def page_kernel_def
        del: memzero.simps sixteen_taken.simps)
qed

lemma isolated_page:
  obtains s D where "pt_ok example_pgd s" "pt_ok D s" "tables (mem s) example_pgd \<inter> tables (mem s) D = {}"
    "\<forall>i < 256. \<not> valid (pte_get (mem s) D i)" "can_alloc (2 + 3) (heap s)" "card (tables (mem s) example_pgd) \<le> Suc 2"
    "writable_page example_pgd D s 0x5007 (MAKE_PTE 0x101000 (PROT_USER_RW OR PTE_V))"
proof -
  have u: "user_va 0x5007" by (simp add: user_va_def)
  have room: "can_alloc (Suc (Suc (Suc (2 + 3)))) (heap lone_parent)" using lone_parent_ok(6) by (simp add: numeral_eq_Suc)
  define e where "e = MAKE_PTE 0x101000 (PROT_USER_RW OR PTE_V)"
  obtain s D where s: "pt_ok example_pgd s" "pt_ok D s" "tables (mem s) example_pgd \<inter> tables (mem s) D = {}"
    "\<forall>i < 256. \<not> valid (pte_get (mem s) D i)" "can_alloc (2 + 3) (heap s)" "card (tables (mem s) example_pgd) \<le> Suc 2"
    "\<forall>a. user_va a \<longrightarrow> leaf_entry (mem s) example_pgd a =
       (if unat a div 4096 = unat (0x5007 :: u64) div 4096 then Some e else leaf_entry (mem lone_parent) example_pgd a)"
    "allotted lone_parent \<subseteq> allotted s" "(tables (mem s) example_pgd \<union> tables (mem s) D) \<inter> allotted lone_parent \<subseteq> {example_pgd}"
    "page_ref_counts s = page_ref_counts lone_parent" "debug s = debug lone_parent"
    unfolding e_def
    by (rule one_page_parent [where pa = "0x101000" and prot = PROT_USER_RW, OF lone_parent_ok(1-3) u room])
  have f: "(PROT_USER_RW OR PTE_V) AND NOT 0x3FF = 0"
    by (simp add: PROT_USER_RW_def PROT_USER_BASE_def PTE_V_def PTE_U_def PTE_A_def PTE_D_def PTE_R_def PTE_W_def)
  have pa: "pte_pa e = 0x101000" unfolding e_def MAKE_PTE_pa [OF f] by (simp add: page_num_def)
  then have F: "next_table e = 0xffffffc000101000" by (simp add: next_table_def phys_to_virt_def PAGE_OFFSET_def)
  have ne: "(0xffffffc000101000 :: u64) \<noteq> example_pgd" by (simp add: example_pgd_def)
  have i: "page_idx (debug s) (pte_pa e) = 0x101" using s(11) lone_parent_ok(7) pa by (simp add: page_idx_def RAM_START_def)
  have "mappings s example_pgd 0x101 \<le> 1"
    by (rule one_mapping [OF u]) (use s(7) lone_parent_ok(4) in simp)
  moreover have "page_ref_counts s 0x101 = 1" using s(10) lone_parent_ok(8) by simp
  moreover have "e AND PTE_W \<noteq> 0" "e AND PTE_R \<noteq> 0" "e AND PTE_U \<noteq> 0"
    by (simp_all add: e_def MAKE_PTE_def PROT_USER_RW_def PROT_USER_BASE_def PTE_V_def PTE_U_def PTE_A_def PTE_D_def PTE_R_def PTE_W_def)
  moreover have "leaf_entry (mem s) example_pgd 0x5007 = Some e" using s(7) u by simp
  moreover have "next_table e \<in> allotted s" "next_table e \<notin> tables (mem s) example_pgd \<union> tables (mem s) D"
    unfolding F using s(8,9) lone_parent_ok(5) ne by blast+
  ultimately have "writable_page example_pgd D s 0x5007 e"
    unfolding writable_page_def Let_def i using u by (simp add: NUM_PAGES_def)
  then show thesis using s(1-6) unfolding e_def by (intro that [of s D])
qed

lemma fork_isolates_witness:
  "\<exists>s D e s1 s2 s3. writable_page example_pgd D s 0x5007 e \<and> fork_copy_page_table_cow D example_pgd s = Some s1 \<and>
     runs_with example_pgd s1 s2 \<and> store_byte Some 0x5007 42 s2 = Some s3 \<and> load_byte Some 0x5007 s3 = Some (42, s3) \<and>
     leaf_entry (mem s3) D 0x5007 = leaf_entry (mem s1) D 0x5007 \<and> next_table e \<in> allotted s3"
proof -
  obtain s D where s: "pt_ok example_pgd s" "pt_ok D s" "tables (mem s) example_pgd \<inter> tables (mem s) D = {}"
    "\<forall>i < 256. \<not> valid (pte_get (mem s) D i)" "can_alloc (2 + 3) (heap s)" "card (tables (mem s) example_pgd) \<le> Suc 2"
    "writable_page example_pgd D s 0x5007 (MAKE_PTE 0x101000 (PROT_USER_RW OR PTE_V))"
    by (rule isolated_page)
  define e where "e = MAKE_PTE 0x101000 (PROT_USER_RW OR PTE_V)"
  let ?after = "\<lambda>s3 Y. \<forall>s4 a env. mem s4 = mem s3 \<and> satp_table s4 = Y \<and> user_va a \<and>
    unat a div 4096 = unat (0x5007 :: u64) div 4096 \<longrightarrow> load_byte env a s4 = Some (mem s (next_table e + (a AND 4095)), s4)"
  obtain s1 where s1: "fork_copy_page_table_cow D example_pgd s = Some s1"
    "\<forall>X Y s2 b env. (X, Y) \<in> {(example_pgd, D), (D, example_pgd)} \<and> runs_with X s1 s2 \<longrightarrow>
      (\<exists>s3. store_byte env 0x5007 b s2 = Some s3 \<and> load_byte env 0x5007 s3 = Some (b, s3) \<and> next_table e \<in> allotted s3 \<and>
        (\<forall>a. user_va a \<longrightarrow> leaf_entry (mem s3) Y a = leaf_entry (mem s1) Y a) \<and> ?after s3 Y)"
    using fork_isolates [OF s, folded e_def] by (elim exE conjE) (rule that)
  define s2 where "s2 = s1\<lparr>tp := 16, satp := 0x8000000000000100, task_structs := [16 \<mapsto> zero_task\<lparr>ts_pgd := example_pgd\<rparr>]\<rparr>"
  have "satp_table s2 = example_pgd"
    by (simp add: satp_table_def s2_def phys_to_virt_def PAGE_OFFSET_def example_pgd_def mask_eq_exp_minus_1)
  then have r: "runs_with example_pgd s1 s2" by (simp add: runs_with_def s2_def get_current_def)
  have u: "user_va 0x5007" by (simp add: user_va_def)
  have xy: "(example_pgd, D) \<in> {(example_pgd, D), (D, example_pgd)}" by simp
  have "\<exists>s3. store_byte Some 0x5007 42 s2 = Some s3 \<and> load_byte Some 0x5007 s3 = Some (42, s3) \<and> next_table e \<in> allotted s3 \<and>
        (\<forall>a. user_va a \<longrightarrow> leaf_entry (mem s3) D a = leaf_entry (mem s1) D a) \<and> ?after s3 D"
    by (rule s1(2) [rule_format, OF conjI [OF xy r]])
  then obtain s3 where "store_byte Some 0x5007 42 s2 = Some s3"
    "load_byte Some 0x5007 s3 = Some (42, s3)" "next_table e \<in> allotted s3"
    "leaf_entry (mem s3) D 0x5007 = leaf_entry (mem s1) D 0x5007" using u by metis
  then show ?thesis using s(7) s1(1) r unfolding e_def by blast
qed

end
