(* ===== verification/Spec2Isabelle.thy ===== *)
theory Spec2Isabelle
  imports Utils Linked_List Kernel_Main Path_Resolution Signals Tmpfs_Tree Waiting Threads Isolation
begin

text \<open>
  A model of the kernel under src/lab7: a RISC-V (Sv39) kernel for QEMU and a board, with a buddy
  and a chunk allocator, preemptive threads, user processes with copy-on-write fork and demand
  paging, signals, and a virtual file system over tmpfs, ramfs and devfs.  The other laboratories are earlier
  stages of the same kernel.

  \<^bold>\<open>Parts and their theories.\<close>  Each theory names the source files it models; a definition has
  the name of the function, record or constant it models.

  \<^item> Prelude: 64-bit byte memory with little-endian access, C strings as readers, word lemmas.
  \<^item> Machine: the hart (\<open>sstatus\<close>, \<open>sie\<close>, \<open>satp\<close>, \<open>stval\<close>, \<open>tp\<close>, \<open>time\<close>), memory and console streams; the
    inline-assembly accessors of utils.c, timer.c and plic.c.
  \<^item> Utils (utils.c), Linked_List (list.h), Buddy and Slab and Memory (memory.c), Fdt (fdt.c), Cpio (cpio.c), Uart (uart.c).
  \<^item> Tasks (task.c), Timer (timer.c), Kernel_State (sched.h, trap.h, vfs.h, tmpfs.h), Sched (sched.c, \<open>switch_to\<close> of start.S).
  \<^item> Paging (paging.c), User_Access (memory behind user pointers, blocking \<open>uart_getc\<close>), Video (video.c).
  \<^item> Fs_Nodes, Tmpfs, Ramfs, Devfs (the file systems), Vfs (vfs.c), Process (threads and processes of sched.c and main.c).
  \<^item> Plic (plic.c), Syscall (syscall.c), Trap (trap.c), Kernel_Main (main.c).
  \<^item> Page_Tables, Page_Faults, Cow_Fork, Isolation, Areas, Signals, Path_Resolution, Tmpfs_Tree, Threads, Waiting: lemmas and properties of
    paging, mapped areas, signals, path lookup, the directory tree, the life cycle of threads and waiting.

  \<^bold>\<open>State.\<close>  The records extend each other: \<open>machine\<close> (hart and bytes), \<open>mm\<close> (the allocator), \<open>tasks\<close>, \<open>timers\<close>,
  \<open>kernel\<close> (everything else).  Pages, page tables, user memory, file data, the RAM disk and the
  device tree are bytes of \<open>mem\<close>.  Structures of the kernel heap (tasks, vnodes, nodes, files, mounts, trap frames)
  live in one typed partial map each, keyed by their address; their addresses come from \<open>allocate\<close>.  A fresh object keeps in its
  unassigned fields what the bytes of the chunk hold.  Lists of list.h inside the allocators are HOL lists;
  Linked_List proves that the pointer operations implement them.  The rings of tasks keep their pointers.

  \<^bold>\<open>Errors and effects.\<close>  Operations are functions from state to \<open>option\<close>: \<open>None\<close> is undefined behaviour (null or dangling
  access, shift beyond the width) or a run that does not come back; the error codes of the C functions are
  values (-1, null, or \<open>None\<close> of an inner option where the result is an output parameter).  Loops that need not
  end are \<open>partial_function (option)\<close>; no fuel is used.  Machine integers are words of
  their width and wrap around.

  \<^bold>\<open>Parameters.\<close>  \<open>env\<close> is what the other threads do between a switch away from a thread and the switch back
  to it (\<open>None\<close>: never); in \<open>sys_usleep\<close> it is what happens between two reads of the clock.  \<open>isr\<close> and \<open>call\<close> stand
  for an interrupt at a polling point and for the callback of a bottom half or a timer.  The devices
  (UART registers, interrupt controller, fw_cfg) and the linker symbols are parameters or fields of the state.  The field \<open>debug\<close> is the build for QEMU.

  \<^bold>\<open>Interfaces.\<close>  \<open>intrusive_list\<close> (Linked_List) and \<open>fifo\<close> (Uart) are the contracts of list.h and of the ring buffers.  \<open>allocator\<close> (Slab) is the contract of \<open>allocate\<close> and \<open>free\<close>: regions in use are disjoint, a new region is fresh, freeing
  one leaves the others; it is interpreted on the model as \<open>kmem\<close>, and paging, signals and the
  file systems rest on its facts.

  \<^bold>\<open>What is shown.\<close>
  \<^item> Allocators: the invariants of the buddy system and of the chunk pools under every operation, fresh and
    disjoint regions, exact release, termination below 2^63 bytes and divergence above, boot-time reservation.
  \<^item> Parsers: the device tree and the archive against abstract trees and lists and their encodings.
  \<^item> Console: the rings as queues, the interrupt handler, formatting and its inverse, the deadlock of a full ring with
    interrupts off.
  \<^item> Scheduling: round robin, exit, the run queue of one task, bottom halves and timers in order of
    priority and time, and what \<open>sys_waitpid\<close> can return.  The life cycle of the kernel threads is a step
    relation (\<open>thread_step\<close>) whose reachable states satisfy \<open>threads_ok\<close>: the queues partition the threads and
    each thread owns its memory, which reaping gives back; user processes with files are outside it.
  \<^item> Paging: \<open>map_pages\<close> as update of the map from addresses to leaf entries, the page tables of parent and
    child and the reference counts after a fork, private copies after a copy-on-write fault
    and the exact fate of the shared frame, zeroed pages on first touch through the access that is tried again, disjoint areas of \<open>sys_mmap\<close>.
    Isolation composes the fork, the fault and the two accesses: neither side of a fork sees what the other stores.
    Memory for a bounded number of pages (\<open>can_alloc\<close>) is a hypothesis where success is claimed: two pages for each
    mapped page, and for a fork as many as the parent has tables
    (three more for the first fault after it).
  \<^item> Signals: delivery and return restore the interrupted registers and the allocator.
  \<^item> Files: path resolution against a fold over the components, types of the tmpfs tree and lookup after create.

  \<^bold>\<open>Not modelled.\<close>  The boot and trap entry assembly of start.S (except \<open>switch_to\<close>), the picture data of
  bird.h, the earlier laboratories, translation caches, fences and instruction caches (no effect in the
  model), interrupts at points other than the polling points named above, and the time that operations take.  Paths and other
  strings behind user pointers are read once before a system call works on them.
\<close>

end
